(* ===== verification/Kernel_Prelude.thy ===== *)
theory Kernel_Prelude
  imports Main "HOL-Library.Word"
begin

text \<open>
  Shared vocabulary of the development: the C integer types of \<^verbatim>\<open>types.h\<close> as words,
  the ways in which a piece of kernel code can fail to return (\<open>kerr\<close>), sequencing of
  fallible state transformers (\<open>rbind\<close>), and the generic facts on words and lists that the
  component theories use.
\<close>

unbundle bit_operations_syntax

named_theorems kres_simps \<open>evaluation of sequenced kernel operations\<close>
named_theorems addr_simps \<open>address arithmetic moved to natural numbers\<close>

section \<open>C integer types (types.h)\<close>

type_synonym uchar = "8 word"
type_synonym ushort = "16 word"
type_synonym uint = "32 word"
type_synonym ulong = "64 word"
type_synonym pte_t = ulong
type_synonym byte = "8 word"

text \<open>A C string literal, and the conversion of an \<^verbatim>\<open>unsigned long\<close> to \<^verbatim>\<open>int\<close>.\<close>

definition cstr :: "string \<Rightarrow> byte list" where
  "cstr cs = map of_char cs @ [0]"

definition c_int :: "ulong \<Rightarrow> int" where
  "c_int w = sint (ucast w :: uint)"

section \<open>Outcomes\<close>

text \<open>The spinlocks of the kernel: \<^verbatim>\<open>uart_lock\<close>, \<^verbatim>\<open>buddy_lock\<close> and the lock of each
  \<^verbatim>\<open>caches[i]\<close>.\<close>

datatype lock_id = UartLock | BuddyLock | CacheLock nat

text \<open>The places where the code prints a message and stays in an endless
  \<^verbatim>\<open>while (1) wfi\<close> loop.\<close>

datatype halt_site =
    H_get_page_struct | H_page_addr | H_buddy_idx | H_spin_unlock
  | H_map_text | H_map_rodata | H_map_data | H_map_uart | H_proc_uart
  | H_trap_idle | H_trap_load_fault | H_trap_no_proc | H_trap_soft_irq
  | H_trap_illegal | H_trap_unknown

text \<open>
  A call that does not return ends in one of: a halt loop; an access to an address that is
  not mapped (\<open>Fault\<close>); an array access outside the array (\<open>Bounds\<close>); waiting for a
  spinlock that nobody releases (\<open>Spin\<close>); a loop that never ends (\<open>Diverge\<close>); waiting for
  console input that never comes (\<open>Blocked\<close>); waiting for another hart (\<open>Waiting\<close>).
\<close>

datatype kerr = Halt halt_site | Fault ulong | Bounds | Spin lock_id | Diverge | Blocked | Waiting

type_synonym 'a kres = "kerr + 'a"

definition rbind :: "'a kres \<Rightarrow> ('a \<Rightarrow> 'b kres) \<Rightarrow> 'b kres" where
  "rbind m f = (case m of Inl e \<Rightarrow> Inl e | Inr x \<Rightarrow> f x)"

lemma rbind_Inr [simp, kres_simps]: "rbind (Inr x) f = f x"
  by (simp add: rbind_def)

lemma rbind_Inl [simp, kres_simps]: "rbind (Inl e) f = Inl e"
  by (simp add: rbind_def)

lemma rbind_eq_Inr: "rbind m f = Inr y \<longleftrightarrow> (\<exists>x. m = Inr x \<and> f x = Inr y)"
  by (cases m) auto

lemma rbind_eq_Inl: "rbind m f = Inl e \<longleftrightarrow> m = Inl e \<or> (\<exists>x. m = Inr x \<and> f x = Inl e)"
  by (cases m) auto

lemma rbind_assoc: "rbind (rbind m f) g = rbind m (\<lambda>x. rbind (f x) g)"
  by (cases m) auto

lemma rbind_cong [fundef_cong]:
  "m = m' \<Longrightarrow> (\<And>x. m' = Inr x \<Longrightarrow> f x = f' x) \<Longrightarrow> rbind m f = rbind m' f'"
  by (cases m') auto

lemma rbind_Inr_right [simp]: "rbind m Inr = m"
  by (cases m) auto

section \<open>Words\<close>

lemma unat_of_nat64 [addr_simps]: "n < 2 ^ 64 \<Longrightarrow> unat (of_nat n :: ulong) = n"
  by (simp add: unat_of_nat)

lemma unat_of_nat32: "n < 2 ^ 32 \<Longrightarrow> unat (of_nat n :: uint) = n"
  by (simp add: unat_of_nat)

lemma ucast_of_nat32_64: "n < 2 ^ 32 \<Longrightarrow> (ucast (of_nat n :: uint) :: ulong) = of_nat n"
  by (simp add: word_unat_eq_iff unat_of_nat32 unat_of_nat64 unsigned_ucast_eq take_bit_eq_mod unat_of_nat)

lemma unat_lt32: "unat (i :: uint) < 2 ^ 32"
  using unsigned_less [of i] by simp

lemma unat_ucast32_64 [simp]: "unat (ucast (i :: uint) :: ulong) = unat i"
  using unat_lt32 [of i] by (simp add: unsigned_ucast_eq take_bit_eq_mod)

lemma ulong_eq_iff_unat: "(a :: ulong) = b \<longleftrightarrow> unat a = unat b"
  by (simp add: word_unat_eq_iff)

lemma unat_lt64: "unat (a :: ulong) < 2 ^ 64"
  using unsigned_less [of a] by simp

lemma unat_add64 [addr_simps]:
  "unat a + unat b < 2 ^ 64 \<Longrightarrow> unat (a + b :: ulong) = unat a + unat b"
  by (simp add: unat_add_lem [where 'a = 64, simplified])

lemma unat_mult64 [addr_simps]:
  "unat a * unat b < 2 ^ 64 \<Longrightarrow> unat (a * b :: ulong) = unat a * unat b"
  by (simp add: unat_mult_lem [where 'a = 64, simplified])

lemma unat_sub64 [addr_simps]: "b \<le> a \<Longrightarrow> unat (a - b :: ulong) = unat a - unat b"
  by (simp add: unat_sub)

text \<open>Adding an offset and taking it away again.\<close>

lemma unat_diff_offset:
  fixes a :: ulong
  shows "k < 2 ^ 64 \<Longrightarrow> unat (a + of_nat k - a) = k"
  by (simp add: unat_of_nat64)

text \<open>The conversion to \<^verbatim>\<open>int\<close> keeps small values.\<close>

lemma c_int_small:
  assumes "unat w < 2 ^ 31"
  shows "c_int w = int (unat w)"
proof -
  have "nat (uint w) < 2 ^ 31" using assms by (simp only: unat_eq_nat_uint)
  then have "uint w < 2 ^ 31" by (simp only: nat_less_iff [OF uint_ge_0]) simp
  then have u: "uint (ucast w :: uint) = uint w"
    by (simp add: unsigned_ucast_eq take_bit_int_eq_self)
  have "sint (ucast w :: uint) = signed_take_bit 31 (uint w)"
    unfolding sint_uint u by simp
  also have "\<dots> = uint w"
    by (rule signed_take_bit_int_eq_self [OF order_trans [OF _ uint_ge_0] \<open>uint w < 2 ^ 31\<close>]) simp
  finally show ?thesis by (simp add: c_int_def)
qed

section \<open>Lists\<close>

lemma list_update_same_cond [simp]: "xs[i := y, i := z] = xs[i := z]"
  by simp

lemma nth_list_update_if:
  "i < length xs \<Longrightarrow> xs[i := y] ! j = (if i = j then y else xs ! j)"
  by (simp add: nth_list_update)

end
