(* ===== verification/Machine.thy ===== *)
theory Machine
  imports Kernel_Prelude
begin

text \<open>
  The machine the kernel runs on: the constants of \<^verbatim>\<open>mm/mapping.h\<close>, \<^verbatim>\<open>mm/mem.h\<close>,
  \<^verbatim>\<open>mm/pagetable.h\<close> and \<^verbatim>\<open>riscv.h\<close>, the part of the state every component shares
  (the current hart, the spinlock words, RAM, the console), and byte and 64-bit accesses
  to RAM through the kernel's linear map.
\<close>

section \<open>Constants and macros\<close>

definition KERNEL_START :: ulong where "KERNEL_START = 0x80000000"
definition KERNEL_END :: ulong where "KERNEL_END = 0x80800000"
definition USER_START :: ulong where "USER_START = KERNEL_END"
definition USER_END :: ulong where "USER_END = 0x88000000"
definition KERNEL_START_VA :: ulong where "KERNEL_START_VA = 0xffffffff80000000"
definition KERNEL_END_VA :: ulong where "KERNEL_END_VA = 0xffffffff80800000"
definition USER_START_VA :: ulong where "USER_START_VA = 0"
definition USER_END_VA :: ulong where "USER_END_VA = 0x7800000"
definition VA_OFFSET :: ulong where "VA_OFFSET = KERNEL_START_VA - KERNEL_START"

lemmas mapping_defs = KERNEL_START_def KERNEL_END_def USER_START_def USER_END_def
  KERNEL_START_VA_def KERNEL_END_VA_def USER_START_VA_def USER_END_VA_def

lemma VA_OFFSET_eq: "VA_OFFSET = 0xffffffff00000000"
  by (simp add: VA_OFFSET_def KERNEL_START_VA_def KERNEL_START_def)

definition PAGE_SIZE :: ulong where "PAGE_SIZE = 4096"
definition PAGE_SHIFT :: nat where "PAGE_SHIFT = 12"
definition KSTACK_SIZE :: ulong where "KSTACK_SIZE = PAGE_SIZE"
definition USER_STACK_SIZE :: ulong where "USER_STACK_SIZE = PAGE_SIZE"
definition USER_STACK_TOP :: ulong where "USER_STACK_TOP = USER_END_VA"
definition USER_STACK_BASE :: ulong where "USER_STACK_BASE = USER_END_VA - USER_STACK_SIZE"
definition USER_HEAP_END :: ulong where "USER_HEAP_END = USER_STACK_BASE - PAGE_SIZE"
definition MAX_ORDER :: int where "MAX_ORDER = 10"

definition ALIGN_UP :: "ulong \<Rightarrow> ulong" where
  "ALIGN_UP addr = (addr + PAGE_SIZE - 1) AND NOT (PAGE_SIZE - 1)"

definition PTE2PA :: "pte_t \<Rightarrow> ulong" where
  "PTE2PA pte = push_bit 12 (drop_bit 10 pte)"

definition PA2PTE :: "ulong \<Rightarrow> pte_t" where
  "PA2PTE pa = push_bit 10 (drop_bit PAGE_SHIFT pa)"

definition PTE_FLAGS :: "pte_t \<Rightarrow> ulong" where
  "PTE_FLAGS pte = pte AND 0x3FF"

definition SSTATUS_SIE :: ulong where "SSTATUS_SIE = push_bit 1 1"
definition SSTATUS_SPIE :: ulong where "SSTATUS_SPIE = push_bit 5 1"
definition SSTATUS_SPP :: ulong where "SSTATUS_SPP = push_bit 8 1"
definition SSTATUS_SUM :: ulong where "SSTATUS_SUM = push_bit 18 1"

section \<open>State\<close>

text \<open>
  The part of \<^verbatim>\<open>cpu_t\<close> that the locking code uses, and the \<^verbatim>\<open>sstatus\<close> register of
  the hart. \<^verbatim>\<open>curr_cpu()\<close> reads \<^verbatim>\<open>tp\<close>: the code of one hart sees its own record.
\<close>

record hart =
  cpu_id :: uint
  lock_depth :: uint
  cpu_sstatus :: ulong
  csr_sstatus :: ulong

text \<open>
  RAM is a map from physical addresses to bytes. The console is the sequence of bytes
  written to the transmit register and the sequence of bytes still to be received.
  \<open>va_offset\<close> is the global of that name: 0 while the harts run in M-mode,
  \<^const>\<open>VA_OFFSET\<close> after \<^verbatim>\<open>mm_init\<close>.
\<close>

record machine =
  m_hart :: hart
  m_locks :: "lock_id \<Rightarrow> uint"
  m_mem :: "ulong \<Rightarrow> byte"
  va_offset :: ulong
  uart_out :: "byte list"
  uart_in :: "byte list"

definition PHYS_TO_VIRT :: "'z machine_scheme \<Rightarrow> ulong \<Rightarrow> ulong" where
  "PHYS_TO_VIRT s pa = pa + va_offset s"

definition VIRT_TO_PHYS :: "'z machine_scheme \<Rightarrow> ulong \<Rightarrow> ulong" where
  "VIRT_TO_PHYS s va = va - va_offset s"

lemma virt_phys_inverse [simp]:
  "VIRT_TO_PHYS s (PHYS_TO_VIRT s pa) = pa"
  "PHYS_TO_VIRT s (VIRT_TO_PHYS s va) = va"
  by (simp_all add: PHYS_TO_VIRT_def VIRT_TO_PHYS_def)

section \<open>Control and status registers\<close>

definition set_csr :: "ulong \<Rightarrow> ulong \<Rightarrow> ulong" where
  "set_csr reg b = reg OR b"

definition clear_csr :: "ulong \<Rightarrow> ulong \<Rightarrow> ulong" where
  "clear_csr reg b = reg AND NOT b"

section \<open>Access to RAM\<close>

text \<open>
  A dereference goes through the linear map \<open>pa \<mapsto> pa + va_offset\<close>: address \<open>p\<close> denotes
  physical address \<open>p - va_offset\<close>, and it faults unless that lies in RAM, which is
  \<^verbatim>\<open>[KERNEL_START, USER_END)\<close> on this machine.
\<close>

definition ram_range :: "'z machine_scheme \<Rightarrow> ulong \<Rightarrow> nat \<Rightarrow> bool" where
  "ram_range s p n \<longleftrightarrow>
     (let pa = unat (p - va_offset s)
      in unat KERNEL_START \<le> pa \<and> pa + n \<le> unat USER_END)"

text \<open>Little-endian 64-bit cells over byte memory.\<close>

fun le_bytes :: "nat \<Rightarrow> ulong \<Rightarrow> byte list" where
  "le_bytes 0 v = []"
| "le_bytes (Suc n) v = ucast v # le_bytes n (drop_bit 8 v)"

fun of_le_bytes :: "byte list \<Rightarrow> ulong" where
  "of_le_bytes [] = 0"
| "of_le_bytes (b # bs) = ucast b OR push_bit 8 (of_le_bytes bs)"

fun put_bytes :: "(ulong \<Rightarrow> byte) \<Rightarrow> ulong \<Rightarrow> byte list \<Rightarrow> (ulong \<Rightarrow> byte)" where
  "put_bytes m a [] = m"
| "put_bytes m a (b # bs) = put_bytes (m(a := b)) (a + 1) bs"

fun get_bytes :: "(ulong \<Rightarrow> byte) \<Rightarrow> ulong \<Rightarrow> nat \<Rightarrow> byte list" where
  "get_bytes m a 0 = []"
| "get_bytes m a (Suc n) = m a # get_bytes m (a + 1) n"

definition mem_get64 :: "(ulong \<Rightarrow> byte) \<Rightarrow> ulong \<Rightarrow> ulong" where
  "mem_get64 m a = of_le_bytes (get_bytes m a 8)"

definition mem_put64 :: "(ulong \<Rightarrow> byte) \<Rightarrow> ulong \<Rightarrow> ulong \<Rightarrow> (ulong \<Rightarrow> byte)" where
  "mem_put64 m a v = put_bytes m a (le_bytes 8 v)"

definition load64 :: "'z machine_scheme \<Rightarrow> ulong \<Rightarrow> ulong kres" where
  "load64 s p =
     (if ram_range s p 8 then Inr (mem_get64 (m_mem s) (p - va_offset s)) else Inl (Fault p))"

definition store64 :: "ulong \<Rightarrow> ulong \<Rightarrow> 'z machine_scheme \<Rightarrow> 'z machine_scheme kres" where
  "store64 p v s =
     (if ram_range s p 8
      then Inr (s\<lparr>m_mem := mem_put64 (m_mem s) (p - va_offset s) v\<rparr>) else Inl (Fault p))"

section \<open>Read-over-write laws\<close>

lemma length_le_bytes [simp]: "length (le_bytes n v) = n"
  by (induction n v rule: le_bytes.induct) auto

lemma length_get_bytes [simp]: "length (get_bytes m a n) = n"
  by (induction m a n rule: get_bytes.induct) auto

lemma of_le_bytes_le_bytes: "of_le_bytes (le_bytes n v) = take_bit (8 * n) v"
proof (induction n v rule: le_bytes.induct)
  case (1 v)
  then show ?case by simp
next
  case (2 n v)
  show ?case
    by (rule bit_word_eqI)
      (auto simp: "2.IH" bit_or_iff bit_push_bit_iff bit_take_bit_iff bit_drop_bit_eq
        unsigned_ucast_eq bit_ucast_iff simp flip: not_less)
qed

lemma get_bytes_nth: "i < n \<Longrightarrow> get_bytes m a n ! i = m (a + of_nat i)"
proof (induction m a n arbitrary: i rule: get_bytes.induct)
  case (2 m a n)
  then show ?case by (cases i) (auto simp: algebra_simps)
qed simp

lemma get_bytes_cong:
  "(\<And>i. i < n \<Longrightarrow> m (a + of_nat i) = m' (b + of_nat i)) \<Longrightarrow> get_bytes m a n = get_bytes m' b n"
  by (rule nth_equalityI) (auto simp: get_bytes_nth)

lemma put_bytes_apply:
  "length bs < 2 ^ 64 \<Longrightarrow>
   put_bytes m a bs x = (if unat (x - a) < length bs then bs ! unat (x - a) else m x)"
proof (induction bs arbitrary: m a)
  case Nil
  then show ?case by simp
next
  case (Cons b bs)
  show ?case
  proof (cases "x = a")
    case True
    have "unat (- 1 :: ulong) = 2 ^ 64 - 1" by (simp add: unsigned_minus_1_eq_mask mask_eq_exp_minus_1)
    with True Cons show ?thesis by simp
  next
    case False
    then have "x - a \<noteq> 0" by simp
    then have "unat (x - a) = Suc (unat (x - a - 1))"
      by (simp add: unat_minus_one unat_gt_0)
    then have "unat (x - a) = Suc (unat (x - (a + 1)))" by (simp add: diff_diff_eq)
    then show ?thesis using Cons False by simp
  qed
qed

lemma get_put_bytes_same:
  "length bs < 2 ^ 64 \<Longrightarrow> get_bytes (put_bytes m a bs) a (length bs) = bs"
  by (rule nth_equalityI) (auto simp: get_bytes_nth put_bytes_apply unat_of_nat64)

text \<open>Two 8-byte cells do not overlap.\<close>

definition cells_apart :: "ulong \<Rightarrow> ulong \<Rightarrow> bool" where
  "cells_apart a b \<longleftrightarrow> 8 \<le> unat (a - b) \<and> 8 \<le> unat (b - a)"

lemma cells_apart_sym: "cells_apart a b \<longleftrightarrow> cells_apart b a"
  by (auto simp: cells_apart_def)

lemma mem_get64_put64_same [simp]: "mem_get64 (mem_put64 m a v) a = v"
proof -
  have "get_bytes (mem_put64 m a v) a 8 = le_bytes 8 v"
    using get_put_bytes_same [of "le_bytes 8 v" m a] by (simp add: mem_put64_def)
  moreover have "of_le_bytes (le_bytes 8 v) = v"
    by (simp add: of_le_bytes_le_bytes) (rule bit_word_eqI, simp add: bit_take_bit_iff)
  ultimately show ?thesis by (simp add: mem_get64_def)
qed

lemma apart_byte:
  assumes "cells_apart a b" and "i < 8"
  shows "8 \<le> unat (b + of_nat i - a)"
proof -
  let ?d = "b - a"
  have "a \<noteq> b" using assms(1) by (auto simp: cells_apart_def)
  then have "unat (a - b) = 2 ^ 64 - unat ?d"
    using unat_lt64 [of a] unat_lt64 [of b]
    by (auto simp: unat_sub_if' word_le_nat_alt word_unat_eq_iff)
  then have d: "8 \<le> unat ?d" "unat ?d \<le> 2 ^ 64 - 8"
    using assms(1) unat_lt64 [of ?d] by (auto simp: cells_apart_def)
  have "unat (?d + of_nat i) = unat ?d + i"
    using d assms(2) by (subst unat_add64) (simp_all add: unat_of_nat64)
  then show ?thesis using d by (simp add: algebra_simps)
qed

lemma mem_get64_put64_other:
  "cells_apart a b \<Longrightarrow> mem_get64 (mem_put64 m a v) b = mem_get64 m b"
  unfolding mem_get64_def mem_put64_def
  by (rule arg_cong [where f = of_le_bytes], rule get_bytes_cong)
    (auto simp: put_bytes_apply dest: apart_byte)

lemma mem_get64_zero:
  "(\<And>i. i < 8 \<Longrightarrow> m (a + of_nat i) = 0) \<Longrightarrow> mem_get64 m a = 0"
proof -
  assume z: "\<And>i. i < 8 \<Longrightarrow> m (a + of_nat i) = 0"
  have "get_bytes m a 8 = replicate 8 0"
    by (rule nth_equalityI) (auto simp: get_bytes_nth z)
  then show ?thesis by (simp add: mem_get64_def eval_nat_numeral)
qed

lemma mem_put64_outside: "8 \<le> unat (x - a) \<Longrightarrow> mem_put64 m a v x = m x"
  by (simp add: mem_put64_def put_bytes_apply)

end
