(* ===== verification/Uart.thy ===== *)
theory Uart
  imports Machine
begin

text \<open>
  \<^verbatim>\<open>uart.c\<close>: the console driver. Transmitting a byte appends it to \<^const>\<open>uart_out\<close>;
  receiving takes the next byte of \<^const>\<open>uart_in\<close>. Character buffers are byte lists; reading
  or writing one outside its bounds is the error \<^const>\<open>Bounds\<close>. The lemmas show what the
  number printers put on the console.
\<close>

section \<open>Output\<close>

definition uart_putc :: "byte \<Rightarrow> 'z machine_scheme \<Rightarrow> 'z machine_scheme" where
  "uart_putc c s = s\<lparr>uart_out := uart_out s @ [c]\<rparr>"

fun uart_puts :: "byte list \<Rightarrow> 'z machine_scheme \<Rightarrow> 'z machine_scheme kres" where
  "uart_puts [] s = Inl Bounds"
| "uart_puts (c # cs) s = (if c \<noteq> 0 then uart_puts cs (uart_putc c s) else Inr s)"

function uart_putsn_loop ::
    "byte list \<Rightarrow> ulong \<Rightarrow> ulong \<Rightarrow> 'z machine_scheme \<Rightarrow> (ulong \<times> 'z machine_scheme) kres" where
  "uart_putsn_loop cs len written s =
     (if len = 0 then Inr (written, s)
      else case cs of
             [] \<Rightarrow> Inl Bounds
           | c # cs' \<Rightarrow> if c = 0 then Inr (written, s)
                       else uart_putsn_loop cs' (len - 1) (written + 1) (uart_putc c s))"
  by pat_completeness auto
termination
  by (relation "measure (\<lambda>(cs, len, written, s). length cs)") auto

definition uart_putsn :: "byte list \<Rightarrow> ulong \<Rightarrow> 'z machine_scheme \<Rightarrow> (ulong \<times> 'z machine_scheme) kres" where
  "uart_putsn cs len s = uart_putsn_loop cs len 0 s"

definition hex_digit :: "ulong \<Rightarrow> byte" where
  "hex_digit nibble = (if nibble < 10 then 48 + ucast nibble else 97 + ucast nibble - 10)"

fun uart_puthex_loop :: "nat \<Rightarrow> ulong \<Rightarrow> 'z machine_scheme \<Rightarrow> 'z machine_scheme" where
  "uart_puthex_loop 0 x s = s"
| "uart_puthex_loop (Suc i) x s =
     uart_puthex_loop i x (uart_putc (hex_digit (drop_bit (i * 4) x AND 0xf)) s)"

definition uart_puthex :: "ulong \<Rightarrow> 'z machine_scheme \<Rightarrow> 'z machine_scheme kres" where
  "uart_puthex x s = rbind (uart_puts [48, 120, 0] s) (\<lambda>s. Inr (uart_puthex_loop 16 x s))"

definition buf_set :: "byte list \<Rightarrow> int \<Rightarrow> byte \<Rightarrow> byte list kres" where
  "buf_set buf i c = (if 0 \<le> i \<and> i < int (length buf) then Inr (buf[nat i := c]) else Inl Bounds)"

function uart_putlong_loop :: "byte list \<Rightarrow> int \<Rightarrow> ulong \<Rightarrow> (byte list \<times> int) kres" where
  "uart_putlong_loop buf i val =
     (if val > 0 \<and> i \<ge> 0
      then rbind (buf_set buf i (48 + ucast (val mod 10)))
             (\<lambda>buf. uart_putlong_loop buf (i - 1) (val div 10))
      else Inr (buf, i))"
  by pat_completeness auto
termination
  by (relation "measure (\<lambda>(buf, i, val). nat (i + 1))") auto

definition uart_putlong :: "ulong \<Rightarrow> 'z machine_scheme \<Rightarrow> 'z machine_scheme kres" where
  "uart_putlong val s =
     (let buf = replicate 21 0; i = (20 :: int)
      in rbind (buf_set buf i 0) (\<lambda>buf.
         if val = 0 then Inr (uart_putc 48 s)
         else rbind (uart_putlong_loop buf (i - 1) val) (\<lambda>(buf, i).
              uart_puts (drop (nat (i + 1)) buf) s)))"

section \<open>Input\<close>

text \<open>The receive loop polls the line status register until a byte has arrived.\<close>

definition uart_getc :: "'z machine_scheme \<Rightarrow> (byte \<times> 'z machine_scheme) kres" where
  "uart_getc s = (case uart_in s of [] \<Rightarrow> Inl Blocked | c # cs \<Rightarrow> Inr (c, s\<lparr>uart_in := cs\<rparr>))"

function uart_gets_loop ::
    "byte list \<Rightarrow> int \<Rightarrow> int \<Rightarrow> 'z machine_scheme \<Rightarrow> (int \<times> byte list \<times> 'z machine_scheme) kres" where
  "uart_gets_loop buf maxlen i s =
     (if i < maxlen - 1
      then rbind (uart_getc s) (\<lambda>(c, s).
           let c = (if c = 13 then 10 else c);
               s = uart_putc c s
           in rbind (buf_set buf i c) (\<lambda>buf.
              if c = 10 then Inr (i + 1, buf, s)
              else uart_gets_loop buf maxlen (i + 1) s))
      else Inr (i, buf, s))"
  by pat_completeness auto
termination
  by (relation "measure (\<lambda>(buf, maxlen, i, s). nat (maxlen - i))") auto

definition uart_gets :: "byte list \<Rightarrow> int \<Rightarrow> 'z machine_scheme \<Rightarrow> (int \<times> byte list \<times> 'z machine_scheme) kres" where
  "uart_gets buf maxlen s =
     rbind (uart_gets_loop buf maxlen 0 s) (\<lambda>(i, buf, s).
     rbind (buf_set buf i 0) (\<lambda>buf. Inr (i, buf, s)))"

declare uart_putsn_loop.simps [simp del] uart_putlong_loop.simps [simp del]
  uart_gets_loop.simps [simp del]

section \<open>Strings\<close>

lemma uart_puts_cstring:
  "0 \<notin> set cs \<Longrightarrow> uart_puts (cs @ 0 # rest) s = Inr (s\<lparr>uart_out := uart_out s @ cs\<rparr>)"
  by (induction cs arbitrary: s) (auto simp: uart_putc_def)

lemma uart_putsn_loop_prefix:
  "unat len \<le> length cs \<Longrightarrow>
   uart_putsn_loop cs len w s =
     Inr (w + of_nat (length (takeWhile (\<lambda>c. c \<noteq> 0) (take (unat len) cs))),
          s\<lparr>uart_out := uart_out s @ takeWhile (\<lambda>c. c \<noteq> 0) (take (unat len) cs)\<rparr>)"
proof (induction cs arbitrary: len w s)
  case Nil
  then show ?case by (simp add: uart_putsn_loop.simps unat_eq_zero)
next
  case (Cons c cs)
  show ?case
  proof (cases "len = 0")
    case True
    then show ?thesis by (simp add: uart_putsn_loop.simps [of _ 0])
  next
    case False
    then have l: "unat len = Suc (unat (len - 1))" by (simp add: unat_minus_one unat_gt_0)
    with Cons.prems have "unat (len - 1) \<le> length cs" by simp
    from Cons.IH [OF this, of "w + 1" "uart_putc c s"] show ?thesis
      by (subst uart_putsn_loop.simps) (simp add: False l uart_putc_def algebra_simps)
  qed
qed

section \<open>Decimal numbers\<close>

text \<open>Decimal digits, least significant first, and the value of a digit string read from
  left to right.\<close>

fun dec_digits :: "nat \<Rightarrow> byte list" where
  "dec_digits n = (if n = 0 then [] else of_nat (48 + n mod 10) # dec_digits (n div 10))"

declare dec_digits.simps [simp del]

definition dec_value :: "byte list \<Rightarrow> nat" where
  "dec_value ds = foldl (\<lambda>v d. 10 * v + (unat d - 48)) 0 ds"

lemma dec_value_snoc [simp]: "dec_value (ds @ [d]) = 10 * dec_value ds + (unat d - 48)"
  by (simp add: dec_value_def)

lemma dec_value_Nil [simp]: "dec_value [] = 0"
  by (simp add: dec_value_def)

lemma unat_digit: "k < 10 \<Longrightarrow> unat (of_nat (48 + k) :: byte) = 48 + k"
  by (simp add: unat_of_nat del: of_nat_add)

lemma dec_value_digits: "dec_value (rev (dec_digits n)) = n"
proof (induction n rule: dec_digits.induct)
  case (1 n)
  show ?case
  proof (cases "n = 0")
    case False
    then show ?thesis using "1.IH"
      by (subst dec_digits.simps) (simp add: unat_digit del: of_nat_add)
  qed (simp add: dec_digits.simps)
qed

lemma dec_digits_nonzero: "0 \<notin> set (dec_digits n)"
proof (induction n rule: dec_digits.induct)
  case (1 n)
  have "(of_nat (48 + n mod 10) :: byte) \<noteq> 0"
    using unat_digit [of "n mod 10"] by (auto simp del: of_nat_add)
  with 1 show ?case by (subst dec_digits.simps) (simp del: of_nat_add)
qed

lemma dec_digits_length: "n < 10 ^ k \<Longrightarrow> length (dec_digits n) \<le> k"
proof (induction k arbitrary: n)
  case 0
  then show ?case by (simp add: dec_digits.simps)
next
  case (Suc k)
  then have "length (dec_digits (n div 10)) \<le> k" by (intro Suc.IH) (simp add: div_less_iff_less_mult)
  then show ?case by (subst dec_digits.simps) simp
qed

text \<open>The digit byte computed on words is the digit byte computed on numbers.\<close>

lemma ucast_digit: "(48 + ucast (v mod 10) :: byte) = of_nat (48 + unat v mod 10)" for v :: ulong
proof -
  have m: "unat (v mod 10) = unat v mod 10" by (simp add: unat_mod)
  have "(ucast (v mod 10) :: byte) = of_nat (unat (v mod 10))" by simp
  then show ?thesis by (simp add: m)
qed

lemma uart_putlong_loop_digits:
  "length (dec_digits (unat val)) \<le> nat (i + 1) \<Longrightarrow> i < int (length buf) \<Longrightarrow> -1 \<le> i \<Longrightarrow>
   \<exists>buf'. uart_putlong_loop buf i val = Inr (buf', i - int (length (dec_digits (unat val)))) \<and>
     length buf' = length buf \<and>
     drop (nat (i - int (length (dec_digits (unat val))) + 1)) buf' =
       rev (dec_digits (unat val)) @ drop (nat (i + 1)) buf"
proof (induction buf i val rule: uart_putlong_loop.induct)
  case (1 buf i val)
  show ?case
  proof (cases "val = 0")
    case True
    then show ?thesis by (simp add: uart_putlong_loop.simps dec_digits.simps)
  next
    case False
    let ?d = "48 + ucast (val mod 10) :: byte"
    let ?n = "int (length (dec_digits (unat (val div 10))))"
    have u: "unat (val div 10) = unat val div 10" by (simp add: unat_div)
    have dd: "dec_digits (unat val) = ?d # dec_digits (unat (val div 10))"
      using False by (subst dec_digits.simps) (simp add: ucast_digit u unat_eq_zero)
    then have i: "0 \<le> i" using "1.prems" by simp
    then have b: "buf_set buf i ?d = Inr (buf[nat i := ?d])" using "1.prems" by (simp add: buf_set_def)
    have g: "val > 0 \<and> i \<ge> 0" using False i by (simp add: word_greater_zero_iff)
    have fit: "length (dec_digits (unat (val div 10))) \<le> nat i"
      using "1.prems"(1) dd i by (simp add: nat_add_distrib)
    obtain buf' where buf': "uart_putlong_loop (buf[nat i := ?d]) (i - 1) (val div 10) =
          Inr (buf', i - 1 - ?n)" "length buf' = length buf"
        "drop (nat (i - 1 - ?n + 1)) buf' =
          rev (dec_digits (unat (val div 10))) @ drop (nat (i - 1 + 1)) (buf[nat i := ?d])"
      using "1.IH" [OF g b] "1.prems" fit i by auto
    have "drop (nat i) (buf[nat i := ?d]) = ?d # drop (nat (i + 1)) buf"
      using i "1.prems" by (simp add: Cons_nth_drop_Suc [symmetric] nat_add_distrib)
    with buf' g b dd show ?thesis
      by (subst uart_putlong_loop.simps) (auto simp: algebra_simps)
  qed
qed

lemma uart_putlong_prints:
  "\<exists>ds. uart_putlong val s = Inr (s\<lparr>uart_out := uart_out s @ ds\<rparr>) \<and> dec_value ds = unat val \<and>
     1 \<le> length ds \<and> length ds \<le> 20"
proof (cases "val = 0")
  case True
  then show ?thesis
    by (intro exI [of _ "[48]"]) (simp add: uart_putlong_def buf_set_def uart_putc_def dec_value_def)
next
  case False
  let ?ds = "rev (dec_digits (unat val))"
  have len: "length (dec_digits (unat val)) \<le> 20"
    by (rule dec_digits_length) (use unat_lt64 [of val] in simp)
  obtain buf' where b: "uart_putlong_loop ((replicate 21 0)[20 := 0]) 19 val =
        Inr (buf', 19 - int (length ?ds))"
      "drop (nat (19 - int (length ?ds) + 1)) buf' = ?ds @ drop 20 ((replicate 21 0)[20 := 0])"
    using uart_putlong_loop_digits [of val 19 "(replicate 21 0)[20 := 0]"] len by auto
  moreover have "drop 20 ((replicate 21 0)[20 := 0]) = [0 :: byte]" by (simp add: eval_nat_numeral)
  ultimately have "uart_putlong val s = Inr (s\<lparr>uart_out := uart_out s @ ?ds\<rparr>)"
    using False uart_puts_cstring [of ?ds "[]" s] dec_digits_nonzero [of "unat val"]
    by (simp add: uart_putlong_def Let_def buf_set_def)
  moreover have "1 \<le> length ?ds" using False by (subst dec_digits.simps) (simp add: unat_eq_zero)
  ultimately show ?thesis using len by (intro exI [of _ ?ds]) (simp add: dec_value_digits)
qed

end
