(* ===== verification/Kstring.thy ===== *)
theory Kstring
  imports Machine
begin

text \<open>
  \<^verbatim>\<open>string.c\<close>: \<open>memcpy\<close>, \<open>memset\<close>, \<open>strlen\<close>, \<open>strnlen\<close> over flat byte memory, with
  the counter widths of the source, and their use on RAM through the linear map.
\<close>

section \<open>Definitions\<close>

definition MAXLEN :: uint where "MAXLEN = 64"

function memcpy_loop :: "(ulong \<Rightarrow> byte) \<Rightarrow> ulong \<Rightarrow> ulong \<Rightarrow> ulong \<Rightarrow> (ulong \<Rightarrow> byte)" where
  "memcpy_loop m d s n =
     (if n = 0 then m else memcpy_loop (m(d := m s)) (d + 1) (s + 1) (n - 1))"
  by pat_completeness auto
termination
  by (relation "measure (\<lambda>(m, d, s, n). unat n)") (auto simp: unat_minus_one unat_gt_0)

definition memcpy :: "(ulong \<Rightarrow> byte) \<Rightarrow> ulong \<Rightarrow> ulong \<Rightarrow> ulong \<Rightarrow> ulong \<times> (ulong \<Rightarrow> byte)" where
  "memcpy m dest src n = (dest, memcpy_loop m dest src n)"

text \<open>The counter of \<open>memset\<close> is a 32-bit \<^verbatim>\<open>uint\<close>, its bound a 64-bit \<^verbatim>\<open>ulong\<close>.\<close>

partial_function (option) memset_loop ::
    "(ulong \<Rightarrow> byte) \<Rightarrow> ulong \<Rightarrow> uchar \<Rightarrow> uint \<Rightarrow> ulong \<Rightarrow> (ulong \<Rightarrow> byte) option" where
  "memset_loop m p c i n =
     (if ucast i < n then memset_loop (m(p + ucast i := c)) p c (i + 1) n else Some m)"

definition memset :: "(ulong \<Rightarrow> byte) \<Rightarrow> ulong \<Rightarrow> int \<Rightarrow> ulong \<Rightarrow> (ulong \<Rightarrow> byte) option" where
  "memset m dst c n = memset_loop m dst (word_of_int c) 0 n"

partial_function (option) strlen_loop :: "(ulong \<Rightarrow> byte) \<Rightarrow> ulong \<Rightarrow> ulong \<Rightarrow> ulong option" where
  "strlen_loop m s len = (if m s \<noteq> 0 then strlen_loop m (s + 1) (len + 1) else Some len)"

definition strlen :: "(ulong \<Rightarrow> byte) \<Rightarrow> ulong \<Rightarrow> ulong option" where
  "strlen m s = strlen_loop m s 0"

function strnlen_loop :: "(ulong \<Rightarrow> byte) \<Rightarrow> ulong \<Rightarrow> ulong \<Rightarrow> ulong \<Rightarrow> ulong" where
  "strnlen_loop m s maxlen len =
     (if len < maxlen \<and> m (s + len) \<noteq> 0 then strnlen_loop m s maxlen (len + 1) else len)"
  by pat_completeness auto
termination
proof (relation "measure (\<lambda>(m, s, maxlen, len). unat maxlen - unat len)", goal_cases)
  case (2 m s maxlen len)
  then have "unat len < unat maxlen" by (simp add: word_less_nat_alt)
  moreover from this have "unat (len + 1) = unat len + 1"
    using unat_lt64 [of maxlen] by (subst unat_add64) auto
  ultimately show ?case by simp
qed simp

definition strnlen :: "(ulong \<Rightarrow> byte) \<Rightarrow> ulong \<Rightarrow> ulong \<Rightarrow> ulong" where
  "strnlen m s maxlen = strnlen_loop m s maxlen 0"

declare memcpy_loop.simps [simp del] strnlen_loop.simps [simp del]

text \<open>\<open>memset\<close> and \<open>memcpy\<close> applied to kernel pointers: an access outside RAM faults.\<close>

definition kmemset :: "ulong \<Rightarrow> int \<Rightarrow> ulong \<Rightarrow> 'z machine_scheme \<Rightarrow> 'z machine_scheme kres" where
  "kmemset p c n s =
     (if n \<noteq> 0 \<and> \<not> ram_range s p (unat n) then Inl (Fault p)
      else case memset (m_mem s) (p - va_offset s) c n of
             None \<Rightarrow> Inl Diverge
           | Some m \<Rightarrow> Inr (s\<lparr>m_mem := m\<rparr>))"

definition kmemcpy :: "ulong \<Rightarrow> ulong \<Rightarrow> ulong \<Rightarrow> 'z machine_scheme \<Rightarrow> 'z machine_scheme kres" where
  "kmemcpy d p n s =
     (if n \<noteq> 0 \<and> \<not> (ram_range s d (unat n) \<and> ram_range s p (unat n)) then Inl (Fault d)
      else Inr (s\<lparr>m_mem := snd (memcpy (m_mem s) (d - va_offset s) (p - va_offset s) n)\<rparr>))"

section \<open>memset\<close>

definition fill :: "(ulong \<Rightarrow> byte) \<Rightarrow> ulong \<Rightarrow> byte \<Rightarrow> nat \<Rightarrow> (ulong \<Rightarrow> byte)" where
  "fill m p c n = (\<lambda>x. if unat (x - p) < n then c else m x)"

lemma fill_0 [simp]: "fill m p c 0 = m"
  by (simp add: fill_def)

lemma fill_Suc:
  assumes "k < 2 ^ 64"
  shows "(fill m p c k)(p + of_nat k := c) = fill m p c (Suc k)"
proof
  fix x
  show "((fill m p c k)(p + of_nat k := c)) x = fill m p c (Suc k) x"
  proof (cases "x = p + of_nat k")
    case True
    with assms show ?thesis by (simp add: fill_def unat_of_nat64)
  next
    case False
    have "unat (x - p) \<noteq> k"
    proof
      assume "unat (x - p) = k"
      then have "x - p = of_nat k" using assms by (simp add: word_unat_eq_iff unat_of_nat64)
      with False show False by (simp add: algebra_simps)
    qed
    with False show ?thesis by (simp add: fill_def less_Suc_eq)
  qed
qed

lemma memset_loop_fill:
  "k \<le> unat n \<Longrightarrow> unat n < 2 ^ 32 \<Longrightarrow>
   memset_loop (fill m p c k) p c (of_nat k) n = Some (fill m p c (unat n))"
proof (induction "unat n - k" arbitrary: k)
  case 0
  then have "k = unat n" by simp
  with 0 have "unat (ucast (of_nat k :: uint) :: ulong) = unat n"
    by (subst ucast_of_nat32_64) (simp_all add: unat_of_nat64)
  then have "\<not> ucast (of_nat k :: uint) < n" by (simp add: word_less_nat_alt)
  with \<open>k = unat n\<close> show ?case by (subst memset_loop.simps) simp
next
  case (Suc d)
  then have k: "k < unat n" by simp
  have u: "ucast (of_nat k :: uint) = (of_nat k :: ulong)"
    using Suc.prems k by (simp add: ucast_of_nat32_64)
  have "ucast (of_nat k :: uint) < n"
    using Suc.prems k by (simp add: u word_less_nat_alt unat_of_nat64)
  moreover have "of_nat k + 1 = (of_nat (Suc k) :: uint)" by simp
  moreover have "(fill m p c k)(p + ucast (of_nat k :: uint) := c) = fill m p c (Suc k)"
    unfolding u by (rule fill_Suc) (use Suc.prems k in simp)
  ultimately show ?case
    using Suc.hyps(1) [of "Suc k"] Suc.hyps(2) Suc.prems k
    by (subst memset_loop.simps) (simp del: of_nat_Suc)
qed

lemma memset_returns:
  "unat n < 2 ^ 32 \<Longrightarrow> memset m p c n = Some (fill m p (word_of_int c) (unat n))"
  using memset_loop_fill [of 0 n m p "word_of_int c"] by (simp add: memset_def)

lemma memset_loop_bound:
  assumes "memset_loop m p c i n = Some r"
  shows "unat n < 2 ^ 32"
proof (rule memset_loop.raw_induct [where P = "\<lambda>m p c i n r. unat n < 2 ^ 32", OF _ assms])
  fix f :: "(ulong \<Rightarrow> byte) \<Rightarrow> ulong \<Rightarrow> uchar \<Rightarrow> uint \<Rightarrow> ulong \<Rightarrow> (ulong \<Rightarrow> byte) option"
    and m p c i n r
  assume IH: "\<And>m p c i n r. f m p c i n = Some r \<Longrightarrow> unat n < 2 ^ 32"
    and eq: "(if ucast i < n then f (m(p + ucast i := c)) p c (i + 1) n else Some m) = Some r"
  show "unat n < 2 ^ 32"
  proof (cases "ucast i < n")
    case True
    with eq have "f (m(p + ucast i := c)) p c (i + 1) n = Some r" by simp
    then show ?thesis by (rule IH)
  next
    case False
    then have "unat n \<le> unat i" by (simp add: word_less_nat_alt)
    moreover have "unat i < 2 ^ 32" by (rule unat_lt32)
    ultimately show ?thesis by simp
  qed
qed

lemma memset_diverges: "2 ^ 32 \<le> unat n \<Longrightarrow> memset m p c n = None"
proof (rule ccontr)
  assume n: "2 ^ 32 \<le> unat n" and "memset m p c n \<noteq> None"
  then obtain r where "memset_loop m p (word_of_int c) 0 n = Some r" by (auto simp: memset_def)
  from memset_loop_bound [OF this] n show False by simp
qed

lemma kmemset_ok:
  "ram_range s p (unat n) \<Longrightarrow>
   kmemset p c n s = Inr (s\<lparr>m_mem := fill (m_mem s) (p - va_offset s) (word_of_int c) (unat n)\<rparr>)"
proof -
  assume r: "ram_range s p (unat n)"
  then have "unat n < 2 ^ 32" by (auto simp: ram_range_def Let_def USER_END_def)
  with r show ?thesis by (simp add: kmemset_def memset_returns)
qed

section \<open>memcpy\<close>

text \<open>With source and destination apart, the copy moves the source bytes and nothing else.\<close>

lemma memcpy_loop_put:
  "(\<And>i j. i < unat n \<Longrightarrow> j < unat n \<Longrightarrow> d + of_nat i \<noteq> s + of_nat j) \<Longrightarrow>
   memcpy_loop m d s n = put_bytes m d (get_bytes m s (unat n))"
proof (induction m d s n rule: memcpy_loop.induct)
  case (1 m d s n)
  show ?case
  proof (cases "n = 0")
    case True
    then show ?thesis by (simp add: memcpy_loop.simps)
  next
    case False
    then have n: "unat n = Suc (unat (n - 1))" by (simp add: unat_minus_one unat_gt_0)
    have ne: "d + of_nat i \<noteq> s + of_nat j" if "i < unat n" "j < unat n" for i j
      using "1.prems" that .
    have "d + 1 + of_nat i \<noteq> s + 1 + of_nat j" if "i < unat (n - 1)" "j < unat (n - 1)" for i j
      using ne [of i j] that n by simp
    then have IH: "memcpy_loop (m(d := m s)) (d + 1) (s + 1) (n - 1) =
        put_bytes (m(d := m s)) (d + 1) (get_bytes (m(d := m s)) (s + 1) (unat (n - 1)))"
      using "1.IH" [OF False] by blast
    have "get_bytes (m(d := m s)) (s + 1) (unat (n - 1)) = get_bytes m (s + 1) (unat (n - 1))"
    proof (rule get_bytes_cong)
      fix i assume "i < unat (n - 1)"
      then have "d \<noteq> s + of_nat (Suc i)" using ne [of 0 "Suc i"] n by simp
      then show "(m(d := m s)) (s + 1 + of_nat i) = m (s + 1 + of_nat i)"
        by (simp add: algebra_simps)
    qed
    with IH show ?thesis
      by (simp add: memcpy_loop.simps [of m d s n] False n)
  qed
qed

lemma memcpy_get_back:
  assumes "\<And>i j. i < unat n \<Longrightarrow> j < unat n \<Longrightarrow> d + of_nat i \<noteq> s + of_nat j"
  shows "get_bytes (snd (memcpy m d s n)) d (unat n) = get_bytes m s (unat n)"
  using get_put_bytes_same [of "get_bytes m s (unat n)" m d] memcpy_loop_put [OF assms] unat_lt64 [of n]
  by (simp add: memcpy_def)

section \<open>strlen and strnlen\<close>

lemma strlen_loop_count:
  "(\<And>i. i < k \<Longrightarrow> m (s + of_nat i) \<noteq> 0) \<Longrightarrow> m (s + of_nat k) = 0 \<Longrightarrow>
   strlen_loop m s len = Some (len + of_nat k)"
proof (induction k arbitrary: s len)
  case 0
  then show ?case by (subst strlen_loop.simps) simp
next
  case (Suc k)
  have "strlen_loop m (s + 1) (len + 1) = Some (len + 1 + of_nat k)"
  proof (rule Suc.IH)
    show "m (s + 1 + of_nat i) \<noteq> 0" if "i < k" for i
      using Suc.prems(1) [of "Suc i"] that by (simp add: algebra_simps)
    show "m (s + 1 + of_nat k) = 0" using Suc.prems(2) by (simp add: algebra_simps)
  qed
  moreover have "m s \<noteq> 0" using Suc.prems(1) [of 0] by simp
  ultimately show ?case by (subst strlen_loop.simps) (simp add: algebra_simps)
qed

lemma strlen_terminator:
  assumes "strlen_loop m s len = Some r"
  shows "\<exists>x. m x = 0"
proof (rule strlen_loop.raw_induct [where P = "\<lambda>m s len r. \<exists>x. m x = 0", OF _ assms])
  fix f :: "(ulong \<Rightarrow> byte) \<Rightarrow> ulong \<Rightarrow> ulong \<Rightarrow> ulong option" and m s len r
  assume IH: "\<And>m s len r. f m s len = Some r \<Longrightarrow> \<exists>x. m x = (0 :: byte)"
    and eq: "(if m s \<noteq> 0 then f m (s + 1) (len + 1) else Some len) = Some r"
  then show "\<exists>x. m x = 0" by (cases "m s = 0") auto
qed

lemma strnlen_loop_min:
  "unat len \<le> unat maxlen \<Longrightarrow>
   (\<forall>i < unat (strnlen_loop m s maxlen len). unat len \<le> i \<longrightarrow> m (s + of_nat i) \<noteq> 0) \<and>
   len \<le> strnlen_loop m s maxlen len \<and> strnlen_loop m s maxlen len \<le> maxlen \<and>
   (strnlen_loop m s maxlen len = maxlen \<or> m (s + strnlen_loop m s maxlen len) = 0)"
proof (induction m s maxlen len rule: strnlen_loop.induct)
  case (1 m s maxlen len)
  show ?case
  proof (cases "len < maxlen \<and> m (s + len) \<noteq> 0")
    case True
    then have lt: "unat len < unat maxlen" by (simp add: word_less_nat_alt)
    then have l1: "unat (len + 1) = unat len + 1"
      using unat_lt64 [of maxlen] by (subst unat_add64) auto
    let ?r = "strnlen_loop m s maxlen (len + 1)"
    have r: "strnlen_loop m s maxlen len = ?r"
      using True by (simp add: strnlen_loop.simps [of m s maxlen len])
    have IH: "(\<forall>i < unat ?r. unat (len + 1) \<le> i \<longrightarrow> m (s + of_nat i) \<noteq> 0) \<and>
        len + 1 \<le> ?r \<and> ?r \<le> maxlen \<and> (?r = maxlen \<or> m (s + ?r) = 0)"
      using "1.IH" [OF True] lt l1 by simp
    have "\<forall>i < unat ?r. unat len \<le> i \<longrightarrow> m (s + of_nat i) \<noteq> 0"
    proof (intro allI impI)
      fix i assume i: "i < unat ?r" "unat len \<le> i"
      show "m (s + of_nat i) \<noteq> 0"
      proof (cases "i = unat len")
        case True
        with \<open>len < maxlen \<and> m (s + len) \<noteq> 0\<close> show ?thesis by simp
      next
        case False
        with i l1 IH show ?thesis by auto
      qed
    qed
    moreover have "len \<le> ?r" using IH l1 by (simp add: word_le_nat_alt)
    ultimately show ?thesis using IH r by simp
  next
    case False
    then show ?thesis using "1.prems"
      by (auto simp: strnlen_loop.simps [of m s maxlen len] word_less_nat_alt word_le_nat_alt
          word_unat_eq_iff)
  qed
qed

end
