(* ===== verification/Spinlock.thy ===== *)
theory Spinlock
  imports Machine
begin

text \<open>
  \<^verbatim>\<open>spinlock.c\<close>: the three lock operations as seen by one hart, and a multi-hart step
  relation in which the harts interleave between the statements of \<open>spin_lock\<close> and
  \<open>spin_unlock\<close>. The invariant of the relation gives mutual exclusion, that interrupts are
  off while any lock is held, and that the underflow check of \<open>spin_unlock\<close> never fires.
\<close>

section \<open>The operations of one hart\<close>

text \<open>The common prologue of \<open>spin_lock\<close> and \<open>spin_trylock\<close>.\<close>

definition irq_save :: "hart \<Rightarrow> hart" where
  "irq_save c =
     (let c1 = (if lock_depth c = 0
                then c\<lparr>cpu_sstatus := csr_sstatus c,
                       csr_sstatus := clear_csr (csr_sstatus c) SSTATUS_SIE\<rparr>
                else c)
      in c1\<lparr>lock_depth := lock_depth c1 + 1\<rparr>)"

text \<open>
  The test-and-set loop: it ends at once when the word is clear. When it is set, the hart
  waits for another hart to clear it; with no other hart acting it waits forever.
\<close>

definition spin_lock :: "lock_id \<Rightarrow> 'z machine_scheme \<Rightarrow> 'z machine_scheme kres" where
  "spin_lock lock s =
     (let s1 = s\<lparr>m_hart := irq_save (m_hart s)\<rparr>
      in if m_locks s1 lock \<noteq> 0 then Inl (Spin lock)
         else Inr (s1\<lparr>m_locks := (m_locks s1)(lock := 1)\<rparr>))"

definition spin_trylock :: "lock_id \<Rightarrow> 'z machine_scheme \<Rightarrow> int \<times> 'z machine_scheme" where
  "spin_trylock lock s =
     (let s1 = s\<lparr>m_hart := irq_save (m_hart s)\<rparr>
      in if m_locks s1 lock = 0 then (1, s1\<lparr>m_locks := (m_locks s1)(lock := 1)\<rparr>)
         else (0, s1))"

definition irq_restore :: "hart \<Rightarrow> hart" where
  "irq_restore c = (if lock_depth c = 0 then c\<lparr>csr_sstatus := cpu_sstatus c\<rparr> else c)"

definition spin_unlock :: "lock_id \<Rightarrow> 'z machine_scheme \<Rightarrow> 'z machine_scheme kres" where
  "spin_unlock lock s =
     (let c = m_hart s
      in if lock_depth c = 0 then Inl (Halt H_spin_unlock)
         else let c1 = c\<lparr>lock_depth := lock_depth c - 1\<rparr>;
                  s1 = s\<lparr>m_hart := c1, m_locks := (m_locks s)(lock := 0)\<rparr>
              in Inr (s1\<lparr>m_hart := irq_restore c1\<rparr>))"

definition spinlock_init :: "lock_id \<Rightarrow> 'z machine_scheme \<Rightarrow> 'z machine_scheme" where
  "spinlock_init lock s = s\<lparr>m_locks := (m_locks s)(lock := 0)\<rparr>"

section \<open>Critical sections of one hart\<close>

text \<open>The hart after a balanced \<open>spin_lock\<close>/\<open>spin_unlock\<close> pair: only the saved copy of
  \<^verbatim>\<open>sstatus\<close> may differ.\<close>

definition settled :: "hart \<Rightarrow> hart" where
  "settled c = (if lock_depth c = 0 then c\<lparr>cpu_sstatus := csr_sstatus c\<rparr> else c)"

lemma settled_fields [simp]:
  "lock_depth (settled c) = lock_depth c" "csr_sstatus (settled c) = csr_sstatus c"
  "cpu_id (settled c) = cpu_id c"
  by (auto simp: settled_def)

lemma settled_idem [simp]: "settled (settled c) = settled c"
  by (simp add: settled_def)

lemma lock_depth_irq_save [simp]: "lock_depth (irq_save c) = lock_depth c + 1"
  by (simp add: irq_save_def Let_def)

lemma spin_lock_free:
  "m_locks s l = 0 \<Longrightarrow>
   spin_lock l s = Inr (s\<lparr>m_hart := irq_save (m_hart s), m_locks := (m_locks s)(l := 1)\<rparr>)"
  by (simp add: spin_lock_def Let_def)

lemma spin_lock_held: "m_locks s l \<noteq> 0 \<Longrightarrow> spin_lock l s = Inl (Spin l)"
  by (simp add: spin_lock_def Let_def)

lemma irq_restore_save:
  "lock_depth c + 1 \<noteq> 0 \<Longrightarrow>
   irq_restore ((irq_save c)\<lparr>lock_depth := lock_depth (irq_save c) - 1\<rparr>) = settled c"
  by (auto simp: irq_restore_def irq_save_def settled_def Let_def)

text \<open>Leaving a critical section whose body kept the hart as \<open>spin_lock\<close> left it.\<close>

lemma spin_unlock_after:
  "lock_depth c + 1 \<noteq> 0 \<Longrightarrow> m_hart s = irq_save c \<Longrightarrow>
   spin_unlock l s = Inr (s\<lparr>m_hart := settled c, m_locks := (m_locks s)(l := 0)\<rparr>)"
  using irq_restore_save [of c] by (simp add: spin_unlock_def Let_def)

lemma lock_unlock_roundtrip:
  assumes "m_locks s l = 0" and "lock_depth (m_hart s) + 1 \<noteq> 0"
  shows "rbind (spin_lock l s) (spin_unlock l) = Inr (s\<lparr>m_hart := settled (m_hart s)\<rparr>)"
proof -
  let ?s1 = "s\<lparr>m_hart := irq_save (m_hart s), m_locks := (m_locks s)(l := 1)\<rparr>"
  have "spin_unlock l ?s1 =
      Inr (?s1\<lparr>m_hart := settled (m_hart s), m_locks := (m_locks ?s1)(l := 0)\<rparr>)"
    by (rule spin_unlock_after [OF assms(2)]) simp
  moreover have "(m_locks s)(l := 0) = m_locks s" using assms(1) by auto
  ultimately show ?thesis using assms(1) by (simp add: spin_lock_free)
qed

section \<open>Interleaved harts\<close>

datatype lock_pc = Running | Trying lock_id | Leaving

record smp =
  harts :: "nat \<Rightarrow> hart"
  lock_words :: "lock_id \<Rightarrow> uint"
  pc :: "nat \<Rightarrow> lock_pc"
  held :: "nat \<Rightarrow> lock_id list"

text \<open>The locks that exist: the two global ones and one per size class.\<close>

definition valid_lock :: "lock_id \<Rightarrow> bool" where
  "valid_lock l \<longleftrightarrow> (case l of CacheLock i \<Rightarrow> i < 9 | _ \<Rightarrow> True)"

text \<open>
  One step of one hart. \<open>held\<close> records which locks the hart has taken; a hart releases only
  locks it holds, which is how every call site of the kernel uses \<open>spin_unlock\<close>. While it
  is outside every critical section a hart may change its \<^verbatim>\<open>sstatus\<close> at will.
\<close>

inductive lock_step :: "smp \<Rightarrow> smp \<Rightarrow> bool" where
  enter: "\<lbrakk>pc g h = Running; valid_lock l; l \<notin> set (held g h)\<rbrakk> \<Longrightarrow>
    lock_step g (g\<lparr>harts := (harts g)(h := irq_save (harts g h)), pc := (pc g)(h := Trying l)\<rparr>)"
| spin: "\<lbrakk>pc g h = Trying l; lock_words g l \<noteq> 0\<rbrakk> \<Longrightarrow> lock_step g g"
| acquire: "\<lbrakk>pc g h = Trying l; lock_words g l = 0\<rbrakk> \<Longrightarrow>
    lock_step g (g\<lparr>lock_words := (lock_words g)(l := 1), pc := (pc g)(h := Running),
                   held := (held g)(h := l # held g h)\<rparr>)"
| leave: "\<lbrakk>pc g h = Running; l \<in> set (held g h)\<rbrakk> \<Longrightarrow>
    lock_step g (g\<lparr>harts := (harts g)(h := (harts g h)\<lparr>lock_depth := lock_depth (harts g h) - 1\<rparr>),
                   lock_words := (lock_words g)(l := 0), pc := (pc g)(h := Leaving),
                   held := (held g)(h := remove1 l (held g h))\<rparr>)"
| restore: "pc g h = Leaving \<Longrightarrow>
    lock_step g (g\<lparr>harts := (harts g)(h := irq_restore (harts g h)), pc := (pc g)(h := Running)\<rparr>)"
| other: "\<lbrakk>pc g h = Running; held g h = []\<rbrakk> \<Longrightarrow>
    lock_step g (g\<lparr>harts := (harts g)(h := (harts g h)\<lparr>csr_sstatus := v\<rparr>)\<rparr>)"

inductive lock_reachable :: "smp \<Rightarrow> bool" where
  start: "\<lbrakk>\<And>h. lock_depth (harts g h) = 0; \<And>l. lock_words g l = 0; \<And>h. pc g h = Running;
           \<And>h. held g h = []\<rbrakk> \<Longrightarrow> lock_reachable g"
| step: "\<lbrakk>lock_reachable g; lock_step g g'\<rbrakk> \<Longrightarrow> lock_reachable g'"

definition pending :: "lock_pc \<Rightarrow> nat" where
  "pending p = (case p of Trying l \<Rightarrow> 1 | _ \<Rightarrow> 0)"

lemma pending_simps [simp]:
  "pending Running = 0" "pending (Trying l) = 1" "pending Leaving = 0"
  by (simp_all add: pending_def)

definition hart_inv :: "hart \<Rightarrow> lock_pc \<Rightarrow> lock_id list \<Rightarrow> bool" where
  "hart_inv c p ls \<longleftrightarrow>
     distinct ls \<and> (\<forall>l \<in> set ls. valid_lock l) \<and>
     (\<forall>l. p = Trying l \<longrightarrow> valid_lock l \<and> l \<notin> set ls) \<and>
     unat (lock_depth c) = length ls + pending p \<and>
     (lock_depth c \<noteq> 0 \<or> p = Leaving \<longrightarrow> csr_sstatus c = clear_csr (cpu_sstatus c) SSTATUS_SIE)"

definition lock_inv :: "smp \<Rightarrow> bool" where
  "lock_inv g \<longleftrightarrow>
     (\<forall>h. hart_inv (harts g h) (pc g h) (held g h)) \<and>
     (\<forall>l. lock_words g l \<noteq> 0 \<longleftrightarrow> (\<exists>h. l \<in> set (held g h))) \<and>
     (\<forall>h k l. l \<in> set (held g h) \<longrightarrow> l \<in> set (held g k) \<longrightarrow> h = k)"

text \<open>At most 11 locks can be nested, so the depth counter never wraps.\<close>

lemma valid_locks_subset: "{l. valid_lock l} \<subseteq> {UartLock, BuddyLock} \<union> CacheLock ` {..<9}"
proof
  fix l assume "l \<in> {l. valid_lock l}"
  then show "l \<in> {UartLock, BuddyLock} \<union> CacheLock ` {..<9}"
    by (cases l) (auto simp: valid_lock_def)
qed

lemma valid_locks_length:
  assumes "distinct ls" and "\<forall>l \<in> set ls. valid_lock l"
  shows "length ls \<le> 11"
proof -
  have "set ls \<subseteq> {UartLock, BuddyLock} \<union> CacheLock ` {..<9}"
    using assms(2) valid_locks_subset by blast
  then have "card (set ls) \<le> card ({UartLock, BuddyLock} \<union> CacheLock ` {..<9})"
    by (intro card_mono) auto
  also have "\<dots> \<le> card {UartLock, BuddyLock} + card (CacheLock ` {..<9})" by (rule card_Un_le)
  also have "\<dots> \<le> 11" using card_image_le [of "{..<9}" CacheLock] by simp
  finally show ?thesis using assms(1) by (simp add: distinct_card)
qed

lemma irq_save_inv:
  assumes inv: "hart_inv c Running ls" and l: "valid_lock l" "l \<notin> set ls"
  shows "hart_inv (irq_save c) (Trying l) ls"
proof -
  have len: "length ls \<le> 11" using inv by (auto simp: hart_inv_def intro: valid_locks_length)
  then have "unat (lock_depth c) \<le> 11" using inv by (simp add: hart_inv_def)
  then have "unat (lock_depth c + 1) = unat (lock_depth c) + 1"
    by (simp add: unat_plus_if')
  moreover have "csr_sstatus (irq_save c) = clear_csr (cpu_sstatus (irq_save c)) SSTATUS_SIE"
    using inv by (auto simp: irq_save_def hart_inv_def Let_def)
  ultimately show ?thesis using inv l by (simp add: hart_inv_def)
qed

lemma leave_inv:
  assumes inv: "hart_inv c Running ls" and l: "l \<in> set ls"
  shows "hart_inv (c\<lparr>lock_depth := lock_depth c - 1\<rparr>) Leaving (remove1 l ls)"
proof -
  have d: "unat (lock_depth c) = length ls" "0 < length ls"
    using inv l by (auto simp: hart_inv_def)
  then have "lock_depth c \<noteq> 0" by auto
  moreover from this have "unat (lock_depth c - 1) = length (remove1 l ls)"
    using d l by (simp add: unat_minus_one length_remove1)
  ultimately show ?thesis using inv by (auto simp: hart_inv_def dest: notin_set_remove1)
qed

lemma restore_inv: "hart_inv c Leaving ls \<Longrightarrow> hart_inv (irq_restore c) Running ls"
  by (auto simp: hart_inv_def irq_restore_def)

lemma lock_inv_hartD: "lock_inv g \<Longrightarrow> hart_inv (harts g h) (pc g h) (held g h)"
  by (simp add: lock_inv_def)

lemma lock_inv_wordD: "lock_inv g \<Longrightarrow> lock_words g l \<noteq> 0 \<longleftrightarrow> (\<exists>h. l \<in> set (held g h))"
  by (simp add: lock_inv_def)

lemma lock_inv_uniqueD:
  "lock_inv g \<Longrightarrow> l \<in> set (held g h) \<Longrightarrow> l \<in> set (held g k) \<Longrightarrow> h = k"
  by (simp add: lock_inv_def)

text \<open>A step that changes one hart and leaves the locks alone.\<close>

lemma lock_inv_hart_upd:
  "lock_inv g \<Longrightarrow> hart_inv c p (held g h) \<Longrightarrow>
   lock_inv (g\<lparr>harts := (harts g)(h := c), pc := (pc g)(h := p)\<rparr>)"
  by (simp add: lock_inv_def)

lemma ex_held_cons:
  "(\<exists>j. k \<in> set ((H(h := l # H h)) j)) \<longleftrightarrow> k = l \<or> (\<exists>j. k \<in> set (H j))"
  by (metis fun_upd_other fun_upd_same list.set_intros set_ConsD)

lemma ex_held_remove1:
  assumes "distinct (H h)" and "\<And>j. l \<in> set (H j) \<Longrightarrow> j = h"
  shows "(\<exists>j. k \<in> set ((H(h := remove1 l (H h))) j)) \<longleftrightarrow> k \<noteq> l \<and> (\<exists>j. k \<in> set (H j))"
proof -
  have "k \<in> set ((H(h := remove1 l (H h))) j) \<longleftrightarrow> k \<in> set (H j) \<and> k \<noteq> l" for j
    using assms by (auto simp: set_remove1_eq)
  then show ?thesis by auto
qed

lemma held_consD:
  "k \<in> set ((H(h := l # H h)) j) \<Longrightarrow> k \<in> set (H j) \<or> k = l \<and> j = h"
  by (cases "j = h") auto

lemma held_remove1D: "k \<in> set ((H(h := remove1 l (H h))) j) \<Longrightarrow> k \<in> set (H j)"
  using set_remove1_subset [of l "H h"] by (cases "j = h") auto

lemma lock_invI:
  "\<lbrakk>\<And>h. hart_inv (harts g h) (pc g h) (held g h);
    \<And>l. lock_words g l \<noteq> 0 \<longleftrightarrow> (\<exists>h. l \<in> set (held g h));
    \<And>h k l. l \<in> set (held g h) \<Longrightarrow> l \<in> set (held g k) \<Longrightarrow> h = k\<rbrakk> \<Longrightarrow> lock_inv g"
  unfolding lock_inv_def by blast

lemma lock_inv_acquire:
  assumes inv: "lock_inv g" and p: "pc g h = Trying l" and w: "lock_words g l = 0"
  shows "lock_inv (g\<lparr>lock_words := (lock_words g)(l := 1), pc := (pc g)(h := Running),
                     held := (held g)(h := l # held g h)\<rparr>)"
proof -
  let ?H = "(held g)(h := l # held g h)"
  have free: "l \<notin> set (held g k)" for k
    using lock_inv_wordD [OF inv, of l] w by blast
  have "hart_inv (harts g h) Running (l # held g h)"
    using lock_inv_hartD [OF inv, of h] p by (auto simp: hart_inv_def)
  then have harts: "hart_inv (harts g k) (((pc g)(h := Running)) k) (?H k)" for k
    using lock_inv_hartD [OF inv, of k] by simp
  have "((lock_words g)(l := 1)) k \<noteq> 0 \<longleftrightarrow> k = l \<or> lock_words g k \<noteq> 0" for k by simp
  then have words: "((lock_words g)(l := 1)) k \<noteq> 0 \<longleftrightarrow> (\<exists>j. k \<in> set (?H j))" for k
    by (simp only: ex_held_cons lock_inv_wordD [OF inv])
  have uniq: "i = j" if "k \<in> set (?H i)" and "k \<in> set (?H j)" for i j k
    using held_consD [OF that(1)] held_consD [OF that(2)] free lock_inv_uniqueD [OF inv, of k i j]
    by (elim disjE) auto
  show ?thesis
    by (rule lock_invI) (use harts words uniq in \<open>simp_all del: fun_upd_apply\<close>)
qed

lemma lock_inv_leave:
  assumes inv: "lock_inv g" and p: "pc g h = Running" and l: "l \<in> set (held g h)"
  shows "lock_inv (g\<lparr>harts := (harts g)(h := (harts g h)\<lparr>lock_depth := lock_depth (harts g h) - 1\<rparr>),
                     lock_words := (lock_words g)(l := 0), pc := (pc g)(h := Leaving),
                     held := (held g)(h := remove1 l (held g h))\<rparr>)"
proof -
  let ?H = "(held g)(h := remove1 l (held g h))"
  let ?C = "(harts g)(h := (harts g h)\<lparr>lock_depth := lock_depth (harts g h) - 1\<rparr>)"
  have hi: "hart_inv (harts g h) Running (held g h)" using lock_inv_hartD [OF inv, of h] p by simp
  then have dist: "distinct (held g h)" by (simp add: hart_inv_def)
  have only: "l \<in> set (held g k) \<Longrightarrow> k = h" for k
    using lock_inv_uniqueD [OF inv _ l] by blast
  have harts: "hart_inv (?C k) (((pc g)(h := Leaving)) k) (?H k)" for k
    using leave_inv [OF hi l] lock_inv_hartD [OF inv, of k] by simp
  have "((lock_words g)(l := 0)) k \<noteq> 0 \<longleftrightarrow> k \<noteq> l \<and> lock_words g k \<noteq> 0" for k by simp
  moreover have "(\<exists>j. k \<in> set (?H j)) \<longleftrightarrow> k \<noteq> l \<and> (\<exists>j. k \<in> set (held g j))" for k
    by (rule ex_held_remove1) (use dist only in blast)+
  ultimately have words: "((lock_words g)(l := 0)) k \<noteq> 0 \<longleftrightarrow> (\<exists>j. k \<in> set (?H j))" for k
    by (simp only: lock_inv_wordD [OF inv])
  have uniq: "i = j" if "k \<in> set (?H i)" and "k \<in> set (?H j)" for i j k
    using held_remove1D [OF that(1)] held_remove1D [OF that(2)] by (rule lock_inv_uniqueD [OF inv])
  show ?thesis
    by (rule lock_invI) (use harts words uniq in \<open>simp_all del: fun_upd_apply\<close>)
qed

lemma lock_step_inv: "lock_step g g' \<Longrightarrow> lock_inv g \<Longrightarrow> lock_inv g'"
proof (induction rule: lock_step.induct)
  case (enter g h l)
  then show ?case
    using irq_save_inv lock_inv_hartD [of g h] by (intro lock_inv_hart_upd) auto
next
  case (restore g h)
  then show ?case
    using restore_inv lock_inv_hartD [of g h] by (intro lock_inv_hart_upd) auto
next
  case (other g h v)
  have "hart_inv ((harts g h)\<lparr>csr_sstatus := v\<rparr>) Running (held g h)"
    using lock_inv_hartD [OF other.prems, of h] other.hyps
    by (auto simp: hart_inv_def unat_eq_zero)
  then have "lock_inv (g\<lparr>harts := (harts g)(h := (harts g h)\<lparr>csr_sstatus := v\<rparr>), pc := (pc g)(h := Running)\<rparr>)"
    using other.prems by (rule lock_inv_hart_upd [rotated])
  moreover have "(pc g)(h := Running) = pc g" using other.hyps by auto
  ultimately show ?case by simp
qed (auto intro: lock_inv_acquire lock_inv_leave)

lemma lock_reachable_inv: "lock_reachable g \<Longrightarrow> lock_inv g"
proof (induction rule: lock_reachable.induct)
  case (start g)
  then show ?case by (simp add: lock_inv_def hart_inv_def)
next
  case (step g g')
  then show ?case by (blast intro: lock_step_inv)
qed

text \<open>The sequential operations are runs of the interleaved relation in which the other
  harts do not move.\<close>

definition hart_view :: "smp \<Rightarrow> nat \<Rightarrow> 'z machine_scheme \<Rightarrow> bool" where
  "hart_view g h s \<longleftrightarrow> harts g h = m_hart s \<and> lock_words g = m_locks s \<and> pc g h = Running"

lemma spin_lock_simulated:
  assumes v: "hart_view g h s" and l: "valid_lock l" "l \<notin> set (held g h)"
    and ret: "spin_lock l s = Inr s'"
  shows "\<exists>g'. lock_step\<^sup>*\<^sup>* g g' \<and> hart_view g' h s' \<and> held g' h = l # held g h"
proof -
  let ?g1 = "g\<lparr>harts := (harts g)(h := irq_save (harts g h)), pc := (pc g)(h := Trying l)\<rparr>"
  let ?g2 = "?g1\<lparr>lock_words := (lock_words ?g1)(l := 1), pc := (pc ?g1)(h := Running),
                 held := (held ?g1)(h := l # held ?g1 h)\<rparr>"
  have free: "lock_words g l = 0" and s': "s' = s\<lparr>m_hart := irq_save (m_hart s),
      m_locks := (m_locks s)(l := 1)\<rparr>"
    using v ret by (auto simp: hart_view_def spin_lock_def Let_def split: if_splits)
  have "lock_step g ?g1" using v l by (intro lock_step.enter) (auto simp: hart_view_def)
  moreover have "lock_step ?g1 ?g2" by (rule lock_step.acquire) (simp_all add: free)
  ultimately have "lock_step\<^sup>*\<^sup>* g ?g2" by (meson converse_rtranclp_into_rtranclp rtranclp.rtrancl_refl)
  moreover have "hart_view ?g2 h s'" using v by (simp add: hart_view_def s')
  ultimately show ?thesis by (intro exI [of _ ?g2]) simp
qed

lemma spin_unlock_simulated:
  assumes v: "hart_view g h s" and l: "l \<in> set (held g h)" and inv: "lock_inv g"
  shows "\<exists>g' s'. spin_unlock l s = Inr s' \<and> lock_step\<^sup>*\<^sup>* g g' \<and> hart_view g' h s' \<and>
           held g' h = remove1 l (held g h)"
proof -
  let ?g1 = "g\<lparr>harts := (harts g)(h := (harts g h)\<lparr>lock_depth := lock_depth (harts g h) - 1\<rparr>),
      lock_words := (lock_words g)(l := 0), pc := (pc g)(h := Leaving),
      held := (held g)(h := remove1 l (held g h))\<rparr>"
  let ?g2 = "?g1\<lparr>harts := (harts ?g1)(h := irq_restore (harts ?g1 h)), pc := (pc ?g1)(h := Running)\<rparr>"
  have "unat (lock_depth (harts g h)) \<noteq> 0"
    using lock_inv_hartD [OF inv, of h] l by (auto simp: hart_inv_def)
  then have "lock_depth (m_hart s) \<noteq> 0" using v by (auto simp: hart_view_def)
  then obtain s' where s': "spin_unlock l s = Inr s'" and
    s'_eq: "s' = s\<lparr>m_hart := irq_restore ((m_hart s)\<lparr>lock_depth := lock_depth (m_hart s) - 1\<rparr>),
      m_locks := (m_locks s)(l := 0)\<rparr>"
    by (simp add: spin_unlock_def Let_def)
  have "lock_step g ?g1" using v l by (intro lock_step.leave) (auto simp: hart_view_def)
  moreover have "lock_step ?g1 ?g2" by (rule lock_step.restore) simp
  ultimately have "lock_step\<^sup>*\<^sup>* g ?g2" by (meson converse_rtranclp_into_rtranclp rtranclp.rtrancl_refl)
  moreover have "hart_view ?g2 h s'" using v by (simp add: hart_view_def s'_eq)
  ultimately show ?thesis using s' by (intro exI [of _ ?g2] exI [of _ s']) simp
qed

end
