(* ===== verification/Buddy.thy ===== *)
theory Buddy
  imports Kstring Spinlock
begin

text \<open>
  \<^verbatim>\<open>mm/mem.c\<close>: the buddy page allocator. The globals of the file are the fields of the
  record \<open>buddy\<close>; \<^verbatim>\<open>page_t *\<close> values are addresses, and dereferencing one goes through
  \<open>page_slot\<close>, which faults unless the address, taken back through the linear map, is that
  of an element of \<^verbatim>\<open>page_array\<close>.
\<close>

section \<open>Data\<close>

record page_t =
  pg_order :: uchar
  pg_is_free :: uchar
  pg_next :: ulong

definition sizeof_page_t :: ulong where "sizeof_page_t = 16"

record buddy = machine +
  num_pages :: ulong
  page_array :: ulong
  pages :: "page_t list"
  free_lists :: "ulong list"
  buddy_base_phys :: ulong
  kernel_pagetable :: ulong

definition page_zero :: page_t where
  "page_zero = \<lparr>pg_order = 0, pg_is_free = 0, pg_next = 0\<rparr>"

text \<open>The element of \<^verbatim>\<open>page_array\<close> a run-time pointer denotes.\<close>

definition page_slot :: "'z buddy_scheme \<Rightarrow> ulong \<Rightarrow> nat kres" where
  "page_slot s p =
     (let off = p - va_offset s - page_array s
      in if off mod sizeof_page_t = 0 \<and> unat (off div sizeof_page_t) < length (pages s)
         then Inr (unat (off div sizeof_page_t)) else Inl (Fault p))"

definition page_upd :: "(page_t \<Rightarrow> page_t) \<Rightarrow> nat \<Rightarrow> 'z buddy_scheme \<Rightarrow> 'z buddy_scheme" where
  "page_upd f i s = s\<lparr>pages := (pages s)[i := f (pages s ! i)]\<rparr>"

definition fl_get :: "'z buddy_scheme \<Rightarrow> int \<Rightarrow> ulong kres" where
  "fl_get s ord =
     (if 0 \<le> ord \<and> ord < int (length (free_lists s)) then Inr (free_lists s ! nat ord) else Inl Bounds)"

definition fl_set :: "int \<Rightarrow> ulong \<Rightarrow> 'z buddy_scheme \<Rightarrow> 'z buddy_scheme kres" where
  "fl_set ord p s =
     (if 0 \<le> ord \<and> ord < int (length (free_lists s))
      then Inr (s\<lparr>free_lists := (free_lists s)[nat ord := p]\<rparr>) else Inl Bounds)"

section \<open>Address helpers\<close>

definition get_page_struct :: "'z buddy_scheme \<Rightarrow> ulong \<Rightarrow> ulong kres" where
  "get_page_struct s pa =
     (let idx = (pa - buddy_base_phys s) div PAGE_SIZE
      in if num_pages s \<le> idx then Inl (Halt H_get_page_struct)
         else Inr (page_array s + idx * sizeof_page_t))"

definition page_addr :: "'z buddy_scheme \<Rightarrow> ulong \<Rightarrow> ulong kres" where
  "page_addr s idx =
     (if num_pages s \<le> idx then Inl (Halt H_page_addr)
      else Inr (buddy_base_phys s + idx * PAGE_SIZE))"

definition buddy_of :: "'z buddy_scheme \<Rightarrow> ulong \<Rightarrow> int \<Rightarrow> ulong" where
  "buddy_of s addr ord =
     (let block = addr - buddy_base_phys s;
          sz = push_bit (nat ord) PAGE_SIZE;
          buddy = block XOR sz
      in buddy + buddy_base_phys s)"

text \<open>The C pointer difference \<^verbatim>\<open>block - page_array\<close>, converted to \<^verbatim>\<open>int\<close>.\<close>

definition page_index :: "'z buddy_scheme \<Rightarrow> ulong \<Rightarrow> uint" where
  "page_index s p = word_of_int (sint (p - page_array s) div 16)"

section \<open>Allocation\<close>

text \<open>The inner \<^verbatim>\<open>for\<close> of \<open>alloc_pages\<close>: return the upper halves to the free lists.\<close>

function split_blocks :: "uint \<Rightarrow> int \<Rightarrow> int \<Rightarrow> 'z buddy_scheme \<Rightarrow> 'z buddy_scheme kres" where
  "split_blocks block_idx cur ord s =
     (if ord < cur
      then let buddy_idx = block_idx + push_bit (nat (cur - 1)) 1
           in if num_pages s \<le> ucast buddy_idx then Inl (Halt H_buddy_idx)
              else let buddy = PHYS_TO_VIRT s (page_array s + ucast buddy_idx * sizeof_page_t)
                   in rbind (page_slot s buddy) (\<lambda>i.
                      rbind (fl_get s (cur - 1)) (\<lambda>nxt.
                      rbind (fl_set (cur - 1) (VIRT_TO_PHYS s buddy)
                               (page_upd (\<lambda>p. p\<lparr>pg_order := word_of_int (cur - 1), pg_is_free := 1,
                                                pg_next := nxt\<rparr>) i s)) (\<lambda>s.
                      split_blocks block_idx (cur - 1) ord s)))
      else Inr s)"
  by pat_completeness auto
termination
  by (relation "measure (\<lambda>(b, cur, ord, s). nat (cur - ord))") auto

text \<open>The body of the outer \<^verbatim>\<open>for\<close>, for the first order with a free block.\<close>

definition alloc_block :: "int \<Rightarrow> int \<Rightarrow> ulong \<Rightarrow> 'z buddy_scheme \<Rightarrow> (ulong \<times> 'z buddy_scheme) kres" where
  "alloc_block ord ord' block s =
     rbind (page_slot s (PHYS_TO_VIRT s block)) (\<lambda>i.
     let s = page_upd (\<lambda>p. p\<lparr>pg_order := word_of_int ord, pg_is_free := 0\<rparr>) i s
     in rbind (fl_set ord' (pg_next (pages s ! i)) s) (\<lambda>s.
     let block_idx = page_index s block
     in rbind (split_blocks block_idx ord' ord s) (\<lambda>s.
        rbind (page_addr s (scast block_idx)) (\<lambda>addr.
        rbind (spin_unlock BuddyLock s) (\<lambda>s.
        rbind (kmemset (PHYS_TO_VIRT s addr) 0 (push_bit (nat ord) PAGE_SIZE) s) (\<lambda>s.
        Inr (addr, s)))))))"

function alloc_pages_for :: "int \<Rightarrow> int \<Rightarrow> 'z buddy_scheme \<Rightarrow> (ulong \<times> 'z buddy_scheme) kres" where
  "alloc_pages_for ord ord' s =
     (if ord' \<le> MAX_ORDER
      then rbind (fl_get s ord') (\<lambda>block.
           if block = 0 then alloc_pages_for ord (ord' + 1) s else alloc_block ord ord' block s)
      else rbind (spin_unlock BuddyLock s) (\<lambda>s. Inr (0, s)))"
  by pat_completeness auto
termination
  by (relation "measure (\<lambda>(ord, ord', s). nat (MAX_ORDER + 1 - ord'))") auto

definition alloc_pages :: "int \<Rightarrow> 'z buddy_scheme \<Rightarrow> (ulong \<times> 'z buddy_scheme) kres" where
  "alloc_pages ord s =
     (if MAX_ORDER < ord then Inr (0, s)
      else rbind (spin_lock BuddyLock s) (\<lambda>s. alloc_pages_for ord ord s))"

definition alloc_page :: "'z buddy_scheme \<Rightarrow> (ulong \<times> 'z buddy_scheme) kres" where
  "alloc_page s = alloc_pages 0 s"

section \<open>Release\<close>

text \<open>A \<^verbatim>\<open>page_t **\<close>: the head of a free list or the \<open>next\<close> field of a page structure.\<close>

datatype link = LHead int | LNext nat

fun link_get :: "'z buddy_scheme \<Rightarrow> link \<Rightarrow> ulong kres" where
  "link_get s (LHead ord) = fl_get s ord"
| "link_get s (LNext i) = Inr (pg_next (pages s ! i))"

fun link_set :: "link \<Rightarrow> ulong \<Rightarrow> 'z buddy_scheme \<Rightarrow> 'z buddy_scheme kres" where
  "link_set (LHead ord) v s = fl_set ord v s"
| "link_set (LNext i) v s = Inr (page_upd (\<lambda>p. p\<lparr>pg_next := v\<rparr>) i s)"

text \<open>The search loop \<^verbatim>\<open>while (*p && *p != buddy) p = &(*p)->next\<close>. The lists it walks have
  fewer nodes than \<^verbatim>\<open>page_array\<close> has elements, so a search that visits more links than
  that is in a cycle and never ends.\<close>

fun find_link :: "nat \<Rightarrow> 'z buddy_scheme \<Rightarrow> link \<Rightarrow> ulong \<Rightarrow> link kres" where
  "find_link 0 s p buddy = Inl Diverge"
| "find_link (Suc fuel) s p buddy =
     rbind (link_get s p) (\<lambda>v.
     if v \<noteq> 0 \<and> v \<noteq> buddy then rbind (page_slot s v) (\<lambda>i. find_link fuel s (LNext i) buddy)
     else Inr p)"

definition unlink_buddy :: "int \<Rightarrow> ulong \<Rightarrow> nat \<Rightarrow> 'z buddy_scheme \<Rightarrow> 'z buddy_scheme kres" where
  "unlink_buddy ord buddy b s =
     rbind (find_link (length (pages s) + 2) s (LHead ord) buddy) (\<lambda>p.
     rbind (link_get s p) (\<lambda>v.
     if v = buddy then link_set p (pg_next (pages s ! b)) s else Inr s))"

function merge_buddies :: "int \<Rightarrow> ulong \<Rightarrow> 'z buddy_scheme \<Rightarrow> (int \<times> ulong \<times> 'z buddy_scheme) kres" where
  "merge_buddies ord addr s =
     (if ord < MAX_ORDER
      then let buddy_addr = buddy_of s addr ord
           in rbind (get_page_struct s buddy_addr) (\<lambda>buddy.
              rbind (page_slot s buddy) (\<lambda>b.
              if pg_is_free (pages s ! b) = 0 \<or> uint (pg_order (pages s ! b)) \<noteq> ord
              then Inr (ord, addr, s)
              else rbind (unlink_buddy ord buddy b s) (\<lambda>s.
                   merge_buddies (ord + 1) (if buddy_addr < addr then buddy_addr else addr)
                     (page_upd (\<lambda>p. p\<lparr>pg_is_free := 0\<rparr>) b s))))
      else Inr (ord, addr, s))"
  by pat_completeness auto
termination
  by (relation "measure (\<lambda>(ord, addr, s). nat (MAX_ORDER - ord))") auto

definition push_free :: "int \<Rightarrow> ulong \<Rightarrow> 'z buddy_scheme \<Rightarrow> 'z buddy_scheme kres" where
  "push_free ord addr s =
     rbind (get_page_struct s addr) (\<lambda>pg.
     rbind (page_slot s pg) (\<lambda>i.
     rbind (fl_get s ord) (\<lambda>nxt.
     fl_set ord pg
       (page_upd (\<lambda>p. p\<lparr>pg_order := word_of_int ord, pg_is_free := 1, pg_next := nxt\<rparr>) i s))))"

definition free_pages :: "ulong \<Rightarrow> 'z buddy_scheme \<Rightarrow> 'z buddy_scheme kres" where
  "free_pages addr s =
     (if addr = 0 then Inr s
      else rbind (spin_lock BuddyLock s) (\<lambda>s.
           rbind (get_page_struct s addr) (\<lambda>pg.
           rbind (page_slot s pg) (\<lambda>i.
           if pg_is_free (pages s ! i) \<noteq> 0 then spin_unlock BuddyLock s
           else let ord = uint (pg_order (pages s ! i));
                    s = page_upd (\<lambda>p. p\<lparr>pg_is_free := 1\<rparr>) i s
                in rbind (merge_buddies ord addr s) (\<lambda>(ord, addr, s).
                   rbind (push_free ord addr s) (\<lambda>s.
                   spin_unlock BuddyLock s))))))"

definition free_page :: "ulong \<Rightarrow> 'z buddy_scheme \<Rightarrow> 'z buddy_scheme kres" where
  "free_page ptr s = free_pages ptr s"

section \<open>Initialisation\<close>

text \<open>\<open>kernel_end\<close> is the address of the linker symbol \<^verbatim>\<open>_kernel_end\<close>.\<close>

definition early_alloc :: "ulong \<Rightarrow> ulong \<Rightarrow> 'z buddy_scheme \<Rightarrow> ulong \<times> 'z buddy_scheme" where
  "early_alloc kernel_end sz s =
     (let sz = ALIGN_UP sz;
          addr = (if buddy_base_phys s = 0 then ALIGN_UP kernel_end else buddy_base_phys s)
      in (addr, s\<lparr>buddy_base_phys := addr + sz\<rparr>))"

fun pick_order :: "ulong \<Rightarrow> ulong \<Rightarrow> nat \<Rightarrow> nat" where
  "pick_order cur phys_end 0 = 0"
| "pick_order cur phys_end (Suc k) =
     (if phys_end < cur + push_bit (Suc k) PAGE_SIZE \<or>
         cur AND (push_bit (Suc k) PAGE_SIZE - 1) \<noteq> 0
      then pick_order cur phys_end k else Suc k)"

text \<open>Every round of the populating loop consumes at least one page, so a bound of one more
  than the number of pages is never reached.\<close>

fun populate :: "nat \<Rightarrow> ulong \<Rightarrow> ulong \<Rightarrow> 'z buddy_scheme \<Rightarrow> 'z buddy_scheme kres" where
  "populate 0 cur phys_end s = Inl Diverge"
| "populate (Suc fuel) cur phys_end s =
     (if cur + PAGE_SIZE \<le> phys_end
      then let ord = pick_order cur phys_end (nat MAX_ORDER)
           in rbind (push_free (int ord) cur s) (\<lambda>s.
              populate fuel (cur + push_bit ord PAGE_SIZE) phys_end s)
      else Inr s)"

definition buddy_allocator_init :: "ulong \<Rightarrow> 'z buddy_scheme \<Rightarrow> (int \<times> 'z buddy_scheme) kres" where
  "buddy_allocator_init kernel_end s =
     (let (kpt, s) = early_alloc kernel_end PAGE_SIZE s;
          s = s\<lparr>kernel_pagetable := kpt\<rparr>
      in rbind (kmemset kpt 0 PAGE_SIZE s) (\<lambda>s.
      let phys_start = buddy_base_phys s;
          phys_end = USER_END;
          per_page_cost = PAGE_SIZE + sizeof_page_t;
          estimated_pages = (phys_end - phys_start) div per_page_cost;
          (pa, s) = early_alloc kernel_end (estimated_pages * sizeof_page_t) s;
          s = s\<lparr>page_array := pa\<rparr>
      in rbind (kmemset pa 0 (estimated_pages * sizeof_page_t) s) (\<lambda>s.
      let s = s\<lparr>pages := replicate (unat estimated_pages) page_zero\<rparr>;
          s = s\<lparr>buddy_base_phys := ALIGN_UP (buddy_base_phys s)\<rparr>;
          phys_start = buddy_base_phys s;
          s = s\<lparr>num_pages := (USER_END - buddy_base_phys s) div PAGE_SIZE\<rparr>;
          s = s\<lparr>free_lists := replicate (nat (MAX_ORDER + 1)) 0\<rparr>
      in rbind (populate (unat (num_pages s) + 1) phys_start phys_end s) (\<lambda>s.
      Inr (0, s)))))"

declare split_blocks.simps [simp del] alloc_pages_for.simps [simp del]
  merge_buddies.simps [simp del]

end
