(* ===== verification/Buddy_Blocks.thy ===== *)
theory Buddy_Blocks
  imports Kernel_Prelude
begin

text \<open>
  The combinatorics of a buddy system, free of any machine state: blocks as pairs (start
  page, order), tilings of a range of pages by blocks, splitting and merging of blocks, the
  buddy of a page at an order, and the relation \<open>stale_in\<close> that locates page structures whose
  free flag is a left-over of an earlier merge.
\<close>

type_synonym block = "nat \<times> nat"

definition span :: "block \<Rightarrow> nat set" where
  "span b = {fst b ..< fst b + 2 ^ snd b}"

definition tiling :: "nat \<Rightarrow> block set \<Rightarrow> bool" where
  "tiling n B \<longleftrightarrow> (\<forall>b \<in> B. \<forall>c \<in> B. b \<noteq> c \<longrightarrow> span b \<inter> span c = {}) \<and> (\<Union>b \<in> B. span b) = {..<n}"

lemma mem_span [simp]: "x \<in> span (i, k) \<longleftrightarrow> i \<le> x \<and> x < i + 2 ^ k"
  by (simp add: span_def)

lemma two_pow_pos: "0 < (2 :: nat) ^ k"
  by simp

lemma span_split: "span (i, Suc k) = span (i, k) \<union> span (i + 2 ^ k, k)"
  by (auto simp: span_def)

lemma span_halves_disjoint: "span (i, k) \<inter> span (i + 2 ^ k, k) = {}"
  by (auto simp: span_def)

lemma start_in_span [simp]: "i \<in> span (i, k)"
  by simp

section \<open>Tilings\<close>

lemma tiling_disjointD: "\<lbrakk>tiling n B; b \<in> B; c \<in> B; b \<noteq> c\<rbrakk> \<Longrightarrow> span b \<inter> span c = {}"
  by (simp add: tiling_def)

lemma tiling_coverD: "tiling n B \<Longrightarrow> (\<Union>b \<in> B. span b) = {..<n}"
  by (simp add: tiling_def)

lemma tilingI:
  "\<lbrakk>\<And>b c. \<lbrakk>b \<in> B; c \<in> B; b \<noteq> c\<rbrakk> \<Longrightarrow> span b \<inter> span c = {}; (\<Union>b \<in> B. span b) = {..<n}\<rbrakk>
   \<Longrightarrow> tiling n B"
  by (simp add: tiling_def)

lemma tiling_unique:
  "\<lbrakk>tiling n B; b \<in> B; c \<in> B; x \<in> span b; x \<in> span c\<rbrakk> \<Longrightarrow> b = c"
  using tiling_disjointD by (metis disjoint_iff)

lemma tiling_start_unique: "\<lbrakk>tiling n B; (i, k) \<in> B; (i, l) \<in> B\<rbrakk> \<Longrightarrow> k = l"
  using tiling_unique [of n B "(i, k)" "(i, l)" i] by simp

lemma tiling_bound: "\<lbrakk>tiling n B; (i, k) \<in> B\<rbrakk> \<Longrightarrow> i + 2 ^ k \<le> n"
proof -
  assume t: "tiling n B" and b: "(i, k) \<in> B"
  have "i + 2 ^ k - 1 \<in> span (i, k)" using two_pow_pos [of k] unfolding mem_span by linarith
  then have "i + 2 ^ k - 1 \<in> {..<n}" using tiling_coverD [OF t] b by blast
  then show ?thesis by simp
qed

lemma tiling_start_bound:
  assumes "tiling n B" and "(i, k) \<in> B"
  shows "i < n"
  using tiling_bound [OF assms] two_pow_pos [of k] by linarith

text \<open>Replacing some blocks by others that cover the same pages.\<close>

lemma tiling_exchange:
  assumes t: "tiling n (P \<union> B)" and "P \<inter> B = {}"
    and cover: "(\<Union>b \<in> Q. span b) = (\<Union>b \<in> P. span b)"
    and disj: "\<And>b c. \<lbrakk>b \<in> Q; c \<in> Q; b \<noteq> c\<rbrakk> \<Longrightarrow> span b \<inter> span c = {}"
  shows "tiling n (Q \<union> B)"
proof (rule tilingI)
  have qb: "span b \<inter> span c = {}" if "b \<in> Q" "c \<in> B" for b c
  proof -
    have "span p \<inter> span c = {}" if "p \<in> P" for p
      using that \<open>c \<in> B\<close> \<open>P \<inter> B = {}\<close> by (intro tiling_disjointD [OF t]) auto
    moreover have "span b \<subseteq> (\<Union>p \<in> P. span p)" using cover that by blast
    ultimately show ?thesis by blast
  qed
  fix b c assume "b \<in> Q \<union> B" "c \<in> Q \<union> B" "b \<noteq> c"
  then consider "b \<in> Q" "c \<in> Q" | "b \<in> Q" "c \<in> B" | "b \<in> B" "c \<in> Q" | "b \<in> B" "c \<in> B" by blast
  then show "span b \<inter> span c = {}"
  proof cases
    case 3
    then show ?thesis using qb [of c b] by (simp add: Int_commute)
  qed (use disj qb tiling_disjointD [OF t] \<open>b \<noteq> c\<close> in auto)
next
  show "(\<Union>b \<in> Q \<union> B. span b) = {..<n}"
    using tiling_coverD [OF t] cover by (simp add: UN_Un)
qed

lemma tiling_split:
  assumes "tiling n (insert (i, Suc k) B)" and "(i, Suc k) \<notin> B"
  shows "tiling n (insert (i, k) (insert (i + 2 ^ k, k) B))"
proof -
  have "tiling n ({(i, k), (i + 2 ^ k, k)} \<union> B)"
  proof (rule tiling_exchange)
    show "tiling n ({(i, Suc k)} \<union> B)" "{(i, Suc k)} \<inter> B = {}" using assms by simp_all
    show "(\<Union>b \<in> {(i, k), (i + 2 ^ k, k)}. span b) = (\<Union>b \<in> {(i, Suc k)}. span b)"
      by (simp add: span_split)
    show "span b \<inter> span c = {}"
      if "b \<in> {(i, k), (i + 2 ^ k, k)}" "c \<in> {(i, k), (i + 2 ^ k, k)}" "b \<noteq> c" for b c
      using that span_halves_disjoint [of i k] by (elim insertE) (simp_all add: Int_commute)
  qed
  then show ?thesis by simp
qed

lemma tiling_merge:
  assumes "tiling n (insert (i, k) (insert (i + 2 ^ k, k) B))"
    and "(i, k) \<notin> B" and "(i + 2 ^ k, k) \<notin> B"
  shows "tiling n (insert (i, Suc k) B)"
proof -
  have "tiling n ({(i, Suc k)} \<union> B)"
  proof (rule tiling_exchange)
    show "tiling n ({(i, k), (i + 2 ^ k, k)} \<union> B)" "{(i, k), (i + 2 ^ k, k)} \<inter> B = {}"
      using assms by simp_all
    show "(\<Union>b \<in> {(i, Suc k)}. span b) = (\<Union>b \<in> {(i, k), (i + 2 ^ k, k)}. span b)"
      by (simp add: span_split)
  qed simp
  then show ?thesis by simp
qed

lemma tiling_extend:
  assumes "tiling n B"
  shows "tiling (n + 2 ^ k) (insert (n, k) B)"
proof (rule tilingI)
  have nb: "span b \<inter> span (n, k) = {}" if "b \<in> B" for b
  proof -
    have "span b \<subseteq> {..<n}" using tiling_coverD [OF assms] that by blast
    moreover have "{..<n} \<inter> span (n, k) = {}" by auto
    ultimately show ?thesis by blast
  qed
  fix b c assume "b \<in> insert (n, k) B" "c \<in> insert (n, k) B" "b \<noteq> c"
  then show "span b \<inter> span c = {}"
    using nb tiling_disjointD [OF assms, of b c] by (elim insertE) (auto simp: Int_commute)
next
  have "{..<n} \<union> span (n, k) = {..<n + 2 ^ k}" by (auto simp: span_def)
  then show "(\<Union>b \<in> insert (n, k) B. span b) = {..<n + 2 ^ k}"
    using tiling_coverD [OF assms] by (simp add: Un_commute)
qed

lemma tiling_empty: "tiling 0 {}"
  by (simp add: tiling_def)

text \<open>The pages of a tiling are counted by its blocks.\<close>

lemma finite_tiling: "tiling n B \<Longrightarrow> finite B"
proof -
  assume t: "tiling n B"
  have "inj_on fst B"
  proof (rule inj_onI)
    fix b c assume "b \<in> B" "c \<in> B" "fst b = fst c"
    then have "snd b = snd c" by (metis prod.collapse t tiling_start_unique)
    with \<open>fst b = fst c\<close> show "b = c" by (simp add: prod_eq_iff)
  qed
  moreover have "fst ` B \<subseteq> {..<n}"
    using t tiling_start_bound by (auto simp: image_subset_iff)
  ultimately show ?thesis by (meson finite_imageD finite_lessThan finite_subset)
qed

lemma tiling_count: "tiling n B \<Longrightarrow> (\<Sum>b \<in> B. 2 ^ snd b) = n"
proof -
  assume t: "tiling n B"
  have "card (\<Union>b \<in> B. span b) = (\<Sum>b \<in> B. card (span b))"
    using t finite_tiling [OF t] by (intro card_UN_disjoint) (auto simp: tiling_def span_def)
  then show ?thesis using t by (simp add: tiling_def span_def)
qed

section \<open>Buddies\<close>

definition bud :: "nat \<Rightarrow> nat \<Rightarrow> nat" where
  "bud x k = (if bit x k then x - 2 ^ k else x + 2 ^ k)"

definition lo :: "nat \<Rightarrow> nat \<Rightarrow> nat" where
  "lo x k = (if bit x k then x - 2 ^ k else x)"

lemma bit_imp_ge: "bit (x :: nat) k \<Longrightarrow> 2 ^ k \<le> x"
  by (metis bit_iff_odd div_less even_zero leI)

lemma div_add_pow: "(x + 2 ^ k) div 2 ^ k = Suc (x div (2 :: nat) ^ k)"
  by (metis Suc_eq_plus1 div_add_self2 power_not_zero zero_neq_numeral)

lemma bit_bud: "bit (bud x k) k \<longleftrightarrow> \<not> bit x k"
proof (cases "bit x k")
  case True
  then have ge: "2 ^ k \<le> x" by (rule bit_imp_ge)
  then have "x div 2 ^ k = (x - 2 ^ k) div 2 ^ k + 1"
    by (metis add.commute div_add_self2 le_add_diff_inverse2 power_not_zero zero_neq_numeral)
  with True show ?thesis by (auto simp: bud_def bit_iff_odd)
next
  case False
  with div_add_pow [of x k] False show ?thesis by (simp add: bud_def bit_iff_odd)
qed

lemma bud_bud [simp]: "bud (bud x k) k = x"
  using bit_bud [of x k] bit_imp_ge [of x k] by (auto simp: bud_def split: if_splits)

lemma bud_neq [simp]: "bud x k \<noteq> x" "x \<noteq> bud x k"
  using bit_imp_ge [of x k] two_pow_pos [of k] unfolding bud_def by (cases "bit x k"; simp; linarith)+

lemma lo_bud [simp]: "lo (bud x k) k = lo x k"
  using bit_bud [of x k] by (auto simp: lo_def bud_def)

lemma lo_cases: "x = lo x k \<and> bud x k = lo x k + 2 ^ k \<or> x = lo x k + 2 ^ k \<and> bud x k = lo x k"
  using bit_imp_ge [of x k] by (auto simp: lo_def bud_def)

lemma lo_min: "lo x k = min x (bud x k)"
  using lo_cases [of x k] by auto

lemma lo_self [simp]: "bud x k < x \<longleftrightarrow> lo x k \<noteq> x"
  using lo_cases [of x k] two_pow_pos [of k] by linarith

text \<open>A page count divisible by \<open>2 ^ (k + 1)\<close> has every buddy in range.\<close>

lemma bud_in_range:
  assumes "2 ^ Suc k dvd n" and "x < n"
  shows "bud x k < n"
proof (cases "bit x k")
  case True
  then show ?thesis using assms by (simp add: bud_def)
next
  case False
  obtain m where m: "n = 2 * 2 ^ k * m" using assms(1) by (auto elim: dvdE)
  have "even (x div 2 ^ k)" using False by (simp add: bit_iff_odd)
  moreover have "x div 2 ^ k < 2 * m"
    using assms(2) m by (simp add: less_mult_imp_div_less mult.commute mult.left_commute)
  ultimately have "x div 2 ^ k + 1 < 2 * m" by (elim evenE) simp
  then have "(x + 2 ^ k) div 2 ^ k < 2 * m" by (simp add: div_add_pow)
  then have "x + 2 ^ k < 2 * m * 2 ^ k" by (metis dividend_less_times_div div_less_iff_less_mult zero_less_numeral zero_less_power)
  then show ?thesis using False m by (simp add: bud_def mult.commute mult.left_commute)
qed

section \<open>Left-over free flags\<close>

text \<open>
  Page \<open>x\<close> with order \<open>j\<close> lies in block \<open>b\<close> together with its buddy of order \<open>j\<close>, and the
  pair is one of the pieces that repeated halving of \<open>b\<close> yields.
\<close>

definition stale_in :: "nat \<Rightarrow> nat \<Rightarrow> block \<Rightarrow> bool" where
  "stale_in x j b \<longleftrightarrow>
     fst b \<le> lo x j \<and> 2 ^ Suc j dvd lo x j - fst b \<and> lo x j + 2 ^ Suc j \<le> fst b + 2 ^ snd b"

lemma stale_in_span: "stale_in x j b \<Longrightarrow> x \<in> span b \<and> bud x j \<in> span b"
  using lo_cases [of x j] two_pow_pos [of j] unfolding stale_in_def span_def power_Suc
  by (elim conjE disjE; simp; linarith)

lemma stale_in_order:
  assumes "stale_in x j (i, k)"
  shows "j < k"
proof -
  have "2 ^ Suc j \<le> (2 :: nat) ^ k" using assms by (simp add: stale_in_def)
  then have "Suc j \<le> k" using power_increasing_iff [of "2 :: nat" "Suc j" k] by simp
  then show ?thesis by simp
qed

lemma stale_in_pair: "stale_in x k (lo x k, Suc k)"
  by (simp add: stale_in_def)

lemma stale_in_lower: "stale_in x j (i, k) \<Longrightarrow> stale_in x j (i, Suc k)"
  by (auto simp: stale_in_def)

lemma stale_in_upper:
  assumes "stale_in x j (i + 2 ^ k, k)"
  shows "stale_in x j (i, Suc k)"
proof -
  have "2 ^ Suc j dvd (2 :: nat) ^ k" using stale_in_order [OF assms] by (intro le_imp_power_dvd) simp
  moreover have "lo x j - i = (lo x j - (i + 2 ^ k)) + 2 ^ k" using assms by (simp add: stale_in_def)
  moreover have "2 ^ Suc j dvd lo x j - (i + 2 ^ k)" using assms by (simp add: stale_in_def)
  ultimately have "2 ^ Suc j dvd lo x j - i" by (metis dvd_add)
  then show ?thesis using assms by (simp add: stale_in_def)
qed

lemma stale_in_split:
  assumes "stale_in x j (i, Suc k)" and "x \<noteq> i" and "x \<noteq> i + 2 ^ k"
  shows "stale_in x j (i, k) \<or> stale_in x j (i + 2 ^ k, k)"
proof (cases "j = k")
  case True
  then have "lo x j = i" using assms(1) by (simp add: stale_in_def)
  with lo_cases [of x j] True assms(2,3) show ?thesis by auto
next
  case False
  with stale_in_order [OF assms(1)] have jk: "Suc j \<le> k" by simp
  then obtain q where q: "(2 :: nat) ^ k = 2 ^ Suc j * q" by (metis le_imp_power_dvd dvdE)
  obtain r where r: "lo x j - i = 2 ^ Suc j * r" using assms(1) by (auto simp: stale_in_def elim: dvdE)
  then have l: "lo x j = i + 2 ^ Suc j * r" using assms(1) by (auto simp: stale_in_def)
  show ?thesis
  proof (cases "r < q")
    case True
    then have "2 ^ Suc j * Suc r \<le> 2 ^ Suc j * q" by (intro mult_le_mono2) simp
    then have "stale_in x j (i, k)" using l q by (simp add: stale_in_def)
    then show ?thesis ..
  next
    case False
    then have "lo x j - (i + 2 ^ k) = 2 ^ Suc j * (r - q)" "i + 2 ^ k \<le> lo x j"
      using l q by (simp_all add: diff_mult_distrib2)
    then have "stale_in x j (i + 2 ^ k, k)" using assms(1) by (simp add: stale_in_def)
    then show ?thesis ..
  qed
qed

end
