(* ===== verification/Buddy_Inv.thy ===== *)
theory Buddy_Inv
  imports Buddy Buddy_Blocks
begin

text \<open>
  The invariant of the buddy allocator over its page structures and free lists, and its
  preservation by each elementary change the code makes: taking the head of a free list,
  splitting, handing a block out, taking it back, merging with a buddy and pushing a free
  block. A block that the code currently works on is in neither the free lists nor the set of
  allocated blocks; it is the element of the set \<open>C\<close>.
\<close>

section \<open>Free lists as chains of page structures\<close>

definition slot_ptr :: "ulong \<Rightarrow> nat \<Rightarrow> ulong" where
  "slot_ptr pa i = pa + of_nat i * sizeof_page_t"

primrec chain :: "ulong \<Rightarrow> page_t list \<Rightarrow> ulong \<Rightarrow> nat list \<Rightarrow> bool" where
  "chain pa PS p [] \<longleftrightarrow> p = 0"
| "chain pa PS p (i # is) \<longleftrightarrow> i < length PS \<and> p = slot_ptr pa i \<and> chain pa PS (pg_next (PS ! i)) is"

lemma chain_cong:
  "\<lbrakk>chain pa PS p is; length PS' = length PS; \<And>j. j \<in> set is \<Longrightarrow> pg_next (PS' ! j) = pg_next (PS ! j)\<rbrakk>
   \<Longrightarrow> chain pa PS' p is"
  by (induction "is" arbitrary: p) auto

lemma chain_bound: "chain pa PS p is \<Longrightarrow> i \<in> set is \<Longrightarrow> i < length PS"
  by (induction "is" arbitrary: p) auto

section \<open>The invariant\<close>

definition isf :: "page_t list \<Rightarrow> nat \<Rightarrow> bool" where
  "isf PS i \<longleftrightarrow> pg_is_free (PS ! i) \<noteq> 0"

definition pord :: "page_t list \<Rightarrow> nat \<Rightarrow> nat" where
  "pord PS i = unat (pg_order (PS ! i))"

definition freeset :: "(nat \<Rightarrow> nat list) \<Rightarrow> block set" where
  "freeset fl = {(i, k). k < 11 \<and> i \<in> set (fl k)}"

definition binv ::
    "nat \<Rightarrow> ulong \<Rightarrow> page_t list \<Rightarrow> ulong list \<Rightarrow> (nat \<Rightarrow> nat list) \<Rightarrow> block set \<Rightarrow> block set \<Rightarrow> bool" where
  "binv n pa PS FL fl A C \<longleftrightarrow>
     length FL = 11 \<and> n \<le> length PS \<and>
     (\<forall>k < 11. chain pa PS (FL ! k) (fl k) \<and> distinct (fl k)) \<and>
     (\<forall>(i, k) \<in> freeset fl. isf PS i \<and> pord PS i = k) \<and>
     (\<forall>(i, k) \<in> A. k < 11 \<and> \<not> isf PS i \<and> pord PS i = k) \<and>
     C \<inter> (A \<union> freeset fl) = {} \<and>
     tiling n (A \<union> freeset fl \<union> C) \<and>
     (\<forall>x < n. isf PS x \<longrightarrow> (x, pord PS x) \<in> freeset fl \<union> C \<or>
                          (\<exists>b \<in> A \<union> freeset fl \<union> C. stale_in x (pord PS x) b))"

lemma binvI:
  "\<lbrakk>length FL = 11; n \<le> length PS;
    \<And>k. k < 11 \<Longrightarrow> chain pa PS (FL ! k) (fl k); \<And>k. k < 11 \<Longrightarrow> distinct (fl k);
    \<And>i k. (i, k) \<in> freeset fl \<Longrightarrow> isf PS i \<and> pord PS i = k;
    \<And>i k. (i, k) \<in> A \<Longrightarrow> k < 11 \<and> \<not> isf PS i \<and> pord PS i = k;
    C \<inter> (A \<union> freeset fl) = {}; tiling n (A \<union> freeset fl \<union> C);
    \<And>x. \<lbrakk>x < n; isf PS x\<rbrakk> \<Longrightarrow> (x, pord PS x) \<in> freeset fl \<union> C \<or>
                          (\<exists>b \<in> A \<union> freeset fl \<union> C. stale_in x (pord PS x) b)\<rbrakk>
   \<Longrightarrow> binv n pa PS FL fl A C"
  unfolding binv_def by blast

lemma binv_lenD: "binv n pa PS FL fl A C \<Longrightarrow> length FL = 11"
  by (simp add: binv_def)

lemma binv_nD: "binv n pa PS FL fl A C \<Longrightarrow> n \<le> length PS"
  by (simp add: binv_def)

lemma binv_chainD: "binv n pa PS FL fl A C \<Longrightarrow> k < 11 \<Longrightarrow> chain pa PS (FL ! k) (fl k)"
  by (simp add: binv_def)

lemma binv_distinctD: "binv n pa PS FL fl A C \<Longrightarrow> k < 11 \<Longrightarrow> distinct (fl k)"
  by (simp add: binv_def)

lemma binv_freeD: "binv n pa PS FL fl A C \<Longrightarrow> (i, k) \<in> freeset fl \<Longrightarrow> isf PS i \<and> pord PS i = k"
  by (auto simp: binv_def)

lemma binv_allocD:
  "binv n pa PS FL fl A C \<Longrightarrow> (i, k) \<in> A \<Longrightarrow> k < 11 \<and> \<not> isf PS i \<and> pord PS i = k"
  by (auto simp: binv_def)

lemma binv_apartD: "binv n pa PS FL fl A C \<Longrightarrow> C \<inter> (A \<union> freeset fl) = {}"
  by (simp add: binv_def)

lemma binv_tilingD: "binv n pa PS FL fl A C \<Longrightarrow> tiling n (A \<union> freeset fl \<union> C)"
  by (simp add: binv_def)

lemma binv_staleD:
  "binv n pa PS FL fl A C \<Longrightarrow> x < n \<Longrightarrow> isf PS x \<Longrightarrow>
   (x, pord PS x) \<in> freeset fl \<union> C \<or> (\<exists>b \<in> A \<union> freeset fl \<union> C. stale_in x (pord PS x) b)"
  unfolding binv_def by blast

lemmas binvD = binv_lenD binv_nD binv_chainD binv_distinctD binv_freeD binv_allocD
  binv_apartD binv_tilingD binv_staleD

lemma in_freeset: "(i, k) \<in> freeset fl \<longleftrightarrow> k < 11 \<and> i \<in> set (fl k)"
  by (simp add: freeset_def)

lemma freeset_push: "k < 11 \<Longrightarrow> freeset (fl(k := i # fl k)) = insert (i, k) (freeset fl)"
  by (auto simp: freeset_def)

lemma freeset_remove:
  assumes "k < 11" and "set xs = set (fl k) - {i}"
  shows "freeset (fl(k := xs)) = freeset fl - {(i, k)}"
proof (rule set_eqI)
  fix b :: "nat \<times> nat"
  obtain j l where b: "b = (j, l)" by (cases b)
  show "b \<in> freeset (fl(k := xs)) \<longleftrightarrow> b \<in> freeset fl - {(i, k)}"
    using assms unfolding b in_freeset Diff_iff by (cases "l = k") auto
qed

text \<open>Page structures after an update that leaves the other elements alone.\<close>

lemma isf_update: "i < length PS \<Longrightarrow> isf (PS[i := p]) j = (if j = i then pg_is_free p \<noteq> 0 else isf PS j)"
  by (simp add: isf_def nth_list_update)

lemma pord_update: "i < length PS \<Longrightarrow> pord (PS[i := p]) j = (if j = i then unat (pg_order p) else pord PS j)"
  by (simp add: pord_def nth_list_update)

lemma chain_update_other:
  assumes "chain pa PS p is" and "i \<notin> set is \<or> pg_next q = pg_next (PS ! i)"
  shows "chain pa (PS[i := q]) p is"
proof (rule chain_cong [OF assms(1)])
  fix j assume "j \<in> set is"
  then show "pg_next (PS[i := q] ! j) = pg_next (PS ! j)"
    using assms(2) chain_bound [OF assms(1), of j] by (cases "j = i") auto
qed simp

section \<open>Taking the head of a free list\<close>

lemma binv_pop:
  assumes inv: "binv n pa PS FL fl A {}" and k: "k < 11" and hd: "fl k = i # is"
  shows "binv n pa (PS[i := (PS ! i)\<lparr>pg_order := w, pg_is_free := 0\<rparr>])
           (FL[k := pg_next (PS ! i)]) (fl(k := is)) A {(i, k)}"
proof -
  let ?PS = "PS[i := (PS ! i)\<lparr>pg_order := w, pg_is_free := 0\<rparr>]"
  have ik: "(i, k) \<in> freeset fl" using k hd by (simp add: in_freeset)
  have i: "i < length PS" "isf PS i" "pord PS i = k" "i \<notin> set is"
    using binv_chainD [OF inv k] binv_freeD [OF inv ik] binv_distinctD [OF inv k] hd by auto
  have fs: "freeset (fl(k := is)) = freeset fl - {(i, k)}"
    using k i(4) hd by (intro freeset_remove) auto
  have all: "A \<union> freeset (fl(k := is)) \<union> {(i, k)} = A \<union> freeset fl" using ik fs by auto
  have ne: "j \<noteq> i" if "(j, l) \<in> freeset (fl(k := is))" for j l
    using that binv_freeD [OF inv, of j l] i(3) unfolding fs by auto
  show ?thesis
  proof (rule binvI)
    show "chain pa ?PS (FL[k := pg_next (PS ! i)] ! l) ((fl(k := is)) l)" if "l < 11" for l
    proof (rule chain_update_other)
      show "chain pa PS (FL[k := pg_next (PS ! i)] ! l) ((fl(k := is)) l)"
        using binv_chainD [OF inv that] binv_chainD [OF inv k] binv_lenD [OF inv] hd that
        by (cases "l = k") simp_all
    qed simp
    show "distinct ((fl(k := is)) l)" if "l < 11" for l
      using binv_distinctD [OF inv that] hd by (cases "l = k") simp_all
    show "isf ?PS j \<and> pord ?PS j = l" if "(j, l) \<in> freeset (fl(k := is))" for j l
      using that ne [OF that] binv_freeD [OF inv, of j l] i unfolding fs
      by (simp add: isf_update pord_update)
    show "l < 11 \<and> \<not> isf ?PS j \<and> pord ?PS j = l" if "(j, l) \<in> A" for j l
    proof -
      have "j \<noteq> i" using binv_allocD [OF inv that] i(2) by auto
      then show ?thesis using binv_allocD [OF inv that] i by (simp add: isf_update pord_update)
    qed
    show "{(i, k)} \<inter> (A \<union> freeset (fl(k := is))) = {}"
      using fs binv_allocD [OF inv, of i k] i(2) by auto
    show "tiling n (A \<union> freeset (fl(k := is)) \<union> {(i, k)})"
      using binv_tilingD [OF inv] all by simp
    show "(x, pord ?PS x) \<in> freeset (fl(k := is)) \<union> {(i, k)} \<or>
        (\<exists>b \<in> A \<union> freeset (fl(k := is)) \<union> {(i, k)}. stale_in x (pord ?PS x) b)"
      if "x < n" "isf ?PS x" for x
    proof -
      have x: "x \<noteq> i" "isf PS x" "pord ?PS x = pord PS x"
        using that(2) i(1) by (auto simp: isf_update pord_update split: if_splits)
      then show ?thesis using binv_staleD [OF inv that(1) x(2)] fs all by auto
    qed
  qed (use binv_lenD [OF inv] binv_nD [OF inv] in simp_all)
qed

section \<open>Splitting the block in hand\<close>

text \<open>No other block starts inside the block in hand.\<close>

lemma binv_inside:
  assumes inv: "binv n pa PS FL fl A {(i, k)}" and j: "i < j" "j < i + 2 ^ k"
  shows "(j, l) \<notin> A \<union> freeset fl"
proof
  assume "(j, l) \<in> A \<union> freeset fl"
  then have "(j, l) = (i, k)"
    using j by (intro tiling_unique [OF binv_tilingD [OF inv], of _ _ j]) auto
  with j show False by simp
qed

lemma binv_hand_unique:
  assumes inv: "binv n pa PS FL fl A {(i, k)}"
  shows "(i, l) \<notin> A \<union> freeset fl"
proof
  assume l: "(i, l) \<in> A \<union> freeset fl"
  then have "l = k" by (intro tiling_start_unique [OF binv_tilingD [OF inv], of i]) auto
  with l binv_apartD [OF inv] show False by auto
qed

lemma binv_push_at:
  assumes inv: "binv n pa PS FL fl A C0" and k: "k < 11" and j: "j < n"
    and fresh: "\<And>l. (j, l) \<notin> A \<union> freeset fl"
    and apart: "C \<inter> (A \<union> insert (j, k) (freeset fl)) = {}"
    and tile: "tiling n (A \<union> insert (j, k) (freeset fl) \<union> C)"
    and stale: "\<And>x. \<lbrakk>x < n; isf PS x; x \<noteq> j\<rbrakk> \<Longrightarrow> (x, pord PS x) \<in> freeset fl \<union> C \<or>
       (\<exists>b \<in> A \<union> insert (j, k) (freeset fl) \<union> C. stale_in x (pord PS x) b)"
    and w: "unat w = k" and f: "f \<noteq> 0"
  shows "binv n pa (PS[j := (PS ! j)\<lparr>pg_order := w, pg_is_free := f, pg_next := FL ! k\<rparr>])
           (FL[k := slot_ptr pa j]) (fl(k := j # fl k)) A C"
proof -
  let ?p = "(PS ! j)\<lparr>pg_order := w, pg_is_free := f, pg_next := FL ! k\<rparr>"
  have fs: "freeset (fl(k := j # fl k)) = insert (j, k) (freeset fl)" using k by (rule freeset_push)
  have jl: "j < length PS" using j binv_nD [OF inv] by simp
  have notin: "j \<notin> set (fl l)" if "l < 11" for l using fresh [of l] that by (simp add: in_freeset)
  show ?thesis
  proof (rule binvI)
    show "chain pa (PS[j := ?p]) (FL[k := slot_ptr pa j] ! l) ((fl(k := j # fl k)) l)" if l: "l < 11" for l
    proof -
      have "chain pa (PS[j := ?p]) (FL ! l) (fl l)"
        using binv_chainD [OF inv l] notin [OF l] by (intro chain_update_other) simp_all
      then show ?thesis using binv_lenD [OF inv] l jl by (cases "l = k") simp_all
    qed
    show "distinct ((fl(k := j # fl k)) l)" if "l < 11" for l
      using binv_distinctD [OF inv that] notin [OF k] by (cases "l = k") simp_all
    show "isf (PS[j := ?p]) i \<and> pord (PS[j := ?p]) i = l" if "(i, l) \<in> freeset (fl(k := j # fl k))" for i l
    proof (cases "i = j")
      case True
      then have "l = k" using that fresh [of l] unfolding fs by auto
      with True show ?thesis using jl w f by (simp add: isf_update pord_update)
    next
      case False
      then show ?thesis using that binv_freeD [OF inv, of i l] jl unfolding fs
        by (simp add: isf_update pord_update)
    qed
    show "l < 11 \<and> \<not> isf (PS[j := ?p]) i \<and> pord (PS[j := ?p]) i = l" if "(i, l) \<in> A" for i l
    proof -
      have "i \<noteq> j" using that fresh by auto
      then show ?thesis using binv_allocD [OF inv that] jl by (simp add: isf_update pord_update)
    qed
    show "(x, pord (PS[j := ?p]) x) \<in> freeset (fl(k := j # fl k)) \<union> C \<or>
        (\<exists>b \<in> A \<union> freeset (fl(k := j # fl k)) \<union> C. stale_in x (pord (PS[j := ?p]) x) b)"
      if "x < n" "isf (PS[j := ?p]) x" for x
    proof (cases "x = j")
      case True
      then show ?thesis using jl w unfolding fs by (simp add: pord_update)
    next
      case False
      then have "isf PS x" "pord (PS[j := ?p]) x = pord PS x"
        using that jl by (simp_all add: isf_update pord_update)
      then show ?thesis using stale [OF that(1) _ False] unfolding fs by auto
    qed
  qed (use binv_lenD [OF inv] binv_nD [OF inv] apart tile fs in simp_all)
qed

lemma binv_split:
  assumes inv: "binv n pa PS FL fl A {(i, Suc k)}" and k: "k < 10" and i: "\<not> isf PS i"
    and w: "unat w = k" and f: "f \<noteq> 0"
  shows "binv n pa
           (PS[i + 2 ^ k := (PS ! (i + 2 ^ k))\<lparr>pg_order := w, pg_is_free := f, pg_next := FL ! k\<rparr>])
           (FL[k := slot_ptr pa (i + 2 ^ k)]) (fl(k := (i + 2 ^ k) # fl k)) A {(i, k)}"
proof -
  let ?j = "i + 2 ^ k"
  have t: "tiling n (insert (i, Suc k) (A \<union> freeset fl))" using binv_tilingD [OF inv] by simp
  have j: "?j < n" using tiling_bound [OF t, of i "Suc k"] two_pow_pos [of k] by (simp, linarith)
  have fresh: "(?j, l) \<notin> A \<union> freeset fl" for l
    using binv_inside [OF inv, of ?j] two_pow_pos [of k] by simp
  show ?thesis
  proof (rule binv_push_at [OF inv _ j fresh _ _ _ w f])
    show "{(i, k)} \<inter> (A \<union> insert (?j, k) (freeset fl)) = {}"
      using binv_hand_unique [OF inv, of k] by auto
    have "(i, Suc k) \<notin> A \<union> freeset fl" using binv_hand_unique [OF inv] .
    from tiling_split [OF t this] show "tiling n (A \<union> insert (?j, k) (freeset fl) \<union> {(i, k)})"
      by (simp add: insert_commute)
    show "(x, pord PS x) \<in> freeset fl \<union> {(i, k)} \<or>
        (\<exists>b \<in> A \<union> insert (?j, k) (freeset fl) \<union> {(i, k)}. stale_in x (pord PS x) b)"
      if x: "x < n" "isf PS x" "x \<noteq> ?j" for x
    proof -
      have "x \<noteq> i" using x(2) i by auto
      then show ?thesis
        using binv_staleD [OF inv x(1,2)] stale_in_split [of x "pord PS x" i k] x(3) by auto
    qed
  qed (use k in simp)
qed

section \<open>Handing a block out and taking it back\<close>

lemma binv_commit:
  assumes inv: "binv n pa PS FL fl A {(i, k)}" and "k < 11" "\<not> isf PS i" "pord PS i = k"
  shows "binv n pa PS FL fl (insert (i, k) A) {}"
proof (rule binvI)
  show "tiling n (insert (i, k) A \<union> freeset fl \<union> {})" using binv_tilingD [OF inv] by simp
  show "l < 11 \<and> \<not> isf PS j \<and> pord PS j = l" if "(j, l) \<in> insert (i, k) A" for j l
    using that assms(2-) binv_allocD [OF inv, of j l] by auto
  show "(x, pord PS x) \<in> freeset fl \<union> {} \<or>
      (\<exists>b \<in> insert (i, k) A \<union> freeset fl \<union> {}. stale_in x (pord PS x) b)" if "x < n" "isf PS x" for x
    using binv_staleD [OF inv that] that(2) assms(3) by auto
qed (use binvD [OF inv] in auto)

lemma binv_release:
  assumes inv: "binv n pa PS FL fl A {}" and ik: "(i, k) \<in> A" and f: "f \<noteq> 0"
  shows "binv n pa (PS[i := (PS ! i)\<lparr>pg_is_free := f\<rparr>]) FL fl (A - {(i, k)}) {(i, k)}"
proof -
  let ?PS = "PS[i := (PS ! i)\<lparr>pg_is_free := f\<rparr>]"
  have t: "tiling n (A \<union> freeset fl)" using binv_tilingD [OF inv] by simp
  have i: "i < length PS" "pord PS i = k" "\<not> isf PS i"
    using binv_allocD [OF inv ik] binv_nD [OF inv] tiling_start_bound [OF t, of i k] ik by auto
  have po: "pord ?PS j = pord PS j" for j using i(1) by (simp add: pord_update) (simp add: pord_def)
  have un: "A - {(i, k)} \<union> freeset fl \<union> {(i, k)} = A \<union> freeset fl" using ik by auto
  show ?thesis
  proof (rule binvI)
    show "chain pa ?PS (FL ! l) (fl l)" if "l < 11" for l
      using binv_chainD [OF inv that] by (rule chain_update_other) simp
    show "isf ?PS j \<and> pord ?PS j = l" if "(j, l) \<in> freeset fl" for j l
      using binv_freeD [OF inv that] i by (auto simp: po isf_update)
    show "l < 11 \<and> \<not> isf ?PS j \<and> pord ?PS j = l" if "(j, l) \<in> A - {(i, k)}" for j l
    proof -
      have "j \<noteq> i" using that binv_allocD [OF inv, of j l] i(2) by auto
      then show ?thesis using that binv_allocD [OF inv, of j l] i(1) by (simp add: po isf_update)
    qed
    show "{(i, k)} \<inter> (A - {(i, k)} \<union> freeset fl) = {}" using binv_freeD [OF inv, of i k] i by auto
    show "tiling n (A - {(i, k)} \<union> freeset fl \<union> {(i, k)})" unfolding un by (rule t)
    show "(x, pord ?PS x) \<in> freeset fl \<union> {(i, k)} \<or>
        (\<exists>b \<in> A - {(i, k)} \<union> freeset fl \<union> {(i, k)}. stale_in x (pord ?PS x) b)"
      if "x < n" "isf ?PS x" for x
    proof (cases "x = i")
      case True
      then show ?thesis using i by (simp add: po)
    next
      case False
      then have "isf PS x" using that(2) i(1) by (simp add: isf_update)
      then show ?thesis using binv_staleD [OF inv that(1)] unfolding un po by auto
    qed
  qed (use binv_lenD [OF inv] binv_nD [OF inv] binv_distinctD [OF inv] in simp_all)
qed

section \<open>Merging the block in hand with its buddy\<close>

text \<open>A buddy that carries the free flag and the right order really is a free block: this is
  where the left-over flags are shown to be harmless.\<close>

lemma binv_buddy_free:
  assumes inv: "binv n pa PS FL fl A {(c, k)}" and X: "bud c k < n" "isf PS (bud c k)"
    and o: "pord PS (bud c k) = k"
  shows "(bud c k, k) \<in> freeset fl"
proof -
  have "\<not> stale_in (bud c k) k b" if "b \<in> A \<union> freeset fl \<union> {(c, k)}" for b
  proof
    assume st: "stale_in (bud c k) k b"
    then have "c \<in> span b" using stale_in_span [OF st] by simp
    then have "b = (c, k)" using that by (intro tiling_unique [OF binv_tilingD [OF inv], of _ _ c]) auto
    with st stale_in_order [of "bud c k" k c k] show False by simp
  qed
  with binv_staleD [OF inv X] o show ?thesis by auto
qed

lemma binv_merge:
  assumes inv: "binv n pa PS FL fl A {(c, k)}" and k: "k < 10"
    and X: "bud c k < n" "isf PS (bud c k)" "pord PS (bud c k) = k"
    and len: "length FL' = 11" "length PS' = length PS"
    and ch: "\<And>l. l < 11 \<Longrightarrow> chain pa PS' (FL' ! l) ((fl(k := remove1 (bud c k) (fl k))) l)"
    and flags: "\<And>x. isf PS' x \<longleftrightarrow> isf PS x \<and> x \<noteq> bud c k" "\<And>x. pord PS' x = pord PS x"
  shows "binv n pa PS' FL' (fl(k := remove1 (bud c k) (fl k))) A {(lo c k, Suc k)}"
proof -
  let ?X = "bud c k" and ?fl = "fl(k := remove1 (bud c k) (fl k))"
  have Xf: "(?X, k) \<in> freeset fl" by (rule binv_buddy_free [OF inv X])
  have dist: "distinct (fl k)" using binv_distinctD [OF inv] k by simp
  have fs: "freeset ?fl = freeset fl - {(?X, k)}"
    using k dist by (intro freeset_remove) (auto simp: set_remove1_eq)
  let ?B = "A \<union> freeset ?fl"
  have old: "A \<union> freeset fl \<union> {(c, k)} = insert (c, k) (insert (?X, k) ?B)"
    using Xf fs by auto
  have Xn: "(?X, l) \<notin> ?B" for l
    using binv_freeD [OF inv, of ?X l] binv_allocD [OF inv, of ?X l] X unfolding fs by auto
  have cn: "(c, l) \<notin> ?B" for l using binv_hand_unique [OF inv, of l] unfolding fs by auto
  have t0: "tiling n (insert (c, k) (insert (?X, k) ?B))" using binv_tilingD [OF inv] unfolding old .
  then have t: "tiling n (insert (lo c k, k) (insert (lo c k + 2 ^ k, k) ?B))"
    using lo_cases [of c k] by (auto simp: insert_commute)
  have loB: "(lo c k, l) \<notin> ?B" "(lo c k + 2 ^ k, l) \<notin> ?B" for l
    using lo_cases [of c k] cn [of l] Xn [of l] by auto
  have st: "stale_in x j (lo c k, Suc k)" if "stale_in x j b" "b = (c, k) \<or> b = (?X, k)" for x j b
    using that lo_cases [of c k] stale_in_lower stale_in_upper by auto
  show ?thesis
  proof (rule binvI)
    show "n \<le> length PS'" using binv_nD [OF inv] len by simp
    show "distinct (?fl l)" if "l < 11" for l
      using binv_distinctD [OF inv that] by (cases "l = k") simp_all
    show "isf PS' i \<and> pord PS' i = l" if "(i, l) \<in> freeset ?fl" for i l
      using that Xn [of l] binv_freeD [OF inv, of i l] unfolding fs flags by auto
    show "l < 11 \<and> \<not> isf PS' i \<and> pord PS' i = l" if "(i, l) \<in> A" for i l
      using binv_allocD [OF inv that] unfolding flags by simp
    show "{(lo c k, Suc k)} \<inter> ?B = {}" using loB by auto
    show "tiling n (?B \<union> {(lo c k, Suc k)})" using tiling_merge [OF t loB] by simp
    show "(x, pord PS' x) \<in> freeset ?fl \<union> {(lo c k, Suc k)} \<or>
        (\<exists>b \<in> ?B \<union> {(lo c k, Suc k)}. stale_in x (pord PS' x) b)" if xn: "x < n" "isf PS' x" for x
    proof -
      have x: "isf PS x" "x \<noteq> ?X" using xn(2) flags by auto
      then consider "(x, pord PS x) \<in> freeset fl" | "(x, pord PS x) = (c, k)"
        | b where "b \<in> insert (c, k) (insert (?X, k) ?B)" "stale_in x (pord PS x) b"
        using binv_staleD [OF inv xn(1) x(1)] unfolding old by auto
      then show ?thesis
      proof cases
        case 1
        then show ?thesis using x unfolding fs flags by auto
      next
        case 2
        then show ?thesis using stale_in_pair [of c k] unfolding flags by auto
      next
        case 3
        then show ?thesis using st [of x "pord PS x" b] unfolding flags by auto
      qed
    qed
  qed (use len ch in simp_all)
qed

section \<open>Putting the block in hand on a free list\<close>

lemma binv_push:
  assumes inv: "binv n pa PS FL fl A {(c, k)}" and k: "k < 11"
    and w: "unat w = k" and f: "f \<noteq> 0"
  shows "binv n pa (PS[c := (PS ! c)\<lparr>pg_order := w, pg_is_free := f, pg_next := FL ! k\<rparr>])
           (FL[k := slot_ptr pa c]) (fl(k := c # fl k)) A {}"
proof (rule binv_push_at [OF inv k _ _ _ _ _ w f])
  have t: "tiling n (insert (c, k) (A \<union> freeset fl))" using binv_tilingD [OF inv] by simp
  show "c < n" using tiling_start_bound [OF t, of c k] by simp
  show "(c, l) \<notin> A \<union> freeset fl" for l by (rule binv_hand_unique [OF inv])
  show "tiling n (A \<union> insert (c, k) (freeset fl) \<union> {})" using t by simp
  show "(x, pord PS x) \<in> freeset fl \<union> {} \<or>
      (\<exists>b \<in> A \<union> insert (c, k) (freeset fl) \<union> {}. stale_in x (pord PS x) b)"
    if "x < n" "isf PS x" "x \<noteq> c" for x
    using binv_staleD [OF inv that(1,2)] that(3) by auto
qed simp

text \<open>During initialisation the managed range grows block by block.\<close>

lemma binv_extend:
  assumes inv: "binv n pa PS FL fl A {}" and n: "n + 2 ^ k \<le> length PS"
    and clear: "\<And>x. \<lbrakk>n \<le> x; x < n + 2 ^ k\<rbrakk> \<Longrightarrow> \<not> isf PS x"
  shows "binv (n + 2 ^ k) pa PS FL fl A {(n, k)}"
proof -
  have t: "tiling n (A \<union> freeset fl)" using binv_tilingD [OF inv] by simp
  show ?thesis
  proof (rule binvI)
    show "tiling (n + 2 ^ k) (A \<union> freeset fl \<union> {(n, k)})" using tiling_extend [OF t] by simp
    show "{(n, k)} \<inter> (A \<union> freeset fl) = {}" using tiling_start_bound [OF t, of n k] by auto
    show "(x, pord PS x) \<in> freeset fl \<union> {(n, k)} \<or>
        (\<exists>b \<in> A \<union> freeset fl \<union> {(n, k)}. stale_in x (pord PS x) b)" if "x < n + 2 ^ k" "isf PS x" for x
    proof -
      have "x < n" using clear [of x] that by fastforce
      then show ?thesis using binv_staleD [OF inv _ that(2)] by auto
    qed
  qed (use binvD [OF inv] n in auto)
qed

end
