(* ===== verification/Buddy_Alloc.thy ===== *)
theory Buddy_Alloc
  imports Buddy_Inv
begin

text \<open>
  The allocator's address arithmetic moved to page numbers, and the behaviour of
  \<open>alloc_pages\<close>: it always returns, hands out a zeroed block that overlaps no block handed
  out before, and reports exhaustion only when no free list of a sufficient order has a block.
\<close>

section \<open>The layout the allocator runs in\<close>

text \<open>The page structures lie in RAM below the managed pages, and these end in RAM.\<close>

definition buddy_static :: "'z buddy_scheme \<Rightarrow> bool" where
  "buddy_static s \<longleftrightarrow>
     unat KERNEL_START \<le> unat (page_array s) \<and>
     unat (page_array s) + 16 * length (pages s) \<le> unat (buddy_base_phys s) \<and>
     4096 dvd unat (buddy_base_phys s) \<and>
     unat (buddy_base_phys s) + 4096 * unat (num_pages s) \<le> unat USER_END"

definition buddy_inv :: "block set \<Rightarrow> 'z buddy_scheme \<Rightarrow> bool" where
  "buddy_inv A s \<longleftrightarrow> buddy_static s \<and>
     (\<exists>fl. binv (unat (num_pages s)) (page_array s) (pages s) (free_lists s) fl A {})"

definition lock_ready :: "lock_id \<Rightarrow> 'z machine_scheme \<Rightarrow> bool" where
  "lock_ready l s \<longleftrightarrow> m_locks s l = 0 \<and> lock_depth (m_hart s) + 1 \<noteq> 0"

definition page_pa :: "'z buddy_scheme \<Rightarrow> nat \<Rightarrow> ulong" where
  "page_pa s i = buddy_base_phys s + of_nat i * PAGE_SIZE"

lemma unat_layout [simp]:
  "unat KERNEL_START = 0x80000000" "unat USER_END = 0x88000000" "unat PAGE_SIZE = 4096"
  "unat sizeof_page_t = 16"
  by (simp_all add: KERNEL_START_def USER_END_def PAGE_SIZE_def sizeof_page_t_def)

lemma static_bounds:
  assumes "buddy_static s"
  shows "length (pages s) \<le> 0x800000" "unat (num_pages s) \<le> 0x8000"
    "0x80000000 \<le> unat (buddy_base_phys s)" "unat (buddy_base_phys s) \<le> 0x88000000"
    "0x80000000 \<le> unat (page_array s)"
    "unat (page_array s) + 16 * length (pages s) \<le> 0x88000000"
  using assms by (auto simp: buddy_static_def)

lemma unat_of_nat_scaled: "n * m < 2 ^ 64 \<Longrightarrow> n < 2 ^ 64 \<Longrightarrow> unat c = m \<Longrightarrow> unat (of_nat n * c :: ulong) = n * m"
  by (subst unat_mult64) (simp_all add: unat_of_nat64)

lemma page_slot_virt [simp]:
  assumes "buddy_static s" and "i < length (pages s)"
  shows "page_slot s (PHYS_TO_VIRT s (slot_ptr (page_array s) i)) = Inr i"
proof -
  let ?off = "of_nat i * sizeof_page_t :: ulong"
  have i: "i < 0x800000" using assms static_bounds(1) [OF assms(1)] by simp
  then have u: "unat ?off = i * 16" by (intro unat_of_nat_scaled) simp_all
  have "unat (?off mod sizeof_page_t) = 0" by (simp add: unat_mod u)
  then have "?off mod sizeof_page_t = 0" by (simp add: unat_eq_zero)
  moreover have "unat (?off div sizeof_page_t) = i" by (simp add: unat_div u)
  moreover have "PHYS_TO_VIRT s (slot_ptr (page_array s) i) - va_offset s - page_array s = ?off"
    by (simp add: PHYS_TO_VIRT_def slot_ptr_def)
  ultimately show ?thesis using assms(2) by (simp add: page_slot_def Let_def)
qed

lemma unat_slot_ptr:
  assumes "buddy_static s" and "i < length (pages s)"
  shows "unat (slot_ptr (page_array s) i) = unat (page_array s) + 16 * i"
proof -
  have b: "i < 0x800000" "unat (page_array s) \<le> 0x88000000"
    using assms static_bounds [OF assms(1)] by simp_all
  then have "unat (of_nat i * sizeof_page_t :: ulong) = i * 16" by (intro unat_of_nat_scaled) simp_all
  with b show ?thesis unfolding slot_ptr_def by (subst unat_add64) simp_all
qed

lemma slot_ptr_nonzero:
  "buddy_static s \<Longrightarrow> i < length (pages s) \<Longrightarrow> slot_ptr (page_array s) i \<noteq> 0"
  using unat_slot_ptr [of s i] static_bounds(5) [of s] by (auto simp: word_unat_eq_iff)

lemma slot_ptr_inj:
  "\<lbrakk>buddy_static s; i < length (pages s); j < length (pages s)\<rbrakk> \<Longrightarrow>
   slot_ptr (page_array s) i = slot_ptr (page_array s) j \<longleftrightarrow> i = j"
  using unat_slot_ptr [of s i] unat_slot_ptr [of s j] by (auto simp: word_unat_eq_iff)

lemma sint_small64: "unat w < 2 ^ 63 \<Longrightarrow> sint (w :: ulong) = int (unat w)"
proof -
  assume "unat w < 2 ^ 63"
  then have "int (unat w) < int (2 ^ 63)" by (simp only: of_nat_less_iff)
  then have "uint w < 2 ^ 63" by simp
  moreover have "- (2 ^ 63) \<le> uint w" by (rule order_trans [OF _ unsigned_greater_eq]) simp
  ultimately show ?thesis by (simp add: sint_uint signed_take_bit_int_eq_self)
qed

lemma sint_small32: "unat w < 2 ^ 31 \<Longrightarrow> sint (w :: uint) = int (unat w)"
proof -
  assume "unat w < 2 ^ 31"
  then have "int (unat w) < int (2 ^ 31)" by (simp only: of_nat_less_iff)
  then have "uint w < 2 ^ 31" by simp
  moreover have "- (2 ^ 31) \<le> uint w" by (rule order_trans [OF _ unsigned_greater_eq]) simp
  ultimately show ?thesis by (simp add: sint_uint signed_take_bit_int_eq_self)
qed

lemma page_index_slot:
  assumes "buddy_static s" and "i < length (pages s)"
  shows "page_index s (slot_ptr (page_array s) i) = of_nat i"
proof -
  have i: "i < 0x800000" using assms static_bounds(1) [OF assms(1)] by simp
  have "unat (of_nat i * sizeof_page_t :: ulong) = i * 16"
    using i by (intro unat_of_nat_scaled) simp_all
  moreover from this have "sint (of_nat i * sizeof_page_t :: ulong) = int (i * 16)"
    using i by (simp add: sint_small64)
  ultimately show ?thesis by (simp add: page_index_def slot_ptr_def)
qed

lemma scast_of_nat32: "i < 2 ^ 31 \<Longrightarrow> scast (of_nat i :: uint) = (of_nat i :: ulong)"
proof -
  assume i: "i < 2 ^ 31"
  then have "sint (of_nat i :: uint) = int i"
    by (subst sint_small32) (simp_all add: unat_of_nat)
  then show ?thesis by (metis of_int_of_nat_eq of_int_sint)
qed

lemma page_addr_ok:
  assumes "buddy_static s" and "i < unat (num_pages s)"
  shows "page_addr s (scast (of_nat i :: uint)) = Inr (page_pa s i)"
proof -
  have i: "i < 0x8000" using assms static_bounds(2) [OF assms(1)] by simp
  then have "\<not> num_pages s \<le> (of_nat i :: ulong)"
    using assms(2) by (simp add: word_le_nat_alt unat_of_nat64)
  then show ?thesis using i by (simp add: page_addr_def page_pa_def scast_of_nat32)
qed

lemma unat_page_pa:
  "buddy_static s \<Longrightarrow> i < 2 ^ 32 \<Longrightarrow> unat (page_pa s i) = unat (buddy_base_phys s) + 4096 * i"
proof -
  assume s: "buddy_static s" and i: "i < 2 ^ 32"
  have "unat (of_nat i * PAGE_SIZE :: ulong) = i * 4096" using i by (intro unat_of_nat_scaled) simp_all
  then show ?thesis using i static_bounds(4) [OF s] unfolding page_pa_def
    by (subst unat_add64) simp_all
qed

lemma page_pa_nonzero: "buddy_static s \<Longrightarrow> i < 2 ^ 32 \<Longrightarrow> page_pa s i \<noteq> 0"
  using unat_page_pa [of s i] static_bounds(3) [of s] by (auto simp: word_unat_eq_iff)

lemma page_pa_ram:
  assumes "buddy_static s" and "i + 2 ^ k \<le> unat (num_pages s)"
  shows "ram_range s (PHYS_TO_VIRT s (page_pa s i)) (4096 * 2 ^ k)"
proof -
  have i: "i < 2 ^ 32" using assms static_bounds(2) [OF assms(1)] by simp
  have "4096 * i + 4096 * 2 ^ k \<le> 4096 * unat (num_pages s)" using assms(2) by simp
  then show ?thesis
    using unat_page_pa [OF assms(1) i] assms(1) static_bounds(3) [OF assms(1)]
    by (simp add: ram_range_def PHYS_TO_VIRT_def buddy_static_def)
qed

lemma unat_shifted_page: "k < 11 \<Longrightarrow> unat (push_bit k PAGE_SIZE :: ulong) = 4096 * 2 ^ k"
proof -
  assume k: "k < 11"
  have "(2 :: nat) ^ k \<le> 2 ^ 10" using k by (intro power_increasing) simp_all
  then have small: "(2 :: nat) ^ k < 2 ^ 40" by simp
  then have "unat (of_nat (2 ^ k) :: ulong) = 2 ^ k" by (intro unat_of_nat64) simp
  then have p: "unat (2 ^ k :: ulong) = 2 ^ k" "(2 :: nat) ^ k < 2 ^ 40" using small by simp_all
  then show ?thesis by (simp add: push_bit_eq_mult unat_mult64 mult.commute)
qed

section \<open>States that differ in the page structures and free lists only\<close>

definition lists_only :: "'z buddy_scheme \<Rightarrow> 'z buddy_scheme \<Rightarrow> bool" where
  "lists_only s s' \<longleftrightarrow>
     (\<exists>ps ls. s' = s\<lparr>pages := ps, free_lists := ls\<rparr> \<and> length ps = length (pages s))"

lemma lists_onlyI:
  "length ps = length (pages s) \<Longrightarrow> lists_only s (s\<lparr>pages := ps, free_lists := ls\<rparr>)"
  by (auto simp: lists_only_def)

lemma lists_only_refl [simp]: "lists_only s s"
  unfolding lists_only_def by (rule exI [of _ "pages s"], rule exI [of _ "free_lists s"]) simp

lemma lists_only_pages: "length ps = length (pages s) \<Longrightarrow> lists_only s (s\<lparr>pages := ps\<rparr>)"
  unfolding lists_only_def by (rule exI [of _ ps], rule exI [of _ "free_lists s"]) simp

lemma lists_only_trans:
  assumes "lists_only s s'" and "lists_only s' s''"
  shows "lists_only s s''"
proof -
  obtain ps ls qs ms where "s' = s\<lparr>pages := ps, free_lists := ls\<rparr>" "length ps = length (pages s)"
      "s'' = s'\<lparr>pages := qs, free_lists := ms\<rparr>" "length qs = length (pages s')"
    using assms unfolding lists_only_def by blast
  then show ?thesis using lists_onlyI [of qs s ms] by simp
qed

lemma lists_only_fields:
  assumes "lists_only s s'"
  shows "num_pages s' = num_pages s" "page_array s' = page_array s"
    "buddy_base_phys s' = buddy_base_phys s" "va_offset s' = va_offset s"
    "m_hart s' = m_hart s" "m_locks s' = m_locks s" "m_mem s' = m_mem s"
    "length (pages s') = length (pages s)"
  using assms by (auto simp: lists_only_def)

lemma lists_only_machine:
  assumes "lists_only s s'"
  shows "lists_only (s\<lparr>m_hart := h, m_locks := l, m_mem := m\<rparr>) (s'\<lparr>m_hart := h, m_locks := l, m_mem := m\<rparr>)"
proof -
  obtain ps ls where s': "s' = s\<lparr>pages := ps, free_lists := ls\<rparr>" "length ps = length (pages s)"
    using assms unfolding lists_only_def by blast
  let ?t = "s\<lparr>m_hart := h, m_locks := l, m_mem := m\<rparr>"
  have "s'\<lparr>m_hart := h, m_locks := l, m_mem := m\<rparr> = ?t\<lparr>pages := ps, free_lists := ls\<rparr>"
    unfolding s'(1) by (rule buddy.equality) simp_all
  then show ?thesis using lists_onlyI [of ps ?t ls] s'(2) by simp
qed

lemma lists_only_static: "lists_only s s' \<Longrightarrow> buddy_static s' \<longleftrightarrow> buddy_static s"
  by (simp add: buddy_static_def lists_only_fields)

lemma lists_only_page_pa: "lists_only s s' \<Longrightarrow> page_pa s' i = page_pa s i"
  by (simp add: page_pa_def lists_only_fields)

section \<open>Splitting\<close>

lemma unat_uchar_int: "0 \<le> k \<Longrightarrow> k < 256 \<Longrightarrow> unat (word_of_int k :: uchar) = nat k"
  by (simp add: unat_eq_nat_uint uint_word_of_int)

lemma unat_uchar_nat: "k < 256 \<Longrightarrow> unat (of_nat k :: uchar) = k"
  by (simp add: unat_of_nat)

abbreviation bstate :: "'z buddy_scheme \<Rightarrow> (nat \<Rightarrow> nat list) \<Rightarrow> block set \<Rightarrow> block set \<Rightarrow> bool" where
  "bstate s fl A C \<equiv> binv (unat (num_pages s)) (page_array s) (pages s) (free_lists s) fl A C"

lemma split_step:
  assumes st: "buddy_static s" and inv: "bstate s fl A {(i, Suc k)}" and k: "k < 10"
    and i: "\<not> isf (pages s) i"
  shows "\<exists>s' fl'. split_blocks (of_nat i) (int (Suc k)) ord s =
            (if ord < int (Suc k) then split_blocks (of_nat i) (int k) ord s' else Inr s) \<and>
          lists_only s s' \<and> bstate s' fl' A {(i, k)} \<and> pages s' ! i = pages s ! i"
proof -
  let ?j = "i + 2 ^ k"
  let ?p = "(pages s ! ?j)\<lparr>pg_order := word_of_int (int k), pg_is_free := 1, pg_next := free_lists s ! k\<rparr>"
  let ?s = "s\<lparr>pages := (pages s)[?j := ?p],
              free_lists := (free_lists s)[k := slot_ptr (page_array s) ?j]\<rparr>"
  have j: "?j < unat (num_pages s)"
    using tiling_bound [OF binv_tilingD [OF inv], of i "Suc k"] two_pow_pos [of k] by (simp, linarith)
  then have jl: "?j < length (pages s)" "?j < 0x8000"
    using binv_nD [OF inv] static_bounds(2) [OF st] by simp_all
  have idx: "(of_nat i + 2 ^ k :: uint) = of_nat ?j" by simp
  have uidx: "ucast (of_nat ?j :: uint) = (of_nat ?j :: ulong)" using jl by (intro ucast_of_nat32_64) simp
  have inr: "\<not> num_pages s \<le> of_nat ?j" using j jl by (simp add: word_le_nat_alt unat_of_nat64 del: of_nat_add of_nat_power)
  have len: "k < length (free_lists s)" using binv_lenD [OF inv] k by simp
  have "split_blocks (of_nat i) (int (Suc k)) ord s =
      (if ord < int (Suc k) then split_blocks (of_nat i) (int k) ord ?s else Inr s)"
    using inr jl len page_slot_virt [OF st jl(1)]
    by (subst split_blocks.simps)
      (simp add: idx uidx Let_def slot_ptr_def [symmetric] fl_get_def fl_set_def page_upd_def
        del: of_nat_add of_nat_power)
  moreover have "lists_only s ?s" by (rule lists_onlyI) simp
  moreover have "bstate ?s (fl(k := ?j # fl k)) A {(i, k)}"
    using binv_split [OF inv k i, of "word_of_int (int k)" 1] k by (simp add: unat_uchar_nat)
  moreover have "pages ?s ! i = pages s ! i" using two_pow_pos [of k] by simp
  ultimately show ?thesis by blast
qed

lemma split_blocks_ok:
  "\<lbrakk>buddy_static s; bstate s fl A {(i, k + d)}; k + d \<le> 10; \<not> isf (pages s) i\<rbrakk> \<Longrightarrow>
   \<exists>s' fl'. split_blocks (of_nat i) (int (k + d)) (int k) s = Inr s' \<and> lists_only s s' \<and>
     bstate s' fl' A {(i, k)} \<and> pages s' ! i = pages s ! i"
proof (induction d arbitrary: s fl)
  case 0
  then show ?case by (subst split_blocks.simps) (auto intro!: exI [of _ s])
next
  case (Suc d)
  obtain s1 fl1 where s1: "split_blocks (of_nat i) (int (Suc (k + d))) (int k) s =
        split_blocks (of_nat i) (int (k + d)) (int k) s1"
      "lists_only s s1" "bstate s1 fl1 A {(i, k + d)}" "pages s1 ! i = pages s ! i"
    using split_step [of s fl A i "k + d" "int k"] Suc.prems by auto
  have "buddy_static s1" "\<not> isf (pages s1) i"
    using Suc.prems s1 lists_only_static by (auto simp: isf_def)
  then obtain s' fl' where "split_blocks (of_nat i) (int (k + d)) (int k) s1 = Inr s'"
      "lists_only s1 s'" "bstate s' fl' A {(i, k)}" "pages s' ! i = pages s1 ! i"
    using Suc.IH [OF _ s1(3)] Suc.prems by auto
  then show ?case using s1 by (auto intro: lists_only_trans)
qed

section \<open>alloc_pages\<close>

lemma alloc_block_ok:
  assumes st: "buddy_static s" and inv: "bstate s fl A {}" and k: "k + d \<le> 10"
    and hd: "fl (k + d) = i # is" and hart: "m_hart s = irq_save c" "lock_depth c + 1 \<noteq> 0"
  shows "\<exists>s'. alloc_block (int k) (int (k + d)) (free_lists s ! (k + d)) s = Inr (page_pa s i, s') \<and>
           (i, k) \<notin> A \<and> (\<exists>fl'. bstate s' fl' (insert (i, k) A) {}) \<and>
           lists_only (s\<lparr>m_hart := settled c, m_locks := (m_locks s)(BuddyLock := 0),
                         m_mem := fill (m_mem s) (page_pa s i) 0 (4096 * 2 ^ k)\<rparr>) s'"
proof -
  let ?b = "slot_ptr (page_array s) i"
  let ?s1 = "s\<lparr>pages := (pages s)[i := (pages s ! i)\<lparr>pg_order := of_nat k, pg_is_free := 0\<rparr>],
               free_lists := (free_lists s)[k + d := pg_next (pages s ! i)]\<rparr>"
  have kd: "k + d < 11" using k by simp
  have ch: "chain (page_array s) (pages s) (free_lists s ! (k + d)) (i # is)"
    using binv_chainD [OF inv kd] hd by simp
  then have il: "i < length (pages s)" and b: "free_lists s ! (k + d) = ?b" by simp_all
  have s1: "lists_only s ?s1" by (rule lists_onlyI) simp
  have st1: "buddy_static ?s1" using st lists_only_static [OF s1] by simp
  have inv1: "bstate ?s1 (fl(k + d := is)) A {(i, k + d)}" using binv_pop [OF inv kd hd] by simp
  have fi: "\<not> isf (pages ?s1) i" "pord (pages ?s1) i = k"
    using il k by (simp_all add: isf_update pord_update unat_uchar_nat)
  obtain s2 fl2 where s2: "split_blocks (of_nat i) (int (k + d)) (int k) ?s1 = Inr s2"
      "lists_only ?s1 s2" "bstate s2 fl2 A {(i, k)}" "pages s2 ! i = pages ?s1 ! i"
    using split_blocks_ok [OF st1 inv1 k fi(1)] by blast
  have s02: "lists_only s s2" using s1 s2(2) by (rule lists_only_trans)
  note f2 = lists_only_fields [OF s02]
  have st2: "buddy_static s2" using st lists_only_static [OF s02] by simp
  have inv2: "bstate s2 fl2 (insert (i, k) A) {}"
    using k fi s2(4) by (intro binv_commit [OF s2(3)]) (simp_all add: isf_def pord_def)
  have bound: "i + 2 ^ k \<le> unat (num_pages s2)"
    using tiling_bound [OF binv_tilingD [OF s2(3)], of i k] by simp
  then have iln: "i < unat (num_pages s2)" using two_pow_pos [of k] by linarith
  let ?s3 = "s2\<lparr>m_hart := settled c, m_locks := (m_locks s2)(BuddyLock := 0)\<rparr>"
  have u: "spin_unlock BuddyLock s2 = Inr ?s3"
    using hart f2 by (intro spin_unlock_after) simp_all
  have "ram_range ?s3 (PHYS_TO_VIRT ?s3 (page_pa s2 i)) (unat (push_bit k PAGE_SIZE :: ulong))"
    using page_pa_ram [OF st2 bound] k
    by (simp add: unat_shifted_page ram_range_def PHYS_TO_VIRT_def)
  then have z: "kmemset (PHYS_TO_VIRT ?s3 (page_pa s2 i)) 0 (push_bit k PAGE_SIZE) ?s3 =
      Inr (?s3\<lparr>m_mem := fill (m_mem s2) (page_pa s2 i) 0 (4096 * 2 ^ k)\<rparr>)"
    using k by (simp add: kmemset_ok unat_shifted_page PHYS_TO_VIRT_def)
  let ?s4 = "?s3\<lparr>m_mem := fill (m_mem s2) (page_pa s2 i) 0 (4096 * 2 ^ k)\<rparr>"
  have pa: "page_addr s2 (scast (of_nat i :: uint)) = Inr (page_pa s2 i)"
    by (rule page_addr_ok [OF st2 iln])
  have pi: "page_index ?s1 ?b = of_nat i" using page_index_slot [OF st il] by (simp add: page_index_def)
  have "alloc_block (int k) (int (k + d)) ?b s = Inr (page_pa s2 i, ?s4)"
    using page_slot_virt [OF st il] binv_lenD [OF inv] kd il s2(1) pi pa u z
    by (simp add: alloc_block_def Let_def page_upd_def fl_set_def del: of_nat_add)
  moreover have "page_pa s2 i = page_pa s i" using lists_only_page_pa [OF s02] .
  moreover have "(i, k) \<notin> A" using binv_apartD [OF s2(3)] by auto
  moreover have "lists_only (s\<lparr>m_hart := settled c, m_locks := (m_locks s)(BuddyLock := 0),
      m_mem := fill (m_mem s) (page_pa s i) 0 (4096 * 2 ^ k)\<rparr>) ?s4"
    using lists_only_machine [OF s02] f2 calculation(2) by simp
  moreover have "bstate ?s4 fl2 (insert (i, k) A) {}" using inv2 by simp
  ultimately show ?thesis unfolding b by (auto intro!: exI [of _ ?s4])
qed

text \<open>The scan over the orders stops at the first non-empty list.\<close>

lemma alloc_pages_for_ok:
  assumes st: "buddy_static s" and inv: "bstate s fl A {}"
    and hart: "m_hart s = irq_save c" "lock_depth c + 1 \<noteq> 0"
  shows "k + d \<le> 11 \<Longrightarrow>
    (\<exists>i s'. alloc_pages_for (int k) (int (k + d)) s = Inr (page_pa s i, s') \<and>
       (i, k) \<notin> A \<and> (\<exists>fl'. bstate s' fl' (insert (i, k) A) {}) \<and>
       lists_only (s\<lparr>m_hart := settled c, m_locks := (m_locks s)(BuddyLock := 0),
                     m_mem := fill (m_mem s) (page_pa s i) 0 (4096 * 2 ^ k)\<rparr>) s') \<or>
    (alloc_pages_for (int k) (int (k + d)) s =
       Inr (0, s\<lparr>m_hart := settled c, m_locks := (m_locks s)(BuddyLock := 0)\<rparr>) \<and>
     (\<forall>l. k + d \<le> l \<longrightarrow> l \<le> 10 \<longrightarrow> free_lists s ! l = 0))"
proof (induction "11 - (k + d)" arbitrary: d)
  case 0
  then have "\<not> int (k + d) \<le> MAX_ORDER" "\<forall>l. k + d \<le> l \<longrightarrow> l \<le> 10 \<longrightarrow> free_lists s ! l = 0"
    by (auto simp: MAX_ORDER_def)
  then show ?case
    using spin_unlock_after [OF hart(2,1), of BuddyLock] by (subst alloc_pages_for.simps) simp
next
  case (Suc m)
  then have kd: "k + d \<le> 10" by simp
  have get: "fl_get s (int (k + d)) = Inr (free_lists s ! (k + d))"
    using binv_lenD [OF inv] kd by (simp add: fl_get_def del: of_nat_add)
  have ch: "chain (page_array s) (pages s) (free_lists s ! (k + d)) (fl (k + d))"
    using binv_chainD [OF inv] kd by simp
  show ?case
  proof (cases "fl (k + d)")
    case Nil
    then have z: "free_lists s ! (k + d) = 0" using ch by simp
    have "alloc_pages_for (int k) (int (k + d)) s = alloc_pages_for (int k) (int (k + Suc d)) s"
      using get kd z by (subst alloc_pages_for.simps) (simp add: MAX_ORDER_def algebra_simps)
    moreover have "(\<forall>l. k + Suc d \<le> l \<longrightarrow> l \<le> 10 \<longrightarrow> free_lists s ! l = 0) \<Longrightarrow>
        (\<forall>l. k + d \<le> l \<longrightarrow> l \<le> 10 \<longrightarrow> free_lists s ! l = 0)"
      using z by (metis add_Suc_right le_neq_implies_less Suc_leI)
    moreover have "m = 11 - (k + Suc d)" "k + Suc d \<le> 11" using Suc.hyps(2) kd by simp_all
    ultimately show ?thesis using Suc.hyps(1) [of "Suc d"] by presburger
  next
    case (Cons i "is")
    have "free_lists s ! (k + d) \<noteq> 0"
      using ch Cons slot_ptr_nonzero [OF st, of i] by auto
    then have "alloc_pages_for (int k) (int (k + d)) s =
        alloc_block (int k) (int (k + d)) (free_lists s ! (k + d)) s"
      using get kd by (subst alloc_pages_for.simps) (simp add: MAX_ORDER_def)
    then show ?thesis using alloc_block_ok [OF st inv kd Cons hart] by auto
  qed
qed

text \<open>\<open>alloc_pages\<close> on every state that satisfies the invariant.\<close>

lemma alloc_pages_ok:
  assumes inv: "buddy_inv A s" and lk: "lock_ready BuddyLock s" and k: "k \<le> 10"
  shows "(\<exists>i s'. alloc_pages (int k) s = Inr (page_pa s i, s') \<and>
            (i, k) \<notin> A \<and> buddy_inv (insert (i, k) A) s' \<and>
            lists_only (s\<lparr>m_hart := settled (m_hart s),
                          m_mem := fill (m_mem s) (page_pa s i) 0 (4096 * 2 ^ k)\<rparr>) s') \<or>
         (alloc_pages (int k) s = Inr (0, s\<lparr>m_hart := settled (m_hart s)\<rparr>) \<and>
          (\<forall>l. k \<le> l \<longrightarrow> l \<le> 10 \<longrightarrow> free_lists s ! l = 0))"
proof -
  let ?s1 = "s\<lparr>m_hart := irq_save (m_hart s), m_locks := (m_locks s)(BuddyLock := 1)\<rparr>"
  have lock: "spin_lock BuddyLock s = Inr ?s1" using lk by (simp add: lock_ready_def spin_lock_free)
  have word: "((m_locks s)(BuddyLock := 1))(BuddyLock := 0) = m_locks s"
    using lk by (auto simp: lock_ready_def)
  have ord: "alloc_pages (int k) s = alloc_pages_for (int k) (int k) ?s1"
    using k lock by (simp add: alloc_pages_def MAX_ORDER_def)
  have st: "buddy_static ?s1" using inv by (simp add: buddy_inv_def buddy_static_def)
  obtain fl where fl: "bstate ?s1 fl A {}" using inv by (auto simp: buddy_inv_def)
  have pa: "page_pa ?s1 i = page_pa s i" for i by (simp add: page_pa_def)
  have depth: "lock_depth (m_hart s) + 1 \<noteq> 0" using lk by (simp add: lock_ready_def)
  note word' = word [unfolded fun_upd_upd]
  from alloc_pages_for_ok [OF st fl _ depth, of k 0] k
  consider i s' where "alloc_pages (int k) s = Inr (page_pa s i, s')" "(i, k) \<notin> A"
      "\<exists>fl'. bstate s' fl' (insert (i, k) A) {}"
      "lists_only (s\<lparr>m_hart := settled (m_hart s), m_locks := m_locks s,
                     m_mem := fill (m_mem s) (page_pa s i) 0 (4096 * 2 ^ k)\<rparr>) s'"
    | "alloc_pages (int k) s = Inr (0, s\<lparr>m_hart := settled (m_hart s), m_locks := m_locks s\<rparr>)"
      "\<forall>l. k \<le> l \<longrightarrow> l \<le> 10 \<longrightarrow> free_lists s ! l = 0"
    by (auto simp: ord pa word')
  then show ?thesis
  proof cases
    case 1
    have "buddy_static s'"
      using inv lists_only_static [OF 1(4)] by (simp add: buddy_inv_def buddy_static_def)
    then have "buddy_inv (insert (i, k) A) s'" using 1(3) by (simp add: buddy_inv_def)
    with 1 show ?thesis by auto
  qed simp
qed

text \<open>With empty lists from the order asked for upwards there is nothing to give.\<close>

lemma alloc_pages_for_exhausted:
  assumes "length (free_lists s) = 11" and "\<And>l. k \<le> l \<Longrightarrow> l \<le> 10 \<Longrightarrow> free_lists s ! l = 0"
  shows "k + d \<le> 11 \<Longrightarrow> alloc_pages_for (int k) (int (k + d)) s = rbind (spin_unlock BuddyLock s) (\<lambda>s. Inr (0, s))"
proof (induction "11 - (k + d)" arbitrary: d)
  case 0
  then show ?case by (subst alloc_pages_for.simps) (simp add: MAX_ORDER_def)
next
  case (Suc m)
  then have kd: "k + d \<le> 10" by simp
  have "fl_get s (int (k + d)) = Inr 0" using assms kd by (simp add: fl_get_def del: of_nat_add)
  then have "alloc_pages_for (int k) (int (k + d)) s = alloc_pages_for (int k) (int (k + Suc d)) s"
    using kd by (subst alloc_pages_for.simps) (simp add: MAX_ORDER_def algebra_simps)
  moreover have "m = 11 - (k + Suc d)" "k + Suc d \<le> 11" using Suc.hyps(2) kd by simp_all
  ultimately show ?case using Suc.hyps(1) [of "Suc d"] by presburger
qed

lemma alloc_pages_exhausted:
  assumes lk: "lock_ready BuddyLock s" and k: "k \<le> 10" and len: "length (free_lists s) = 11"
    and none: "\<And>l. k \<le> l \<Longrightarrow> l \<le> 10 \<Longrightarrow> free_lists s ! l = 0"
  shows "alloc_pages (int k) s = Inr (0, s\<lparr>m_hart := settled (m_hart s)\<rparr>)"
proof -
  let ?s1 = "s\<lparr>m_hart := irq_save (m_hart s), m_locks := (m_locks s)(BuddyLock := 1)\<rparr>"
  have lock: "spin_lock BuddyLock s = Inr ?s1" using lk by (simp add: lock_ready_def spin_lock_free)
  have depth: "lock_depth (m_hart s) + 1 \<noteq> 0" using lk by (simp add: lock_ready_def)
  have "((m_locks s)(BuddyLock := 1))(BuddyLock := 0) = m_locks s"
    using lk by (auto simp: lock_ready_def)
  then have "spin_unlock BuddyLock ?s1 = Inr (s\<lparr>m_hart := settled (m_hart s)\<rparr>)"
    using spin_unlock_after [OF depth, of ?s1 BuddyLock] by simp
  then show ?thesis
    using alloc_pages_for_exhausted [of ?s1 k 0] len none k lock by (simp add: alloc_pages_def MAX_ORDER_def)
qed

end
