(* ===== verification/Buddy_Free.thy ===== *)
theory Buddy_Free
  imports Buddy_Alloc
begin

text \<open>
  The behaviour of \<open>free_pages\<close>. Its dereferences of page structures use physical addresses,
  so the lemmas on a successful release are for \<open>va_offset = 0\<close>, and a separate lemma says
  what happens once the linear map is in force. The released block is merged with its free
  buddies and put on a free list, or the code halts in \<open>get_page_struct\<close> because the number
  of a buddy is not below \<open>num_pages\<close>.
\<close>

section \<open>Address arithmetic of a release\<close>

lemma page_slot_phys [simp]:
  "\<lbrakk>buddy_static s; va_offset s = 0; i < length (pages s)\<rbrakk> \<Longrightarrow>
   page_slot s (slot_ptr (page_array s) i) = Inr i"
  using page_slot_virt [of s i] by (simp add: PHYS_TO_VIRT_def)

lemma page_number:
  assumes "i < 2 ^ 32"
  shows "(page_pa s i - buddy_base_phys s) div PAGE_SIZE = of_nat i"
proof -
  have "unat (of_nat i * PAGE_SIZE :: ulong) = i * 4096" using assms by (intro unat_of_nat_scaled) simp_all
  then have "unat ((of_nat i * PAGE_SIZE :: ulong) div PAGE_SIZE) = i" by (simp add: unat_div)
  then show ?thesis using assms by (simp add: page_pa_def word_unat_eq_iff unat_of_nat64)
qed

lemma get_page_struct_ok:
  assumes "i < unat (num_pages s)" and "i < 2 ^ 32"
  shows "get_page_struct s (page_pa s i) = Inr (slot_ptr (page_array s) i)"
  using assms page_number [OF assms(2), of s]
  by (simp add: get_page_struct_def Let_def slot_ptr_def word_le_nat_alt unat_of_nat64)

lemma get_page_struct_halt:
  assumes "unat (num_pages s) \<le> i" and "i < 2 ^ 32"
  shows "get_page_struct s (page_pa s i) = Inl (Halt H_get_page_struct)"
  using assms page_number [OF assms(2), of s]
  by (simp add: get_page_struct_def Let_def word_le_nat_alt unat_of_nat64)

lemma nat_unset_bit: "bit (m :: nat) n \<Longrightarrow> unset_bit n m = m - 2 ^ n"
proof -
  assume b: "bit m n"
  have "m = set_bit n (unset_bit n m)"
    by (rule bit_eqI) (use b in \<open>auto simp: bit_set_bit_iff bit_unset_bit_iff\<close>)
  also have "\<dots> = unset_bit n m + 2 ^ n" by (simp add: set_bit_eq bit_unset_bit_iff)
  finally show ?thesis by simp
qed

lemma nat_xor_bit: "(m :: nat) XOR 2 ^ n = (if bit m n then m - 2 ^ n else m + 2 ^ n)"
proof -
  have "m XOR 2 ^ n = flip_bit n m" by (simp add: flip_bit_eq_xor push_bit_eq_mult)
  then show ?thesis by (simp add: flip_bit_eq_if set_bit_eq nat_unset_bit)
qed

lemma nat_xor_page: "(i * 4096) XOR (4096 * 2 ^ k) = bud i k * (4096 :: nat)"
proof -
  have e: "(4096 :: nat) * 2 ^ k = 2 ^ (12 + k)" by (simp add: power_add)
  have "i * 4096 = push_bit 12 i" by (simp add: push_bit_eq_mult)
  then have "bit (i * 4096) (12 + k) \<longleftrightarrow> bit i k" by (simp add: bit_push_bit_iff)
  then show ?thesis unfolding e nat_xor_bit bud_def
    by (simp add: power_add diff_mult_distrib add_mult_distrib mult.commute)
qed

lemma bud_bound: "i < 2 ^ 31 \<Longrightarrow> k < 11 \<Longrightarrow> bud i k < 2 ^ 32"
proof -
  assume "i < 2 ^ 31" and k: "k < 11"
  moreover have "(2 :: nat) ^ k \<le> 2 ^ 10" using k by (intro power_increasing) simp_all
  ultimately show ?thesis by (auto simp: bud_def intro: le_less_trans [OF diff_le_self])
qed

lemma buddy_of_page:
  assumes "i < 2 ^ 31" and "k < 11"
  shows "buddy_of s (page_pa s i) (int k) = page_pa s (bud i k)"
proof -
  have u: "unat (of_nat i * PAGE_SIZE :: ulong) = i * 4096"
    using assms by (intro unat_of_nat_scaled) simp_all
  have b: "unat (of_nat (bud i k) * PAGE_SIZE :: ulong) = bud i k * 4096"
    using bud_bound [OF assms] by (intro unat_of_nat_scaled) simp_all
  have "unat ((of_nat i * PAGE_SIZE :: ulong) XOR push_bit k PAGE_SIZE) = bud i k * 4096"
    using assms(2) by (simp add: unsigned_xor_eq u unat_shifted_page nat_xor_page)
  then have "(of_nat i * PAGE_SIZE :: ulong) XOR push_bit k PAGE_SIZE = of_nat (bud i k) * PAGE_SIZE"
    using b by (simp add: word_unat_eq_iff)
  then show ?thesis by (simp add: buddy_of_def Let_def page_pa_def)
qed

lemma page_pa_less:
  "\<lbrakk>buddy_static s; i < 2 ^ 32; j < 2 ^ 32\<rbrakk> \<Longrightarrow> page_pa s i < page_pa s j \<longleftrightarrow> i < j"
  by (simp add: word_less_nat_alt unat_page_pa)

section \<open>Unlinking a buddy from its free list\<close>

lemma find_link_ok:
  assumes st: "buddy_static s" "va_offset s = 0"
  shows "\<lbrakk>link_get s L = Inr p; chain (page_array s) (pages s) p (xs @ X # ys); X \<notin> set xs;
          length xs < fuel\<rbrakk> \<Longrightarrow>
    find_link fuel s L (slot_ptr (page_array s) X) = Inr (if xs = [] then L else LNext (last xs)) \<and>
    link_get s (if xs = [] then L else LNext (last xs)) = Inr (slot_ptr (page_array s) X)"
proof (induction xs arbitrary: L p fuel)
  case Nil
  then obtain f where "fuel = Suc f" by (cases fuel) auto
  with Nil show ?case by simp
next
  case (Cons x xs)
  then obtain f where f: "fuel = Suc f" by (cases fuel) auto
  have x: "x < length (pages s)" "p = slot_ptr (page_array s) x" using Cons.prems(2) by simp_all
  have X: "X < length (pages s)" using chain_bound [OF Cons.prems(2), of X] by simp
  have "p \<noteq> slot_ptr (page_array s) X"
    using slot_ptr_inj [OF st(1) x(1) X] Cons.prems(3) x(2) by auto
  then have "find_link fuel s L (slot_ptr (page_array s) X) =
      find_link f s (LNext x) (slot_ptr (page_array s) X)"
    using Cons.prems(1) x st slot_ptr_nonzero [OF st(1) x(1)] by (simp add: f)
  then show ?case using Cons.IH [of "LNext x" "pg_next (pages s ! x)" f] Cons.prems f by auto
qed

lemma chain_unlink:
  "\<lbrakk>chain pa PS p (xs @ X # ys); distinct (xs @ X # ys); xs \<noteq> []\<rbrakk> \<Longrightarrow>
   chain pa (PS[last xs := (PS ! last xs)\<lparr>pg_next := pg_next (PS ! X)\<rparr>]) p (xs @ ys)"
proof (induction xs arbitrary: p)
  case (Cons x xs)
  show ?case
  proof (cases "xs = []")
    case True
    then have "chain pa PS (pg_next (PS ! X)) ys" "x \<notin> set ys" using Cons.prems by auto
    then have "chain pa (PS[x := (PS ! x)\<lparr>pg_next := pg_next (PS ! X)\<rparr>]) (pg_next (PS ! X)) ys"
      by (intro chain_update_other) simp_all
    then show ?thesis using True Cons.prems by simp
  next
    case False
    then have "last xs \<noteq> x" using Cons.prems(2) last_in_set [OF False] by auto
    then show ?thesis using False Cons by simp
  qed
qed simp

lemma distinct_below_length: "distinct xs \<Longrightarrow> (\<And>x. x \<in> set xs \<Longrightarrow> x < n) \<Longrightarrow> length xs \<le> n"
  by (metis card_lessThan card_mono distinct_card finite_lessThan lessThan_iff subsetI)

text \<open>The list of the buddy's order loses the buddy, the other lists stay, and the order and
  free fields of every page structure stay.\<close>

lemma unlink_buddy_ok:
  assumes st: "buddy_static s" "va_offset s = 0" and inv: "bstate s fl A C" and k: "k < 11"
    and X: "X \<in> set (fl k)"
  shows "\<exists>s'. unlink_buddy (int k) (slot_ptr (page_array s) X) X s = Inr s' \<and> lists_only s s' \<and>
     length (free_lists s') = 11 \<and>
     (\<forall>l < 11. chain (page_array s) (pages s') (free_lists s' ! l) ((fl(k := remove1 X (fl k))) l)) \<and>
     (\<forall>x. isf (pages s') x = isf (pages s) x \<and> pord (pages s') x = pord (pages s) x)"
proof -
  obtain xs ys where xy: "fl k = xs @ X # ys" using X by (meson split_list)
  have dist: "distinct (xs @ X # ys)" using binv_distinctD [OF inv k] xy by simp
  have ch: "chain (page_array s) (pages s) (free_lists s ! k) (xs @ X # ys)"
    using binv_chainD [OF inv k] xy by simp
  have len: "length (free_lists s) = 11" using binv_lenD [OF inv] .
  have rm: "remove1 X (fl k) = xs @ ys" using xy dist by (simp add: remove1_append)
  have hd: "link_get s (LHead (int k)) = Inr (free_lists s ! k)" using len k by (simp add: fl_get_def)
  have "length (xs @ X # ys) \<le> length (pages s)"
    using dist chain_bound [OF ch] by (rule distinct_below_length)
  then have fuel: "length xs < length (pages s) + 2" by simp
  have fnd: "find_link (length (pages s) + 2) s (LHead (int k)) (slot_ptr (page_array s) X) =
        Inr (if xs = [] then LHead (int k) else LNext (last xs))"
      "link_get s (if xs = [] then LHead (int k) else LNext (last xs)) = Inr (slot_ptr (page_array s) X)"
    using find_link_ok [OF st hd ch _ fuel] dist by (simp_all del: find_link.simps)
  show ?thesis
  proof (cases "xs = []")
    case True
    let ?s = "s\<lparr>free_lists := (free_lists s)[k := pg_next (pages s ! X)]\<rparr>"
    have "unlink_buddy (int k) (slot_ptr (page_array s) X) X s = Inr ?s"
      using fnd True len k by (simp add: unlink_buddy_def fl_set_def)
    moreover have "lists_only s ?s" using lists_onlyI [of "pages s" s] by simp
    moreover have "chain (page_array s) (pages s) (free_lists ?s ! l) ((fl(k := remove1 X (fl k))) l)"
      if "l < 11" for l
      using binv_chainD [OF inv that] ch len rm True k by (cases "l = k") simp_all
    ultimately show ?thesis using len by (intro exI [of _ ?s]) simp
  next
    case False
    let ?q = "(pages s ! last xs)\<lparr>pg_next := pg_next (pages s ! X)\<rparr>"
    let ?s = "s\<lparr>pages := (pages s)[last xs := ?q]\<rparr>"
    have lx: "last xs \<in> set (fl k)" using False xy by simp
    then have ll: "last xs < length (pages s)" using chain_bound [OF ch] xy by simp
    have "unlink_buddy (int k) (slot_ptr (page_array s) X) X s = Inr ?s"
      using fnd False by (simp add: unlink_buddy_def page_upd_def)
    moreover have "lists_only s ?s" by (rule lists_only_pages) simp
    moreover have "chain (page_array s) (pages ?s) (free_lists s ! l) ((fl(k := remove1 X (fl k))) l)"
      if l: "l < 11" for l
    proof (cases "l = k")
      case True
      then show ?thesis using chain_unlink [OF ch dist False] rm by simp
    next
      case False
      then have "last xs \<notin> set (fl l)"
        using binv_freeD [OF inv, of "last xs"] lx k l by (auto simp: in_freeset)
      then show ?thesis using binv_chainD [OF inv l] False by (simp add: chain_update_other)
    qed
    moreover have "isf (pages ?s) x = isf (pages s) x \<and> pord (pages ?s) x = pord (pages s) x" for x
      using ll by (simp add: isf_def pord_def nth_list_update)
    ultimately show ?thesis using len by (intro exI [of _ ?s]) simp
  qed
qed

section \<open>Merging\<close>

lemma uint_eq_int: "uint w = int k \<longleftrightarrow> unat w = k"
  by (metis of_nat_eq_iff uint_nat)

lemma merge_step:
  assumes st: "buddy_static s" "va_offset s = 0" and inv: "bstate s fl A {(c, k)}" and k: "k < 10"
    and X: "bud c k < unat (num_pages s)" "isf (pages s) (bud c k)" "pord (pages s) (bud c k) = k"
  shows "\<exists>s' fl'. merge_buddies (int k) (page_pa s c) s =
           merge_buddies (int (Suc k)) (page_pa s' (lo c k)) s' \<and>
           lists_only s s' \<and> bstate s' fl' A {(lo c k, Suc k)}"
proof -
  let ?X = "bud c k" and ?fl = "fl(k := remove1 (bud c k) (fl k))"
  have cn: "c < unat (num_pages s)" using tiling_start_bound [OF binv_tilingD [OF inv], of c k] by simp
  then have small: "c < 2 ^ 31" "?X < 2 ^ 32" using static_bounds(2) [OF st(1)] X(1) by simp_all
  have Xl: "?X < length (pages s)" using X(1) binv_nD [OF inv] by simp
  have Xf: "?X \<in> set (fl k)" using binv_buddy_free [OF inv X] k by (simp add: in_freeset)
  obtain s1 where s1: "unlink_buddy (int k) (slot_ptr (page_array s) ?X) ?X s = Inr s1" "lists_only s s1"
      "length (free_lists s1) = 11"
      "\<And>l. l < 11 \<Longrightarrow> chain (page_array s) (pages s1) (free_lists s1 ! l) (?fl l)"
      "\<And>x. isf (pages s1) x = isf (pages s) x" "\<And>x. pord (pages s1) x = pord (pages s) x"
    using unlink_buddy_ok [OF st inv _ Xf] k by auto
  note f1 = lists_only_fields [OF s1(2)]
  let ?s2 = "page_upd (\<lambda>p. p\<lparr>pg_is_free := 0\<rparr>) ?X s1"
  have l2: "lists_only s ?s2"
    using s1(2) lists_only_pages [of _ s1] by (auto simp: page_upd_def intro: lists_only_trans)
  have po: "pord (pages ?s2) x = pord (pages s) x" for x
    using s1(6) [of x] Xl f1(8) by (cases "x = ?X") (simp_all add: page_upd_def pord_def)
  have fr: "isf (pages ?s2) x \<longleftrightarrow> isf (pages s) x \<and> x \<noteq> ?X" for x
    using s1(5) [of x] Xl f1 by (simp add: page_upd_def isf_update)
  have "bstate ?s2 ?fl A {(lo c k, Suc k)}"
  proof -
    have "binv (unat (num_pages s)) (page_array s) (pages ?s2) (free_lists ?s2) ?fl A {(lo c k, Suc k)}"
    proof (rule binv_merge [OF inv k X])
      show "chain (page_array s) (pages ?s2) (free_lists ?s2 ! l) (?fl l)" if "l < 11" for l
        using s1(4) [OF that] by (simp add: page_upd_def chain_update_other)
    qed (use s1 f1 po fr in \<open>simp_all add: page_upd_def\<close>)
    then show ?thesis using lists_only_fields [OF l2] by simp
  qed
  moreover have "merge_buddies (int k) (page_pa s c) s =
      merge_buddies (int (Suc k)) (page_pa s (lo c k)) ?s2"
  proof -
    have "(if page_pa s ?X < page_pa s c then page_pa s ?X else page_pa s c) = page_pa s (lo c k)"
      using page_pa_less [OF st(1), of ?X c] small lo_min [of c k] by (auto simp: min_def)
    moreover have "pg_is_free (pages s ! ?X) \<noteq> 0" "uint (pg_order (pages s ! ?X)) = int k"
      using X by (simp_all add: isf_def pord_def uint_eq_int)
    ultimately show ?thesis
      using k s1(1) get_page_struct_ok [OF X(1) small(2)] page_slot_phys [OF st Xl]
        buddy_of_page [OF small(1), of k s]
      by (subst merge_buddies.simps) (simp add: MAX_ORDER_def Let_def add.commute)
  qed
  ultimately show ?thesis using l2 lists_only_page_pa [OF l2] by (intro exI [of _ ?s2] exI [of _ ?fl]) simp
qed

lemma merge_stop:
  assumes st: "buddy_static s" "va_offset s = 0" and inv: "bstate s fl A {(c, k)}" and k: "k < 10"
    and X: "bud c k < unat (num_pages s)" "\<not> (isf (pages s) (bud c k) \<and> pord (pages s) (bud c k) = k)"
  shows "merge_buddies (int k) (page_pa s c) s = Inr (int k, page_pa s c, s)"
proof -
  have "c < unat (num_pages s)" using tiling_start_bound [OF binv_tilingD [OF inv], of c k] by simp
  then have small: "c < 2 ^ 31" "bud c k < 2 ^ 32" "bud c k < length (pages s)"
    using static_bounds(2) [OF st(1)] X(1) binv_nD [OF inv] by simp_all
  have "pg_is_free (pages s ! bud c k) = 0 \<or> uint (pg_order (pages s ! bud c k)) \<noteq> int k"
    using X(2) by (auto simp: isf_def pord_def uint_eq_int)
  then show ?thesis
    using k get_page_struct_ok [OF X(1) small(2)] page_slot_phys [OF st small(3)]
      buddy_of_page [OF small(1), of k s]
    by (subst merge_buddies.simps) (simp add: MAX_ORDER_def Let_def)
qed

lemma merge_halt:
  assumes st: "buddy_static s" and inv: "bstate s fl A {(c, k)}" and k: "k < 10"
    and X: "unat (num_pages s) \<le> bud c k"
  shows "merge_buddies (int k) (page_pa s c) s = Inl (Halt H_get_page_struct)"
proof -
  have "c < unat (num_pages s)" using tiling_start_bound [OF binv_tilingD [OF inv], of c k] by simp
  then have c: "c < 2 ^ 31" using static_bounds(2) [OF st] by simp
  then show ?thesis
    using k get_page_struct_halt [OF X bud_bound [OF c]] buddy_of_page [OF c, of k s]
    by (subst merge_buddies.simps) (simp add: MAX_ORDER_def Let_def)
qed

text \<open>Every buddy the merging may look at is a managed page.\<close>

definition buddies_in_range :: "nat \<Rightarrow> bool" where
  "buddies_in_range n \<longleftrightarrow> (\<forall>x < n. \<forall>k < 10. bud x k < n)"

lemma merge_buddies_ok:
  "\<lbrakk>buddy_static s; va_offset s = 0; bstate s fl A {(c, k)}; k \<le> 10\<rbrakk> \<Longrightarrow>
   (\<exists>k' c' s' fl'. merge_buddies (int k) (page_pa s c) s = Inr (int k', page_pa s c', s') \<and> k' \<le> 10 \<and>
      lists_only s s' \<and> bstate s' fl' A {(c', k')} \<and> (k' < 10 \<longrightarrow> (bud c' k', k') \<notin> freeset fl')) \<or>
   (merge_buddies (int k) (page_pa s c) s = Inl (Halt H_get_page_struct) \<and>
    \<not> buddies_in_range (unat (num_pages s)))"
proof (induction "10 - k" arbitrary: k c s fl)
  case 0
  then have "merge_buddies (int k) (page_pa s c) s = Inr (int k, page_pa s c, s)"
    by (subst merge_buddies.simps) (simp add: MAX_ORDER_def)
  with 0 show ?case by (intro disjI1 exI conjI) (assumption | simp)+
next
  case (Suc m)
  then have k: "k < 10" by simp
  let ?X = "bud c k"
  have cn: "c < unat (num_pages s)"
    using tiling_start_bound [OF binv_tilingD [OF Suc.prems(3)], of c k] by simp
  consider "unat (num_pages s) \<le> ?X"
    | "?X < unat (num_pages s)" "\<not> (isf (pages s) ?X \<and> pord (pages s) ?X = k)"
    | "?X < unat (num_pages s)" "isf (pages s) ?X" "pord (pages s) ?X = k" by linarith
  then show ?case
  proof cases
    case 1
    then have "\<not> buddies_in_range (unat (num_pages s))"
      using cn k unfolding buddies_in_range_def by (meson not_le)
    then show ?thesis using merge_halt [OF Suc.prems(1,3) k 1] by simp
  next
    case 2
    have "(?X, k) \<notin> freeset fl" using binv_freeD [OF Suc.prems(3), of ?X k] 2(2) by auto
    then have "\<exists>fl'. bstate s fl' A {(c, k)} \<and> (k < 10 \<longrightarrow> (?X, k) \<notin> freeset fl')"
      using Suc.prems(3) by blast
    then show ?thesis
      using merge_stop [OF Suc.prems(1-3) k 2] Suc.prems(4) lists_only_refl [of s] by blast
  next
    case 3
    obtain s1 fl1 where s1: "merge_buddies (int k) (page_pa s c) s =
          merge_buddies (int (Suc k)) (page_pa s1 (lo c k)) s1"
        "lists_only s s1" "bstate s1 fl1 A {(lo c k, Suc k)}"
      using merge_step [OF Suc.prems(1-3) k 3] by blast
    have "buddy_static s1" "va_offset s1 = 0" "num_pages s1 = num_pages s" "m = 10 - Suc k" "Suc k \<le> 10"
      using Suc lists_only_static [OF s1(2)] lists_only_fields [OF s1(2)] k by simp_all
    moreover note Suc.hyps(1) [OF _ _ _ s1(3)] lists_only_page_pa [OF s1(2)]
    ultimately show ?thesis using s1(1) lists_only_trans [OF s1(2)] by (metis (no_types, lifting))
  qed
qed

section \<open>free_pages\<close>

lemma push_free_at:
  assumes st: "buddy_static s" "va_offset s = 0" and n: "n \<le> unat (num_pages s)" and k: "k < 11"
    and inv: "binv n (page_array s) (pages s) (free_lists s) fl A {(c, k)}"
  shows "\<exists>s' fl'. push_free (int k) (page_pa s c) s = Inr s' \<and> lists_only s s' \<and>
           binv n (page_array s') (pages s') (free_lists s') fl' A {} \<and>
           (\<forall>x. x \<noteq> c \<longrightarrow> pages s' ! x = pages s ! x) \<and> freeset fl' = insert (c, k) (freeset fl)"
proof -
  let ?s = "s\<lparr>pages := (pages s)[c := (pages s ! c)\<lparr>pg_order := of_nat k, pg_is_free := 1,
                                     pg_next := free_lists s ! k\<rparr>],
              free_lists := (free_lists s)[k := slot_ptr (page_array s) c]\<rparr>"
  have "c < n" using tiling_start_bound [OF binv_tilingD [OF inv], of c k] by simp
  then have c: "c < unat (num_pages s)" and cl: "c < length (pages s)" "c < 2 ^ 32"
    using n binv_nD [OF inv] static_bounds(2) [OF st(1)] by simp_all
  have "push_free (int k) (page_pa s c) s = Inr ?s"
    using get_page_struct_ok [OF c cl(2)] page_slot_phys [OF st cl(1)] binv_lenD [OF inv] k
    by (simp add: push_free_def fl_get_def fl_set_def page_upd_def)
  moreover have "lists_only s ?s" by (rule lists_onlyI) simp
  moreover have "binv n (page_array ?s) (pages ?s) (free_lists ?s) (fl(k := c # fl k)) A {}"
    using binv_push [OF inv k, of "of_nat k" 1] k by (simp add: unat_uchar_nat)
  moreover have "freeset (fl(k := c # fl k)) = insert (c, k) (freeset fl)" by (rule freeset_push [OF k])
  ultimately show ?thesis by (intro exI [of _ ?s] exI [of _ "fl(k := c # fl k)"]) simp
qed

lemma push_free_ok:
  assumes st: "buddy_static s" "va_offset s = 0" and inv: "bstate s fl A {(c, k)}" and k: "k < 11"
  shows "\<exists>s' fl'. push_free (int k) (page_pa s c) s = Inr s' \<and> lists_only s s' \<and> bstate s' fl' A {} \<and>
           (\<forall>x. x \<noteq> c \<longrightarrow> pages s' ! x = pages s ! x) \<and> freeset fl' = insert (c, k) (freeset fl)"
proof -
  obtain s' fl' where s': "push_free (int k) (page_pa s c) s = Inr s'" "lists_only s s'"
      "binv (unat (num_pages s)) (page_array s') (pages s') (free_lists s') fl' A {}"
      "\<forall>x. x \<noteq> c \<longrightarrow> pages s' ! x = pages s ! x" "freeset fl' = insert (c, k) (freeset fl)"
    using push_free_at [OF st order_refl k inv] by blast
  with lists_only_fields(1) [OF s'(2)] show ?thesis by auto
qed

lemma lock_setup:
  assumes "lock_ready BuddyLock s"
  obtains s1 where "spin_lock BuddyLock s = Inr s1"
    "s1 = s\<lparr>m_hart := irq_save (m_hart s), m_locks := (m_locks s)(BuddyLock := 1)\<rparr>"
    "\<forall>s2. lists_only s1 s2 \<longrightarrow> (\<exists>s3. spin_unlock BuddyLock s2 = Inr s3 \<and>
        lists_only (s\<lparr>m_hart := settled (m_hart s)\<rparr>) s3 \<and>
        pages s3 = pages s2 \<and> free_lists s3 = free_lists s2)"
proof -
  let ?s1 = "s\<lparr>m_hart := irq_save (m_hart s), m_locks := (m_locks s)(BuddyLock := 1)\<rparr>"
  have depth: "lock_depth (m_hart s) + 1 \<noteq> 0" using assms by (simp add: lock_ready_def)
  have word: "(m_locks s)(BuddyLock := 0) = m_locks s" using assms by (auto simp: lock_ready_def)
  have "\<exists>s3. spin_unlock BuddyLock s2 = Inr s3 \<and> lists_only (s\<lparr>m_hart := settled (m_hart s)\<rparr>) s3 \<and>
      pages s3 = pages s2 \<and> free_lists s3 = free_lists s2" if l: "lists_only ?s1 s2" for s2
  proof -
    let ?s3 = "s2\<lparr>m_hart := settled (m_hart s), m_locks := m_locks s\<rparr>"
    note f = lists_only_fields [OF l]
    have "spin_unlock BuddyLock s2 = Inr ?s3"
      using spin_unlock_after [OF depth, of s2 BuddyLock] f word by simp
    moreover have "?s3 = s2\<lparr>m_hart := settled (m_hart s), m_locks := m_locks s, m_mem := m_mem s\<rparr>"
      by (rule buddy.equality) (simp_all add: f)
    then have "lists_only (s\<lparr>m_hart := settled (m_hart s)\<rparr>) ?s3"
      using lists_only_machine [OF l, where h = "settled (m_hart s)" and l = "m_locks s" and m = "m_mem s"]
      by simp
    ultimately show ?thesis by auto
  qed
  moreover have "spin_lock BuddyLock s = Inr ?s1" using assms by (simp add: lock_ready_def spin_lock_free)
  ultimately show thesis using that by blast
qed

lemma free_pages_ok:
  assumes inv: "buddy_inv A s" and lk: "lock_ready BuddyLock s" and va: "va_offset s = 0"
    and ik: "(i, k) \<in> A"
  shows "(\<exists>s'. free_pages (page_pa s i) s = Inr s' \<and> buddy_inv (A - {(i, k)}) s' \<and>
            lists_only (s\<lparr>m_hart := settled (m_hart s)\<rparr>) s') \<or>
         (free_pages (page_pa s i) s = Inl (Halt H_get_page_struct) \<and>
          \<not> buddies_in_range (unat (num_pages s)))"
proof -
  obtain s1 where s1: "spin_lock BuddyLock s = Inr s1"
      "s1 = s\<lparr>m_hart := irq_save (m_hart s), m_locks := (m_locks s)(BuddyLock := 1)\<rparr>"
    and unlock: "\<forall>s2. lists_only s1 s2 \<longrightarrow> (\<exists>s3. spin_unlock BuddyLock s2 = Inr s3 \<and>
        lists_only (s\<lparr>m_hart := settled (m_hart s)\<rparr>) s3 \<and>
        pages s3 = pages s2 \<and> free_lists s3 = free_lists s2)"
    using lock_setup [OF lk] by blast
  have st: "buddy_static s1" "va_offset s1 = 0" "num_pages s1 = num_pages s" "page_pa s1 = page_pa s"
    using inv va s1(2) by (simp_all add: buddy_inv_def buddy_static_def page_pa_def fun_eq_iff)
  obtain fl where fl: "bstate s1 fl A {}" using inv s1(2) by (auto simp: buddy_inv_def)
  have i: "i < unat (num_pages s1)" using tiling_start_bound [OF binv_tilingD [OF fl], of i k] ik by simp
  then have il: "i < length (pages s1)" "i < 2 ^ 32"
    using binv_nD [OF fl] static_bounds(2) [OF st(1)] by simp_all
  have md: "pg_is_free (pages s1 ! i) = 0" "uint (pg_order (pages s1 ! i)) = int k" "k \<le> 10"
    using binv_allocD [OF fl ik] by (simp_all add: isf_def pord_def uint_eq_int)
  let ?s2 = "page_upd (\<lambda>p. p\<lparr>pg_is_free := 1\<rparr>) i s1"
  have l2: "lists_only s1 ?s2" unfolding page_upd_def by (rule lists_only_pages) simp
  have st2: "buddy_static ?s2" "va_offset ?s2 = 0" "num_pages ?s2 = num_pages s" "page_pa ?s2 i = page_pa s i"
    using st lists_only_static [OF l2] lists_only_fields [OF l2] lists_only_page_pa [OF l2] by simp_all
  have inv2: "bstate ?s2 fl (A - {(i, k)}) {(i, k)}"
    using binv_release [OF fl ik, of 1] by (simp add: page_upd_def)
  have run: "free_pages (page_pa s i) s = rbind (merge_buddies (int k) (page_pa ?s2 i) ?s2)
      (\<lambda>(ord, addr, s). rbind (push_free ord addr s) (\<lambda>s. spin_unlock BuddyLock s))"
  proof -
    have "get_page_struct s1 (page_pa s i) = Inr (slot_ptr (page_array s1) i)"
      using get_page_struct_ok [OF i il(2)] st(4) by simp
    moreover have "page_pa s i \<noteq> 0" using page_pa_nonzero [OF st(1) il(2)] st(4) by simp
    ultimately show ?thesis
      using s1(1) page_slot_phys [OF st(1,2) il(1)] md st2(4) by (simp add: free_pages_def Let_def)
  qed
  from merge_buddies_ok [OF st2(1,2) inv2 md(3)] show ?thesis
  proof (elim disjE exE conjE)
    fix k' c' s3 fl3
    assume m: "merge_buddies (int k) (page_pa ?s2 i) ?s2 = Inr (int k', page_pa ?s2 c', s3)" "k' \<le> 10"
      "lists_only ?s2 s3" "bstate s3 fl3 (A - {(i, k)}) {(c', k')}"
    have st3: "buddy_static s3" "va_offset s3 = 0" "page_pa ?s2 c' = page_pa s3 c'"
      using st2 m(3) lists_only_static [OF m(3)] lists_only_fields [OF m(3)] lists_only_page_pa [OF m(3)]
      by simp_all
    obtain s4 fl4 where s4: "push_free (int k') (page_pa s3 c') s3 = Inr s4" "lists_only s3 s4"
        "bstate s4 fl4 (A - {(i, k)}) {}"
      using push_free_ok [OF st3(1,2) m(4)] m(2) by auto
    have l4: "lists_only s1 s4" using l2 m(3) s4(2) by (blast intro: lists_only_trans)
    obtain s5 where s5: "spin_unlock BuddyLock s4 = Inr s5" "lists_only (s\<lparr>m_hart := settled (m_hart s)\<rparr>) s5"
        "pages s5 = pages s4" "free_lists s5 = free_lists s4"
      using unlock l4 by blast
    have "buddy_static s5"
      using inv lists_only_static [OF s5(2)] by (simp add: buddy_inv_def buddy_static_def)
    moreover have "bstate s5 fl4 (A - {(i, k)}) {}"
      using s4(3) s5(3,4) lists_only_fields [OF s5(2)] lists_only_fields [OF l4] s1(2) by simp
    ultimately have "buddy_inv (A - {(i, k)}) s5" by (auto simp: buddy_inv_def)
    then show ?thesis using run m(1) st3(3) s4(1) s5(1,2) by simp
  qed (use run st2(3) in simp)
qed


section \<open>The other outcomes of a release\<close>

lemma get_page_struct_frame [simp]:
  "get_page_struct (s\<lparr>m_hart := h\<rparr>) pa = get_page_struct s pa"
  "get_page_struct (s\<lparr>m_locks := l\<rparr>) pa = get_page_struct s pa"
  by (simp_all add: get_page_struct_def Let_def)

lemma page_slot_frame [simp]:
  "page_slot (s\<lparr>m_hart := h\<rparr>) p = page_slot s p"
  "page_slot (s\<lparr>m_locks := l\<rparr>) p = page_slot s p"
  by (simp_all add: page_slot_def Let_def)

lemma buddies_in_range_dvd:
  assumes "1024 dvd n"
  shows "buddies_in_range n"
proof -
  have "bud c k < n" if "c < n" "k < 10" for c k
  proof (rule bud_in_range)
    have "(2 :: nat) ^ Suc k dvd 2 ^ 10" using that(2) by (intro le_imp_power_dvd) simp
    also have "(2 :: nat) ^ 10 dvd n" using assms by simp
    finally show "2 ^ Suc k dvd n" .
  qed (rule that(1))
  then show ?thesis by (simp add: buddies_in_range_def)
qed

lemma free_pages_null: "free_pages 0 s = Inr s"
  by (simp add: free_pages_def)

text \<open>Releasing the first page of a block that is free already.\<close>

lemma free_pages_flagged:
  assumes inv: "buddy_inv A s" and lk: "lock_ready BuddyLock s" and va: "va_offset s = 0"
    and i: "i < unat (num_pages s)" and free: "isf (pages s) i"
  shows "free_pages (page_pa s i) s = Inr (s\<lparr>m_hart := settled (m_hart s)\<rparr>)"
proof -
  obtain fl where fl: "bstate s fl A {}" and st: "buddy_static s" using inv by (auto simp: buddy_inv_def)
  have il: "i < length (pages s)" "i < 2 ^ 32"
    using i binv_nD [OF fl] static_bounds(2) [OF st] by simp_all
  let ?s1 = "s\<lparr>m_hart := irq_save (m_hart s), m_locks := (m_locks s)(BuddyLock := 1)\<rparr>"
  have "spin_lock BuddyLock s = Inr ?s1" using lk by (simp add: lock_ready_def spin_lock_free)
  moreover have "page_pa s i \<noteq> 0" by (rule page_pa_nonzero [OF st il(2)])
  moreover have "get_page_struct ?s1 (page_pa s i) = Inr (slot_ptr (page_array s) i)"
    using get_page_struct_ok [OF i il(2)] by simp
  moreover have "page_slot ?s1 (slot_ptr (page_array s) i) = Inr i"
    using page_slot_phys [OF st va il(1)] by simp
  moreover have "spin_unlock BuddyLock ?s1 = Inr (s\<lparr>m_hart := settled (m_hart s)\<rparr>)"
    using lk spin_unlock_after [of "m_hart s" ?s1 BuddyLock]
    by (simp add: lock_ready_def fun_upd_idem)
  ultimately show ?thesis using free by (simp add: free_pages_def isf_def)
qed

lemma free_pages_twice:
  assumes st: "buddy_static s" and fl: "bstate s fl A {}" and lk: "lock_ready BuddyLock s"
    and va: "va_offset s = 0" and ik: "(i, k) \<in> freeset fl"
  shows "free_pages (page_pa s i) s = Inr (s\<lparr>m_hart := settled (m_hart s)\<rparr>)"
proof (rule free_pages_flagged [OF _ lk va])
  show "buddy_inv A s" using st fl by (auto simp: buddy_inv_def)
  show "i < unat (num_pages s)" using tiling_start_bound [OF binv_tilingD [OF fl], of i k] ik by simp
  show "isf (pages s) i" using binv_freeD [OF fl ik] by simp
qed

text \<open>With the kernel running at its high addresses the pointer \<^verbatim>\<open>pg\<close> is still a physical
  address, and the first access to \<^verbatim>\<open>pg->is_free\<close> faults.\<close>

lemma page_slot_high:
  assumes st: "buddy_static s" and va: "va_offset s = VA_OFFSET" and i: "i < length (pages s)"
  shows "page_slot s (slot_ptr (page_array s) i) = Inl (Fault (slot_ptr (page_array s) i))"
proof -
  note b = static_bounds [OF st]
  let ?off = "slot_ptr (page_array s) i - VA_OFFSET - page_array s"
  have "unat (of_nat i * sizeof_page_t :: ulong) = i * 16"
    using i b by (intro unat_of_nat_scaled) simp_all
  moreover have "?off = of_nat i * sizeof_page_t + 0x100000000"
    by (simp add: slot_ptr_def VA_OFFSET_eq)
  ultimately have "unat ?off = i * 16 + 0x100000000"
    using i b by (simp add: unat_add64)
  then have "\<not> unat (?off div sizeof_page_t) < length (pages s)" using b by (simp add: unat_div)
  then show ?thesis using va by (simp add: page_slot_def Let_def)
qed

lemma free_pages_high_faults:
  assumes inv: "buddy_inv A s" and lk: "lock_ready BuddyLock s" and va: "va_offset s = VA_OFFSET"
    and a: "a \<noteq> 0" "(a - buddy_base_phys s) div PAGE_SIZE = of_nat i" and i: "i < unat (num_pages s)"
  shows "free_pages a s = Inl (Fault (slot_ptr (page_array s) i))"
proof -
  have st: "buddy_static s" and len: "unat (num_pages s) \<le> length (pages s)"
    using inv by (auto simp: buddy_inv_def dest: binv_nD)
  have il: "i < 2 ^ 32" "i < length (pages s)" using i len static_bounds [OF st] by simp_all
  have "get_page_struct s a = get_page_struct s (page_pa s i)"
    using a(2) page_number [OF il(1), of s] by (simp add: get_page_struct_def Let_def)
  then have "get_page_struct s a = Inr (slot_ptr (page_array s) i)" using get_page_struct_ok [OF i il(1)] by simp
  moreover have "spin_lock BuddyLock s =
      Inr (s\<lparr>m_hart := irq_save (m_hart s), m_locks := (m_locks s)(BuddyLock := 1)\<rparr>)"
    using lk by (simp add: lock_ready_def spin_lock_free)
  ultimately show ?thesis using a(1) page_slot_high [OF st va il(2)] by (simp add: free_pages_def)
qed

lemma free_pages_high_page:
  assumes inv: "buddy_inv A s" and lk: "lock_ready BuddyLock s" and va: "va_offset s = VA_OFFSET"
    and i: "i < unat (num_pages s)"
  shows "free_pages (page_pa s i) s = Inl (Fault (slot_ptr (page_array s) i))"
proof (rule free_pages_high_faults [OF inv lk va _ _ i])
  have st: "buddy_static s" using inv by (simp add: buddy_inv_def)
  have il: "i < 2 ^ 32" using i static_bounds(2) [OF st] by simp
  show "page_pa s i \<noteq> 0" by (rule page_pa_nonzero [OF st il])
  show "(page_pa s i - buddy_base_phys s) div PAGE_SIZE = of_nat i" by (rule page_number [OF il])
qed

text \<open>An order-0 block on the last page of an odd number of pages has no buddy below
  \<open>num_pages\<close>: releasing it halts the kernel.\<close>

lemma free_pages_last_halts:
  assumes inv: "buddy_inv A s" and lk: "lock_ready BuddyLock s" and va: "va_offset s = 0"
    and ik: "(i, k) \<in> A" and k: "k < 10" and out: "unat (num_pages s) \<le> bud i k"
  shows "free_pages (page_pa s i) s = Inl (Halt H_get_page_struct)"
proof -
  let ?s1 = "s\<lparr>m_hart := irq_save (m_hart s), m_locks := (m_locks s)(BuddyLock := 1)\<rparr>"
  have lock: "spin_lock BuddyLock s = Inr ?s1" using lk by (simp add: lock_ready_def spin_lock_free)
  have st: "buddy_static ?s1" "va_offset ?s1 = 0" "page_pa ?s1 i = page_pa s i"
    using inv va by (simp_all add: buddy_inv_def buddy_static_def page_pa_def)
  obtain fl where fl: "bstate ?s1 fl A {}" using inv by (auto simp: buddy_inv_def)
  have i: "i < unat (num_pages ?s1)" using tiling_start_bound [OF binv_tilingD [OF fl], of i k] ik by simp
  then have il: "i < length (pages ?s1)" "i < 2 ^ 32"
    using binv_nD [OF fl] static_bounds(2) [OF st(1)] by simp_all
  have md: "pg_is_free (pages ?s1 ! i) = 0" "uint (pg_order (pages ?s1 ! i)) = int k"
    using binv_allocD [OF fl ik] by (simp_all add: isf_def pord_def uint_eq_int)
  let ?s2 = "page_upd (\<lambda>p. p\<lparr>pg_is_free := 1\<rparr>) i ?s1"
  have l2: "lists_only ?s1 ?s2" unfolding page_upd_def by (rule lists_only_pages) simp
  have inv2: "bstate ?s2 fl (A - {(i, k)}) {(i, k)}"
    using binv_release [OF fl ik, of 1] by (simp add: page_upd_def)
  have "merge_buddies (int k) (page_pa ?s2 i) ?s2 = Inl (Halt H_get_page_struct)"
    using st(1) out lists_only_static [OF l2] lists_only_fields [OF l2]
    by (intro merge_halt [OF _ inv2 k]) simp_all
  moreover have "page_pa ?s2 i = page_pa s i" using st(3) lists_only_page_pa [OF l2] by simp
  moreover have "page_pa s i \<noteq> 0" using page_pa_nonzero [OF st(1) il(2)] st(3) by simp
  moreover have "get_page_struct ?s1 (page_pa s i) = Inr (slot_ptr (page_array ?s1) i)"
    using get_page_struct_ok [OF i il(2)] st(3) by simp
  ultimately show ?thesis
    using lock page_slot_phys [OF st(1,2) il(1)] md by (simp add: free_pages_def Let_def)
qed

end
