(* ===== verification/Buddy_Init.thy ===== *)
theory Buddy_Init
  imports Buddy_Free
begin

text \<open>
  \<open>buddy_allocator_init\<close>: the layout it computes from the end of the kernel image, the
  populating loop, and that it establishes the allocator's invariant with no block handed out.
\<close>

section \<open>Alignment\<close>

lemma ALIGN_UP_shift: "ALIGN_UP a = push_bit 12 (drop_bit 12 (a + 4095))"
proof -
  have m: "(PAGE_SIZE - 1 :: ulong) = mask 12" by (simp add: PAGE_SIZE_def mask_eq_exp_minus_1)
  have a: "a + PAGE_SIZE - 1 = a + 4095" by (simp add: PAGE_SIZE_def)
  show ?thesis unfolding ALIGN_UP_def a unfolding m by (intro bit_word_eqI) (auto simp: bit_simps)
qed

lemma unat_ALIGN_UP:
  assumes "unat a + 4095 < 2 ^ 64"
  shows "unat (ALIGN_UP a) = (unat a + 4095) div 4096 * 4096"
proof -
  have u: "unat (a + 4095) = unat a + 4095" using assms by (simp add: unat_add64)
  have "unat (drop_bit 12 (a + 4095)) = (unat a + 4095) div 4096"
    by (simp add: drop_bit_eq_div unat_div u)
  moreover have "(unat a + 4095) div 4096 * 4096 < 2 ^ 64"
    using assms by (rule le_less_trans [OF div_times_less_eq_dividend])
  ultimately show ?thesis unfolding ALIGN_UP_shift push_bit_eq_mult
    by (subst unat_mult64) simp_all
qed

section \<open>The populating loop\<close>

text \<open>The order chosen for a block is within bounds, and the block fits; it is aligned to its
  size in physical memory, and every larger order either does not fit or is not aligned.\<close>

lemma pick_order_le: "pick_order c e k \<le> k"
  by (induction k) (auto simp: le_SucI)

lemma pick_order_fits:
  "c + PAGE_SIZE \<le> e \<Longrightarrow> c + push_bit (pick_order c e k) PAGE_SIZE \<le> e"
  by (induction k) auto

lemma pick_order_aligned:
  "4096 dvd unat c \<Longrightarrow> c AND (push_bit (pick_order c e k) PAGE_SIZE - 1) = 0"
proof (induction k)
  case 0
  have "unat (c AND mask 12) = 0"
    using 0 by (simp add: take_bit_eq_mask [symmetric] unsigned_take_bit_eq take_bit_eq_mod unat_mod)
  then show ?case by (simp add: PAGE_SIZE_def mask_eq_exp_minus_1 unat_eq_zero)
qed auto

lemma pick_order_largest:
  "pick_order c e k < j \<Longrightarrow> j \<le> k \<Longrightarrow>
   e < c + push_bit j PAGE_SIZE \<or> c AND (push_bit j PAGE_SIZE - 1) \<noteq> 0"
  by (induction k) (auto simp: le_Suc_eq split: if_splits)

lemma populate_ok:
  "\<lbrakk>buddy_static s; va_offset s = 0;
    unat (buddy_base_phys s) + 4096 * unat (num_pages s) = unat e;
    binv n (page_array s) (pages s) (free_lists s) fl {} {}; n \<le> unat (num_pages s);
    unat (num_pages s) \<le> length (pages s);
    \<forall>x. n \<le> x \<longrightarrow> \<not> isf (pages s) x \<or> length (pages s) \<le> x;
    unat (num_pages s) - n < fuel\<rbrakk> \<Longrightarrow>
   \<exists>s' fl'. populate fuel (page_pa s n) e s = Inr s' \<and> lists_only s s' \<and> bstate s' fl' {} {}"
proof (induction fuel arbitrary: s n fl)
  case (Suc fuel)
  let ?N = "unat (num_pages s)" and ?c = "page_pa s n"
  note st = Suc.prems(1,2) and e = Suc.prems(3) and inv = Suc.prems(4)
  have n32: "n < 2 ^ 32" and N: "?N \<le> 0x8000"
    using Suc.prems(5) static_bounds(2) [OF st(1)] by simp_all
  have c: "unat ?c = unat (buddy_base_phys s) + 4096 * n" by (rule unat_page_pa [OF st(1) n32])
  have base: "unat (buddy_base_phys s) \<le> 0x88000000" by (rule static_bounds(4) [OF st(1)])
  have "unat (?c + PAGE_SIZE) = unat ?c + 4096"
    using c base Suc.prems(5) N by (subst unat_add64) simp_all
  then have guard: "?c + PAGE_SIZE \<le> e \<longleftrightarrow> n < ?N"
    using c e [symmetric] by (auto simp: word_le_nat_alt)
  show ?case
  proof (cases "n < ?N")
    case False
    then have "n = ?N" "populate (Suc fuel) ?c e s = Inr s" using guard Suc.prems(5) by auto
    then show ?thesis using inv by (auto intro: exI [of _ s])
  next
    case True
    define k where "k = pick_order ?c e 10"
    have k: "k \<le> 10" unfolding k_def by (rule pick_order_le)
    have p: "(2 :: nat) ^ k \<le> 2 ^ 10" using k by (intro power_increasing) simp_all
    have step: "unat (?c + push_bit k PAGE_SIZE) = unat (buddy_base_phys s) + 4096 * (n + 2 ^ k)"
      using k c base N p Suc.prems(5) by (subst unat_add64) (simp_all add: unat_shifted_page)
    have "?c + push_bit k PAGE_SIZE \<le> e"
      unfolding k_def using True guard by (intro pick_order_fits) simp
    then have fit: "n + 2 ^ k \<le> ?N" using step e by (simp add: word_le_nat_alt)
    have inv1: "binv (n + 2 ^ k) (page_array s) (pages s) (free_lists s) fl {} {(n, k)}"
      using fit Suc.prems(6,7) by (intro binv_extend [OF inv]) auto
    obtain s1 fl1 where s1: "push_free (int k) ?c s = Inr s1" "lists_only s s1"
        "binv (n + 2 ^ k) (page_array s1) (pages s1) (free_lists s1) fl1 {} {}"
        "\<forall>x. x \<noteq> n \<longrightarrow> pages s1 ! x = pages s ! x"
      using push_free_at [OF st fit _ inv1] k by auto
    note f = lists_only_fields [OF s1(2)]
    have "page_pa s1 (n + 2 ^ k) = ?c + push_bit k PAGE_SIZE"
      using step N fit lists_only_page_pa [OF s1(2)] unat_page_pa [OF st(1), of "n + 2 ^ k"]
      by (simp add: word_unat_eq_iff)
    then have run: "populate (Suc fuel) ?c e s = populate fuel (page_pa s1 (n + 2 ^ k)) e s1"
      using True guard s1(1) by (simp add: MAX_ORDER_def k_def Let_def)
    have "\<exists>s' fl'. populate fuel (page_pa s1 (n + 2 ^ k)) e s1 = Inr s' \<and> lists_only s1 s' \<and>
        bstate s' fl' {} {}"
    proof (rule Suc.IH [OF _ _ _ s1(3)])
      show "buddy_static s1" using st(1) lists_only_static [OF s1(2)] by simp
      show "unat (num_pages s1) - (n + 2 ^ k) < fuel"
        using Suc.prems(8) True two_pow_pos [of k] unfolding f(1) by linarith
      show "\<forall>x. n + 2 ^ k \<le> x \<longrightarrow> \<not> isf (pages s1) x \<or> length (pages s1) \<le> x"
      proof (intro allI impI)
        fix x assume "n + 2 ^ k \<le> x"
        then have "n \<le> x" "x \<noteq> n" using two_pow_pos [of k] by linarith+
        then show "\<not> isf (pages s1) x \<or> length (pages s1) \<le> x"
          using Suc.prems(7) s1(4) f(8) by (simp add: isf_def)
      qed
    qed (use st e fit f Suc.prems(6) in simp_all)
    then show ?thesis using run s1(2) lists_only_trans by metis
  qed
qed simp


section \<open>Initialisation\<close>

text \<open>With \<open>d\<close> pages between the kernel's first page table and the end of RAM, the code
  estimates \<open>256 * d div 257\<close> page structures. The number of pages left over after their array
  is the same, unless \<open>d\<close> is one more than a multiple of 257.\<close>

lemma pages_estimate:
  fixes d :: nat
  shows "d - (256 * d div 257 + 255) div 256 = (if d mod 257 = 1 then Suc (256 * d div 257) else 256 * d div 257)"
proof -
  define q r where "q = d div 257" and "r = d mod 257"
  have d: "d = 257 * q + r" and r: "r < 257" by (simp_all add: q_def r_def)
  have "256 * d = r * 256 + (256 * q) * 257" by (simp add: d algebra_simps)
  then have est: "256 * d div 257 = 256 * q + r * 256 div 257" by simp
  consider "r = 0" | "r = 1" | "1 < r" by linarith
  then show ?thesis
  proof cases
    case 3
    then have "r * 256 div 257 = r - 1" using r
      by (intro div_nat_eqI) (simp_all add: algebra_simps)
    moreover have "(256 * q + (r - 1) + 255) div 256 = q + 1"
      using 3 r by (intro div_nat_eqI) (simp_all add: algebra_simps)
    ultimately show ?thesis using 3 est d r by (simp add: r_def [symmetric])
  qed (use est d in \<open>simp_all add: r_def [symmetric]\<close>)
qed

lemma div_le_self_shift: "x \<le> d \<Longrightarrow> (x + 255) div 256 \<le> (d :: nat)"
  using less_mult_imp_div_less [of "x + 255" "Suc d" 256] by simp

lemma div_round_up: "x \<le> 256 * ((x + 255) div (256 :: nat))"
  using div_mult_mod_eq [of "x + 255" 256] mod_less_divisor [of 256 "x + 255"] by linarith

lemma ALIGN_UP_aligned: "4096 dvd unat A \<Longrightarrow> unat A < 2 ^ 63 \<Longrightarrow> ALIGN_UP A = A"
  by (auto simp: word_unat_eq_iff unat_ALIGN_UP elim!: dvdE)

lemma binv_empty:
  "\<lbrakk>length FL = 11; \<forall>k < 11. FL ! k = 0\<rbrakk> \<Longrightarrow> binv 0 pa PS FL (\<lambda>_. []) {} {}"
  by (rule binvI) (simp_all add: freeset_def tiling_empty)

text \<open>The addresses \<open>buddy_allocator_init\<close> computes.\<close>

lemma init_layout:
  fixes a :: ulong
  assumes a: "unat a + 4096 * Suc d = 0x88000000"
  defines "P \<equiv> a + ALIGN_UP PAGE_SIZE" and "est \<equiv> (USER_END - (a + ALIGN_UP PAGE_SIZE)) div (PAGE_SIZE + sizeof_page_t)"
  shows "unat P = unat a + 4096" "unat est = 256 * d div 257"
    "unat (est * sizeof_page_t) = 16 * (256 * d div 257)"
    "unat (ALIGN_UP (est * sizeof_page_t)) = 4096 * ((256 * d div 257 + 255) div 256)"
    "unat (P + ALIGN_UP (est * sizeof_page_t)) = unat a + 4096 + 4096 * ((256 * d div 257 + 255) div 256)"
    "(256 * d div 257 + 255) div 256 \<le> d"
proof -
  have dle: "d \<le> 0x88000" using a by simp
  have ps: "unat (ALIGN_UP PAGE_SIZE) = 4096" by (subst unat_ALIGN_UP) simp_all
  show P: "unat P = unat a + 4096" unfolding P_def using a by (subst unat_add64) (simp_all add: ps)
  have "unat (USER_END - P) = 4096 * d" using a P by (subst unat_sub64) (simp_all add: word_le_nat_alt)
  moreover have "unat (PAGE_SIZE + sizeof_page_t :: ulong) = 4112"
    by (simp add: PAGE_SIZE_def sizeof_page_t_def)
  ultimately have "unat est = 4096 * d div 4112" unfolding est_def P_def by (simp add: unat_div)
  also have "\<dots> = 16 * (256 * d) div (16 * 257)" by simp
  also have "\<dots> = 256 * d div 257" by (simp only: div_mult_mult1_if) simp
  finally show est: "unat est = 256 * d div 257" .
  have b: "256 * d div 257 \<le> d" by simp
  show "unat (est * sizeof_page_t) = 16 * (256 * d div 257)"
    using b dle by (subst unat_mult64) (simp_all add: est)
  then have "unat (ALIGN_UP (est * sizeof_page_t)) = (16 * (256 * d div 257) + 4095) div 4096 * 4096"
    using b dle by (subst unat_ALIGN_UP) simp_all
  also have "(16 * (256 * d div 257) + 4095) div 4096 = (256 * d div 257 + 255) div 256"
    by (simp add: div_mult2_eq [of _ 16 256, simplified])
  finally show al: "unat (ALIGN_UP (est * sizeof_page_t)) = 4096 * ((256 * d div 257 + 255) div 256)" by simp
  show le: "(256 * d div 257 + 255) div 256 \<le> d"
    using b by (intro div_le_self_shift)
  show "unat (P + ALIGN_UP (est * sizeof_page_t)) = unat a + 4096 + 4096 * ((256 * d div 257 + 255) div 256)"
    using P al le dle a by (subst unat_add64) simp_all
qed


theorem buddy_allocator_init_ok:
  assumes s: "buddy_base_phys s = 0" "va_offset s = 0"
    and a: "unat (ALIGN_UP kernel_end) + 4096 * Suc d = 0x88000000" "0x80000000 \<le> unat (ALIGN_UP kernel_end)"
    and d: "d mod 257 \<noteq> 1"
  shows "\<exists>s'. buddy_allocator_init kernel_end s = Inr (0, s') \<and> buddy_inv {} s' \<and>
      unat (num_pages s') = 256 * d div 257 \<and> kernel_pagetable s' = ALIGN_UP kernel_end \<and>
      va_offset s' = 0 \<and> m_hart s' = m_hart s \<and> m_locks s' = m_locks s \<and>
      unat (ALIGN_UP kernel_end) + 4096 \<le> unat (buddy_base_phys s') \<and> buddy.more s' = buddy.more s \<and>
      (\<forall>x. unat (x - ALIGN_UP kernel_end) < 4096 \<longrightarrow> m_mem s' x = 0)"
proof -
  let ?a = "ALIGN_UP kernel_end"
  define P where "P = ?a + ALIGN_UP PAGE_SIZE"
  define est where "est = (USER_END - P) div (PAGE_SIZE + sizeof_page_t)"
  define A where "A = P + ALIGN_UP (est * sizeof_page_t)"
  let ?m = "fill (fill (m_mem s) ?a 0 (unat PAGE_SIZE)) P 0 (unat (est * sizeof_page_t))"
  define s1 where "s1 = s\<lparr>kernel_pagetable := ?a, page_array := P, m_mem := ?m,
    pages := replicate (unat est) page_zero, buddy_base_phys := A,
    num_pages := (USER_END - A) div PAGE_SIZE, free_lists := replicate 11 0\<rparr>"
  note L = init_layout [OF a(1), folded P_def, folded est_def, folded A_def]
  define x where "x = (256 * d div 257 + 255) div 256"
  have ux: "unat A = unat ?a + 4096 + 4096 * x" "x \<le> d" using L(5,6) by (simp_all add: x_def)
  then have ud: "unat A = 0x88000000 - 4096 * (d - x)" "4096 * d \<le> 0x88000000" using a(1) by simp_all
  have A: "unat A \<le> 0x88000000" "4096 dvd unat A"
    unfolding ud(1) by (simp, intro dvd_diff_nat) simp_all
  then have al: "ALIGN_UP A = A" by (intro ALIGN_UP_aligned) simp_all
  have "unat (USER_END - A) = 4096 * (d - (256 * d div 257 + 255) div 256)"
    unfolding x_def [symmetric] using ud by (subst unat_sub64) (simp_all add: word_le_nat_alt)
  then have n: "unat (num_pages s1) = 256 * d div 257"
    using pages_estimate [of d] d by (simp add: s1_def unat_div)
  have nz: "?a \<noteq> 0" "P \<noteq> 0" using a(2) L(1) by auto
  have set1: "kmemset ?a 0 PAGE_SIZE t = Inr (t\<lparr>m_mem := fill (m_mem t) ?a 0 (unat PAGE_SIZE)\<rparr>)"
    if "va_offset t = 0" for t :: "'a buddy_scheme"
    using a that by (subst kmemset_ok) (simp_all add: ram_range_def)
  have set2: "kmemset P 0 (est * sizeof_page_t) t =
      Inr (t\<lparr>m_mem := fill (m_mem t) P 0 (unat (est * sizeof_page_t))\<rparr>)"
    if "va_offset t = 0" for t :: "'a buddy_scheme"
    using a that L by (subst kmemset_ok) (simp_all add: ram_range_def)
  have run: "buddy_allocator_init kernel_end s =
      rbind (populate (unat (num_pages s1) + 1) A USER_END s1) (\<lambda>s. Inr (0, s))"
    using s set1 set2 nz
    by (simp add: buddy_allocator_init_def early_alloc_def Let_def P_def [symmetric] est_def [symmetric]
      A_def [symmetric] al s1_def MAX_ORDER_def del: populate.simps)
  have top: "unat A + 4096 * unat (num_pages s1) = unat USER_END"
  proof -
    have "d - x = unat (num_pages s1)" using pages_estimate [of d] d n by (simp add: x_def)
    then show ?thesis using ud by simp
  qed
  have "unat est \<le> 256 * x" unfolding x_def L(2) by (rule div_round_up)
  then have st: "buddy_static s1"
    using a L(1) A(2) ux(1) top by (simp add: buddy_static_def s1_def)
  have free: "\<not> isf (pages s1) x \<or> length (pages s1) \<le> x" for x
    by (cases "x < unat est") (simp_all add: s1_def isf_def page_zero_def)
  have A0: "page_pa s1 0 = A" by (simp add: page_pa_def s1_def)
  have s1: "va_offset s1 = 0" "buddy_base_phys s1 = A" "length (pages s1) = unat est"
    "length (free_lists s1) = 11" "\<forall>k < 11. free_lists s1 ! k = 0"
    using s(2) by (simp_all add: s1_def)
  obtain s' fl where s': "populate (unat (num_pages s1) + 1) A USER_END s1 = Inr s'"
      "lists_only s1 s'" "bstate s' fl {} {}"
    using populate_ok [OF st s1(1) _ binv_empty [OF s1(4,5)], of USER_END "unat (num_pages s1) + 1"]
      top s1(2,3) A0 free n L(2) by (auto simp del: populate.simps)
  then have "buddy_inv {} s'" using st lists_only_static by (auto simp: buddy_inv_def)
  moreover have "kernel_pagetable s' = ?a" using s'(2) by (auto simp: lists_only_def s1_def)
  moreover have "unat ?a + 4096 \<le> unat (buddy_base_phys s')"
    using lists_only_fields [OF s'(2)] ux(1) by (simp add: s1_def)
  moreover have "m_mem s' x = 0" if "unat (x - ?a) < 4096" for x
    using lists_only_fields(7) [OF s'(2)] that by (simp add: s1_def fill_def PAGE_SIZE_def)
  moreover have "buddy.more s' = buddy.more s" using s'(2) by (auto simp: lists_only_def s1_def)
  ultimately show ?thesis using run s'(1) n s1(1) lists_only_fields [OF s'(2)]
    by (simp add: s1_def)
qed

end
