(* ===== verification/Page_Source.thy ===== *)
theory Page_Source
  imports Buddy_Init
begin

text \<open>
  The contract between the page allocator and its clients (the page-table code, the object
  caches, process creation): an operation that hands out zeroed, page-aligned pages of RAM,
  each different from the pages handed out before, and leaves the rest of the state alone.
  The contract is a locale; \<open>alloc_page\<close> of the buddy allocator is an instance of it.
\<close>

definition page_ok :: "ulong \<Rightarrow> bool" where
  "page_ok p \<longleftrightarrow> 4096 dvd unat p \<and> 0x80000000 \<le> unat p \<and> unat p + 4096 \<le> 0x88000000"

definition page_cells :: "ulong \<Rightarrow> ulong set" where
  "page_cells p = {x. unat (x - p) < 4096}"

lemma page_cells_unat:
  assumes "page_ok p"
  shows "x \<in> page_cells p \<longleftrightarrow> unat p \<le> unat x \<and> unat x < unat p + 4096"
proof -
  have "unat p + 4096 < 2 ^ 64" using assms by (simp add: page_ok_def)
  moreover have "unat x < 2 ^ 64" by (rule unat_lt64)
  ultimately show ?thesis
    unfolding page_cells_def by (simp add: unat_sub_if' word_le_nat_alt) linarith
qed

text \<open>Two aligned pages are equal or have no address in common.\<close>

lemma page_cells_disjoint:
  assumes "page_ok p" and "page_ok q" and "p \<noteq> q"
  shows "page_cells p \<inter> page_cells q = {}"
proof -
  obtain i j where ij: "unat p = 4096 * i" "unat q = 4096 * j"
    using assms(1,2) by (auto simp: page_ok_def elim!: dvdE)
  then have "i \<noteq> j" using assms(3) by (auto simp: word_unat_eq_iff)
  then show ?thesis using ij by (auto simp: page_cells_unat [OF assms(1)] page_cells_unat [OF assms(2)])
qed

lemma fill_page: "fill m p c 4096 x = (if x \<in> page_cells p then c else m x)"
  by (simp add: fill_def page_cells_def)

section \<open>The contract\<close>

text \<open>
  \<open>ok P s\<close>: the provider's invariant holds in \<open>s\<close> and \<open>P\<close> are pages it has handed out;
  \<open>mem\<close>: the contents of RAM; \<open>rest\<close>: the part of the state the operation must not change.
\<close>

locale page_source =
  fixes alloc :: "'s \<Rightarrow> (ulong \<times> 's) kres"
    and ok :: "ulong set \<Rightarrow> 's \<Rightarrow> bool"
    and mem :: "'s \<Rightarrow> ulong \<Rightarrow> byte"
    and rest :: "'s \<Rightarrow> 'r"
  assumes alloc_total: "ok P s \<Longrightarrow> \<exists>p s'. alloc s = Inr (p, s')"
    and alloc_page_new: "\<lbrakk>ok P s; alloc s = Inr (p, s'); p \<noteq> 0\<rbrakk> \<Longrightarrow>
      p \<notin> P \<and> ok (insert p P) s' \<and> mem s' = fill (mem s) p 0 4096"
    and alloc_page_none: "\<lbrakk>ok P s; alloc s = Inr (0, s')\<rbrakk> \<Longrightarrow> ok P s' \<and> mem s' = mem s"
    and alloc_rest: "\<lbrakk>ok P s; alloc s = Inr (p, s')\<rbrakk> \<Longrightarrow> rest s' = rest s"
    and handed_out: "\<lbrakk>ok P s; p \<in> P\<rbrakk> \<Longrightarrow> page_ok p"
begin

text \<open>Whatever a client stores in the pages it was given survives a further allocation.\<close>

lemma alloc_keeps_pages:
  assumes "ok P s" and "alloc s = Inr (p, s')" and "q \<in> P" and "x \<in> page_cells q"
  shows "mem s' x = mem s x"
proof (cases "p = 0")
  case True
  then show ?thesis using alloc_page_none assms(1,2) by metis
next
  case False
  note new = alloc_page_new [OF assms(1,2) False]
  have "page_cells q \<inter> page_cells p = {}"
    using new assms(3) handed_out [OF assms(1,3)] handed_out [of "insert p P" s' p]
    by (intro page_cells_disjoint) auto
  then show ?thesis using new assms(4) by (auto simp: fill_page)
qed

lemma alloc_zeroed:
  "\<lbrakk>ok P s; alloc s = Inr (p, s'); p \<noteq> 0; x \<in> page_cells p\<rbrakk> \<Longrightarrow> mem s' x = 0"
  using alloc_page_new [of P s p s'] by (simp add: fill_page)

text \<open>A client that asks again and again, keeping what it gets.\<close>

fun alloc_many :: "nat \<Rightarrow> 's \<Rightarrow> (ulong list \<times> 's) kres" where
  "alloc_many 0 s = Inr ([], s)"
| "alloc_many (Suc n) s = rbind (alloc s) (\<lambda>(p, s1).
     if p = 0 then Inr ([], s1)
     else rbind (alloc_many n s1) (\<lambda>(ps, s2). Inr (p # ps, s2)))"

lemma alloc_many_distinct:
  "ok P s \<Longrightarrow> \<exists>ps s'. alloc_many n s = Inr (ps, s') \<and> distinct ps \<and> set ps \<inter> P = {} \<and>
     ok (P \<union> set ps) s' \<and> rest s' = rest s \<and> (\<forall>q \<in> P. \<forall>x \<in> page_cells q. mem s' x = mem s x)"
proof (induction n arbitrary: P s)
  case (Suc n)
  obtain p s1 where a: "alloc s = Inr (p, s1)" using alloc_total [OF Suc.prems] by blast
  show ?case
  proof (cases "p = 0")
    case True
    then show ?thesis
      using a Suc.prems alloc_page_none [of P s s1] alloc_rest [OF Suc.prems a] by auto
  next
    case False
    note new = alloc_page_new [OF Suc.prems a False]
    then obtain ps s2 where r: "alloc_many n s1 = Inr (ps, s2)" "distinct ps"
        "set ps \<inter> insert p P = {}" "ok (insert p P \<union> set ps) s2" "rest s2 = rest s1"
        "\<forall>q \<in> insert p P. \<forall>x \<in> page_cells q. mem s2 x = mem s1 x"
      using Suc.IH [of "insert p P" s1] by auto
    have "\<forall>q \<in> P. \<forall>x \<in> page_cells q. mem s2 x = mem s x"
      using r(6) alloc_keeps_pages [OF Suc.prems a] by auto
    then show ?thesis
      using a False r new alloc_rest [OF Suc.prems a] by (auto simp: Un_commute)
  qed
qed auto

end

section \<open>The buddy allocator as a page source\<close>

text \<open>The pages a client has: first pages of blocks of order 0 that are handed out.\<close>

definition pages_inv :: "ulong set \<Rightarrow> 'z buddy_scheme \<Rightarrow> bool" where
  "pages_inv P s \<longleftrightarrow> lock_ready BuddyLock s \<and>
     (\<exists>A. buddy_inv A s \<and> (\<forall>p \<in> P. \<exists>i. (i, 0) \<in> A \<and> p = page_pa s i))"

text \<open>The state with the parts erased that an allocation may change.\<close>

definition alloc_frame :: "'z buddy_scheme \<Rightarrow> 'z buddy_scheme" where
  "alloc_frame s = s\<lparr>m_hart := settled (m_hart s), m_mem := (\<lambda>_. 0), pages := [], free_lists := []\<rparr>"

lemma alloc_frame_lists_only:
  assumes "lists_only (s\<lparr>m_hart := settled (m_hart s), m_mem := m\<rparr>) s'"
  shows "alloc_frame s' = alloc_frame s"
  using assms by (auto simp: lists_only_def alloc_frame_def)

lemma alloc_frame_fields:
  assumes "alloc_frame s' = alloc_frame s"
  shows "va_offset s' = va_offset s" "kernel_pagetable s' = kernel_pagetable s"
    "num_pages s' = num_pages s" "page_array s' = page_array s"
    "buddy_base_phys s' = buddy_base_phys s" "m_locks s' = m_locks s"
    "uart_out s' = uart_out s" "uart_in s' = uart_in s" "buddy.more s' = buddy.more s"
    "lock_depth (m_hart s') = lock_depth (m_hart s)" "csr_sstatus (m_hart s') = csr_sstatus (m_hart s)"
    "cpu_id (m_hart s') = cpu_id (m_hart s)"
proof -
  show "va_offset s' = va_offset s" "kernel_pagetable s' = kernel_pagetable s"
    "num_pages s' = num_pages s" "page_array s' = page_array s"
    "buddy_base_phys s' = buddy_base_phys s" "m_locks s' = m_locks s"
    "uart_out s' = uart_out s" "uart_in s' = uart_in s" "buddy.more s' = buddy.more s"
    using arg_cong [OF assms, of va_offset] arg_cong [OF assms, of kernel_pagetable]
      arg_cong [OF assms, of num_pages] arg_cong [OF assms, of page_array]
      arg_cong [OF assms, of buddy_base_phys] arg_cong [OF assms, of m_locks]
      arg_cong [OF assms, of uart_out] arg_cong [OF assms, of uart_in]
      arg_cong [OF assms, of buddy.more]
    by (simp_all add: alloc_frame_def)
  have h: "settled (m_hart s') = settled (m_hart s)"
    using arg_cong [OF assms, of m_hart] by (simp add: alloc_frame_def)
  show "lock_depth (m_hart s') = lock_depth (m_hart s)" "csr_sstatus (m_hart s') = csr_sstatus (m_hart s)"
    "cpu_id (m_hart s') = cpu_id (m_hart s)"
    using arg_cong [OF h, of lock_depth] arg_cong [OF h, of csr_sstatus] arg_cong [OF h, of cpu_id]
    by simp_all
qed

text \<open>Inside a critical section the hart is unchanged altogether.\<close>

lemma alloc_frame_hart:
  assumes "alloc_frame s' = alloc_frame s" and "lock_depth (m_hart s) \<noteq> 0"
  shows "m_hart s' = m_hart s"
  using arg_cong [OF assms(1), of m_hart] alloc_frame_fields(10) [OF assms(1)] assms(2)
  by (simp add: alloc_frame_def settled_def)

lemma lock_ready_frame: "alloc_frame s' = alloc_frame s \<Longrightarrow> lock_ready l s' \<longleftrightarrow> lock_ready l s"
  using alloc_frame_fields(6,10) [of s' s] by (simp add: lock_ready_def)

lemma page_pa_frame: "alloc_frame s' = alloc_frame s \<Longrightarrow> page_pa s' i = page_pa s i"
  using alloc_frame_fields(5) [of s' s] by (simp add: page_pa_def)

lemma page_pa_ok:
  assumes "buddy_inv A s" and "(i, k) \<in> A"
  shows "page_ok (page_pa s i)"
proof -
  obtain fl where fl: "bstate s fl A {}" and st: "buddy_static s" using assms(1) by (auto simp: buddy_inv_def)
  have i: "i < unat (num_pages s)" using tiling_start_bound [OF binv_tilingD [OF fl], of i k] assms(2) by simp
  then have "i < 2 ^ 32" using static_bounds(2) [OF st] by simp
  then have u: "unat (page_pa s i) = unat (buddy_base_phys s) + 4096 * i" by (rule unat_page_pa [OF st])
  have "4096 * i + 4096 \<le> 4096 * unat (num_pages s)" using i by simp
  then show ?thesis using st static_bounds(3) [OF st] unfolding page_ok_def u buddy_static_def by auto
qed

lemma alloc_page_cases:
  assumes "pages_inv P s" and "alloc_page s = Inr (p, s')"
  shows "alloc_frame s' = alloc_frame s \<and>
     (p \<noteq> 0 \<and> p \<notin> P \<and> pages_inv (insert p P) s' \<and> m_mem s' = fill (m_mem s) p 0 4096 \<or>
      p = 0 \<and> pages_inv P s' \<and> m_mem s' = m_mem s)"
proof -
  obtain A where A: "buddy_inv A s" "\<forall>p \<in> P. \<exists>i. (i, 0) \<in> A \<and> p = page_pa s i"
      and lk: "lock_ready BuddyLock s"
    using assms(1) by (auto simp: pages_inv_def)
  from alloc_pages_ok [OF A(1) lk, of 0] assms(2)
  consider i where "p = page_pa s i" "(i, 0) \<notin> A" "buddy_inv (insert (i, 0) A) s'"
      "lists_only (s\<lparr>m_hart := settled (m_hart s), m_mem := fill (m_mem s) (page_pa s i) 0 4096\<rparr>) s'"
    | "p = 0" "s' = s\<lparr>m_hart := settled (m_hart s)\<rparr>"
    by (auto simp: alloc_page_def)
  then show ?thesis
  proof cases
    case 1
    have fr: "alloc_frame s' = alloc_frame s" by (rule alloc_frame_lists_only [OF 1(4)])
    have ok: "page_ok (page_pa s i)"
      using page_pa_ok [OF 1(3), of i 0] page_pa_frame [OF fr] by simp
    have "p \<notin> P"
    proof
      assume "p \<in> P"
      then obtain j where j: "(j, 0) \<in> A" "page_pa s i = page_pa s j" using A(2) 1(1) by blast
      obtain fl where fl: "bstate s' fl (insert (i, 0) A) {}" and st: "buddy_static s'"
        using 1(3) by (auto simp: buddy_inv_def)
      have "i < unat (num_pages s')" "j < unat (num_pages s')"
        using tiling_start_bound [OF binv_tilingD [OF fl], of i 0]
          tiling_start_bound [OF binv_tilingD [OF fl], of j 0] j(1) by auto
      then have "i < 2 ^ 32" "j < 2 ^ 32" using static_bounds(2) [OF st] by simp_all
      then have "i = j"
        using j(2) page_pa_frame [OF fr] unat_page_pa [OF st, of i] unat_page_pa [OF st, of j] by simp
      then show False using j(1) 1(2) by simp
    qed
    moreover have "pages_inv (insert p P) s'"
      unfolding pages_inv_def using 1(1,3) A(2) lk lock_ready_frame [OF fr] page_pa_frame [OF fr]
      by (auto intro!: exI [of _ "insert (i, 0) A"])
    moreover have "m_mem s' = fill (m_mem s) p 0 4096" using lists_only_fields(7) [OF 1(4)] 1(1) by simp
    moreover have "p \<noteq> 0" using ok 1(1) by (auto simp: page_ok_def)
    ultimately show ?thesis using fr by simp
  next
    case 2
    have fr: "alloc_frame s' = alloc_frame s" by (simp add: 2 alloc_frame_def)
    have "pages_inv P s'"
      unfolding pages_inv_def using A lk lock_ready_frame [OF fr] page_pa_frame [OF fr] 2(2)
      by (auto simp: buddy_inv_def buddy_static_def intro!: exI [of _ A])
    then show ?thesis using fr 2 by simp
  qed
qed

interpretation buddy_pages: page_source alloc_page pages_inv m_mem alloc_frame
proof
  fix P and s :: "'a buddy_scheme"
  assume P: "pages_inv P s"
  then obtain A where "buddy_inv A s" "lock_ready BuddyLock s" by (auto simp: pages_inv_def)
  then show "\<exists>p s'. alloc_page s = Inr (p, s')"
    using alloc_pages_ok [of A s 0] by (auto simp: alloc_page_def)
next
  fix P p and s s' :: "'a buddy_scheme"
  assume a: "pages_inv P s" "alloc_page s = Inr (p, s')"
  show "p \<notin> P \<and> pages_inv (insert p P) s' \<and> m_mem s' = fill (m_mem s) p 0 4096" if "p \<noteq> 0"
    using alloc_page_cases [OF a] that by simp
  show "alloc_frame s' = alloc_frame s" using alloc_page_cases [OF a] by simp
next
  fix P and s s' :: "'a buddy_scheme"
  assume "pages_inv P s" "alloc_page s = Inr (0, s')"
  then show "pages_inv P s' \<and> m_mem s' = m_mem s" using alloc_page_cases by blast
next
  fix P p and s :: "'a buddy_scheme"
  assume "pages_inv P s" "p \<in> P"
  then show "page_ok p" unfolding pages_inv_def by (metis page_pa_ok)
qed

section \<open>Pages from before the allocator\<close>

text \<open>
  The kernel page table's root is taken by \<^verbatim>\<open>early_alloc\<close>, below the pages the allocator manages.
  A client may own such pages besides those it got from \<open>alloc_page\<close>.
\<close>

definition static_page :: "'z buddy_scheme \<Rightarrow> ulong \<Rightarrow> bool" where
  "static_page s x \<longleftrightarrow> page_ok x \<and> unat x + 4096 \<le> unat (buddy_base_phys s)"

definition pages_own :: "ulong set \<Rightarrow> 'z buddy_scheme \<Rightarrow> bool" where
  "pages_own P s \<longleftrightarrow> (\<exists>Q. pages_inv Q s \<and> Q \<subseteq> P \<and> (\<forall>x \<in> P - Q. static_page s x))"

lemma pages_own_ready: "pages_own P s \<Longrightarrow> lock_ready BuddyLock s"
  by (auto simp: pages_own_def pages_inv_def)

lemma pages_inv_own: "pages_inv P s \<Longrightarrow> pages_own P s"
  unfolding pages_own_def by blast

lemma pages_own_static: "pages_inv {} s \<Longrightarrow> (\<And>x. x \<in> P \<Longrightarrow> static_page s x) \<Longrightarrow> pages_own P s"
  unfolding pages_own_def by blast

lemma pages_inv_above:
  assumes "pages_inv P s" and "p \<in> P"
  shows "unat (buddy_base_phys s) \<le> unat p"
proof -
  obtain A i where A: "buddy_inv A s" "(i, 0) \<in> A" "p = page_pa s i"
    using assms by (auto simp: pages_inv_def)
  obtain fl where fl: "bstate s fl A {}" and st: "buddy_static s" using A(1) by (auto simp: buddy_inv_def)
  have "i < unat (num_pages s)" using tiling_start_bound [OF binv_tilingD [OF fl], of i 0] A(2) by simp
  then have "i < 2 ^ 32" using static_bounds(2) [OF st] by simp
  then show ?thesis using unat_page_pa [OF st] A(3) by simp
qed

lemma static_page_frame: "alloc_frame s' = alloc_frame s \<Longrightarrow> static_page s' x \<longleftrightarrow> static_page s x"
  using alloc_frame_fields(5) [of s' s] by (simp add: static_page_def)

interpretation own_pages: page_source alloc_page pages_own m_mem alloc_frame
proof
  fix P and s :: "'a buddy_scheme"
  assume "pages_own P s"
  then show "\<exists>p s'. alloc_page s = Inr (p, s')" using buddy_pages.alloc_total by (auto simp: pages_own_def)
next
  fix P p and s s' :: "'a buddy_scheme"
  assume a: "pages_own P s" "alloc_page s = Inr (p, s')"
  then obtain Q where Q: "pages_inv Q s" "Q \<subseteq> P" "\<forall>x \<in> P - Q. static_page s x" by (auto simp: pages_own_def)
  show fr: "alloc_frame s' = alloc_frame s" by (rule buddy_pages.alloc_rest [OF Q(1) a(2)])
  show "p \<notin> P \<and> pages_own (insert p P) s' \<and> m_mem s' = fill (m_mem s) p 0 4096" if "p \<noteq> 0"
  proof -
    note new = buddy_pages.alloc_page_new [OF Q(1) a(2) that]
    have "unat (buddy_base_phys s) \<le> unat p"
      using pages_inv_above [of "insert p Q" s' p] new alloc_frame_fields(5) [OF fr] by simp
    then have "\<not> static_page s p" by (simp add: static_page_def)
    then have "p \<notin> P - Q" using Q(3) by blast
    then have "p \<notin> P" using new by blast
    moreover have "pages_own (insert p P) s'"
      unfolding pages_own_def using new Q(2,3) static_page_frame [OF fr] by (intro exI [of _ "insert p Q"]) auto
    ultimately show ?thesis using new by blast
  qed
next
  fix P and s s' :: "'a buddy_scheme"
  assume a: "pages_own P s" "alloc_page s = Inr (0, s')"
  then obtain Q where Q: "pages_inv Q s" "Q \<subseteq> P" "\<forall>x \<in> P - Q. static_page s x" by (auto simp: pages_own_def)
  have fr: "alloc_frame s' = alloc_frame s" by (rule buddy_pages.alloc_rest [OF Q(1) a(2)])
  show "pages_own P s' \<and> m_mem s' = m_mem s"
    using buddy_pages.alloc_page_none [OF Q(1) a(2)] Q(2,3) static_page_frame [OF fr] by (auto simp: pages_own_def)
next
  fix P p and s :: "'a buddy_scheme"
  assume "pages_own P s" "p \<in> P"
  then obtain Q where Q: "pages_inv Q s" "p \<in> Q \<or> static_page s p" by (auto simp: pages_own_def)
  then show "page_ok p" using buddy_pages.handed_out [OF Q(1), of p] by (auto simp: static_page_def)
qed

section \<open>Pages that are left\<close>

text \<open>At least \<open>n\<close> pages are free: an allocation of one page then succeeds.\<close>

definition pages_left :: "nat \<Rightarrow> 'z buddy_scheme \<Rightarrow> bool" where
  "pages_left n s \<longleftrightarrow> (\<exists>A. buddy_inv A s \<and> card (\<Union>b \<in> A. span b) + n \<le> unat (num_pages s))"

lemma pages_left_mem [simp]: "pages_left n (s\<lparr>m_mem := m\<rparr>) \<longleftrightarrow> pages_left n s"
  by (simp add: pages_left_def buddy_inv_def buddy_static_def)

lemma pages_left_mono: "pages_left n s \<Longrightarrow> m \<le> n \<Longrightarrow> pages_left m s"
  unfolding pages_left_def by (meson add_le_mono le_trans order_refl)

lemma pages_left_init: "buddy_inv {} s \<Longrightarrow> pages_left (unat (num_pages s)) s"
  unfolding pages_left_def by (intro exI [of _ "{}"]) simp

lemma alloc_page_left:
  assumes left: "pages_left (Suc n) s" and lk: "lock_ready BuddyLock s" and a: "alloc_page s = Inr (p, s')"
  shows "p \<noteq> 0 \<and> pages_left n s'"
proof -
  obtain A where A: "buddy_inv A s" "card (\<Union>b \<in> A. span b) + Suc n \<le> unat (num_pages s)"
    using left by (auto simp: pages_left_def)
  from alloc_pages_ok [OF A(1) lk, of 0] a
  consider i where "p = page_pa s i" "buddy_inv (insert (i, 0) A) s'"
      "lists_only (s\<lparr>m_hart := settled (m_hart s), m_mem := fill (m_mem s) (page_pa s i) 0 4096\<rparr>) s'"
    | "p = 0" "\<forall>l \<le> 10. free_lists s ! l = 0"
    by (auto simp: alloc_page_def)
  then show ?thesis
  proof cases
    case 1
    have fr: "alloc_frame s' = alloc_frame s" by (rule alloc_frame_lists_only [OF 1(3)])
    have "(\<Union>b \<in> insert (i, 0) A. span b) = insert i (\<Union>b \<in> A. span b)" by (auto simp: span_def)
    then have "card (\<Union>b \<in> insert (i, 0) A. span b) \<le> Suc (card (\<Union>b \<in> A. span b))"
      by (metis card_insert_le_m1 card.insert card.infinite finite_insert insert_absorb le_SucI order_refl)
    then have "pages_left n s'"
      unfolding pages_left_def using 1(2) A(2) alloc_frame_fields(3) [OF fr] by (intro exI conjI) auto
    moreover have "p \<noteq> 0"
      using page_pa_ok [OF 1(2), of i 0] page_pa_frame [OF fr, of i] 1(1) by (auto simp: page_ok_def)
    ultimately show ?thesis by blast
  next
    case 2
    obtain fl where fl: "bstate s fl A {}" using A(1) by (auto simp: buddy_inv_def)
    have "fl k = []" if "k < 11" for k
      using binv_chainD [OF fl that] 2(2) that A(1) slot_ptr_nonzero [of s "hd (fl k)"]
      by (cases "fl k") (auto simp: buddy_inv_def)
    then have "freeset fl = {}" by (auto simp: freeset_def)
    then have "(\<Union>b \<in> A. span b) = {..<unat (num_pages s)}" using tiling_coverD [OF binv_tilingD [OF fl]] by simp
    then show ?thesis using A(2) by simp
  qed
qed

end
