(* ===== verification/Buddy_Props.thy ===== *)
theory Buddy_Props
  imports Page_Source
begin

text \<open>
  The properties of the buddy allocator, stated over \<open>alloc_pages\<close>, \<open>free_pages\<close> and
  \<open>buddy_allocator_init\<close>, each with an instance on a small concrete allocator state.
\<close>

section \<open>A concrete allocator state\<close>

text \<open>Four megabytes below the end of RAM: one block of order 9 handed out, its buddy free.\<close>

definition sample_hart :: hart where
  "sample_hart = \<lparr>cpu_id = 0, lock_depth = 0, cpu_sstatus = 0, csr_sstatus = 2\<rparr>"

definition sample_with :: "'z \<Rightarrow> ulong \<Rightarrow> 'z buddy_scheme" where
  "sample_with z off = \<lparr>m_hart = sample_hart, m_locks = (\<lambda>_. 0), m_mem = (\<lambda>_. 0), va_offset = off,
     uart_out = [], uart_in = [], num_pages = 1024, page_array = 0x87BFC000,
     pages = (replicate 1024 page_zero)
       [0 := \<lparr>pg_order = 9, pg_is_free = 0, pg_next = 0\<rparr>,
        512 := \<lparr>pg_order = 9, pg_is_free = 1, pg_next = 0\<rparr>],
     free_lists = (replicate 11 0)[9 := 0x87BFC000 + 512 * 16],
     buddy_base_phys = 0x87C00000, kernel_pagetable = 0, \<dots> = z\<rparr>"

abbreviation sample :: "ulong \<Rightarrow> buddy" where
  "sample off \<equiv> sample_with () off"

lemma sample_tiling: "tiling 1024 {(0, 9), (512, 9)}"
  by (rule tilingI) (auto simp: span_def)

lemma sample_static: "buddy_static (sample_with z off)"
  by (simp add: buddy_static_def sample_with_def)

lemma sample_page:
  "x < 1024 \<Longrightarrow> pages (sample_with z off) ! x =
     (if x = 0 then \<lparr>pg_order = 9, pg_is_free = 0, pg_next = 0\<rparr>
      else if x = 512 then \<lparr>pg_order = 9, pg_is_free = 1, pg_next = 0\<rparr> else page_zero)"
  by (simp add: sample_with_def nth_list_update)

lemma sample_bstate: "bstate (sample_with z off) (\<lambda>k. if k = 9 then [512] else []) {(0, 9)} {}"
proof -
  let ?fl = "\<lambda>k :: nat. if k = 9 then [512 :: nat] else []"
  have fs: "freeset ?fl = {(512, 9)}" by (auto simp: freeset_def)
  show ?thesis
  proof (rule binvI)
    show "tiling (unat (num_pages (sample_with z off))) ({(0, 9)} \<union> freeset ?fl \<union> {})"
      using sample_tiling unfolding fs by (simp add: sample_with_def insert_commute)
    show "chain (page_array (sample_with z off)) (pages (sample_with z off)) (free_lists (sample_with z off) ! k) (?fl k)"
      if "k < 11" for k
      using that sample_page [of 512 z off]
      by (simp add: sample_with_def slot_ptr_def sizeof_page_t_def nth_list_update)
    show "isf (pages (sample_with z off)) i \<and> pord (pages (sample_with z off)) i = k"
      if "(i, k) \<in> freeset ?fl" for i k
      using that sample_page [of 512 z off] unfolding fs by (simp add: isf_def pord_def)
    show "k < 11 \<and> \<not> isf (pages (sample_with z off)) i \<and> pord (pages (sample_with z off)) i = k"
      if "(i, k) \<in> {(0, 9)}" for i k
      using that sample_page [of 0 z off] by (simp add: isf_def pord_def)
    show "(x, pord (pages (sample_with z off)) x) \<in> freeset ?fl \<union> {} \<or>
        (\<exists>b \<in> {(0, 9)} \<union> freeset ?fl \<union> {}. stale_in x (pord (pages (sample_with z off)) x) b)"
      if "x < unat (num_pages (sample_with z off))" "isf (pages (sample_with z off)) x" for x
    proof -
      have "x < 1024" using that(1) by (simp add: sample_with_def)
      then have "x = 512" using that(2) sample_page [of x z off] by (auto simp: isf_def page_zero_def split: if_splits)
      then show ?thesis unfolding fs using sample_page [of 512 z off] by (simp add: pord_def)
    qed
  qed (simp_all add: sample_with_def)
qed

lemma sample_inv: "buddy_inv {(0, 9)} (sample_with z off)"
  unfolding buddy_inv_def by (intro conjI exI) (rule sample_static, rule sample_bstate)

lemma sample_ready: "lock_ready l (sample_with z off)"
  by (simp add: lock_ready_def sample_with_def sample_hart_def)

lemma sample_fields: "va_offset (sample_with z off) = off" "num_pages (sample_with z off) = 1024"
  by (simp_all add: sample_with_def)


section \<open>Histories of allocator calls\<close>

text \<open>The bytes of a block, and the states reached from a boot of the allocator, with the blocks handed
  out. The boot is one on an image after which the pool and its page structures fit (\<open>d mod 257 \<noteq> 1\<close>,
  \<open>d\<close> pages after the page table). A history consists of calls of \<open>alloc_pages\<close>, of releases of
  blocks that are handed out, as far as they return, of releases of pages whose structure is already
  marked free, of stores to memory by the users of the blocks, and of the switch to high addresses in
  \<open>mm_init\<close>, after which a release never returns.\<close>

definition block_cells :: "'z buddy_scheme \<Rightarrow> block \<Rightarrow> ulong set" where
  "block_cells s b = {x. unat (x - page_pa s (fst b)) < 4096 * 2 ^ snd b}"

inductive buddy_run :: "block set \<Rightarrow> 'z buddy_scheme \<Rightarrow> bool" where
  boot: "\<lbrakk>buddy_allocator_init kernel_end s0 = Inr (0, s); buddy_base_phys s0 = 0; va_offset s0 = 0;
          lock_ready BuddyLock s0; unat (ALIGN_UP kernel_end) + 4096 * Suc d = 0x88000000;
          0x80000000 \<le> unat (ALIGN_UP kernel_end); d mod 257 \<noteq> 1\<rbrakk> \<Longrightarrow> buddy_run {} s"
| alloc: "\<lbrakk>buddy_run A s; k \<le> 10; alloc_pages (int k) s = Inr (page_pa s i, s');
           i < unat (num_pages s)\<rbrakk> \<Longrightarrow> buddy_run (insert (i, k) A) s'"
| none: "\<lbrakk>buddy_run A s; k \<le> 10; alloc_pages (int k) s = Inr (0, s')\<rbrakk> \<Longrightarrow> buddy_run A s'"
| free: "\<lbrakk>buddy_run A s; (i, k) \<in> A; free_pages (page_pa s i) s = Inr s'\<rbrakk> \<Longrightarrow>
           buddy_run (A - {(i, k)}) s'"
| free_again: "\<lbrakk>buddy_run A s; i < unat (num_pages s); pg_is_free (pages s ! i) \<noteq> 0;
           free_pages (page_pa s i) s = Inr s'\<rbrakk> \<Longrightarrow> buddy_run A s'"
| store: "buddy_run A s \<Longrightarrow> buddy_run A (s\<lparr>m_mem := m\<rparr>)"
| switch: "buddy_run A s \<Longrightarrow> buddy_run A (s\<lparr>va_offset := VA_OFFSET\<rparr>)"

lemma lists_only_settled:
  assumes "lists_only (s\<lparr>m_hart := settled (m_hart s), m_mem := m\<rparr>) s'"
  shows "lock_ready l s' \<longleftrightarrow> lock_ready l s" "va_offset s' = va_offset s"
  using lists_only_fields [OF assms] by (simp_all add: lock_ready_def)

lemma lists_only_settled':
  assumes "lists_only (s\<lparr>m_hart := settled (m_hart s)\<rparr>) s'"
  shows "lock_ready l s' \<longleftrightarrow> lock_ready l s" "va_offset s' = va_offset s"
  using lists_only_fields [OF assms] by (simp_all add: lock_ready_def)

lemma page_pa_inj:
  assumes "buddy_static s" and "i < 2 ^ 32" and "j < 2 ^ 32" and "page_pa s i = page_pa s j"
  shows "i = j"
proof -
  have "unat (buddy_base_phys s) + 4096 * i = unat (buddy_base_phys s) + 4096 * j"
    unfolding unat_page_pa [OF assms(1,2), symmetric] unat_page_pa [OF assms(1,3), symmetric] assms(4) ..
  then show ?thesis by simp
qed

lemma buddy_inv_bounds:
  assumes "buddy_inv A s" and "(i, k) \<in> A"
  shows "i + 2 ^ k \<le> unat (num_pages s)" "i < unat (num_pages s)" "i < 2 ^ 32" "k \<le> 10"
proof -
  obtain fl where fl: "bstate s fl A {}" and st: "buddy_static s" using assms(1) by (auto simp: buddy_inv_def)
  show "i + 2 ^ k \<le> unat (num_pages s)" "i < unat (num_pages s)"
    using tiling_bound [OF binv_tilingD [OF fl], of i k]
      tiling_start_bound [OF binv_tilingD [OF fl], of i k] assms(2) by simp_all
  then show "i < 2 ^ 32" using static_bounds(2) [OF st] by simp
  show "k \<le> 10" using binv_allocD [OF fl assms(2)] by simp
qed

lemma buddy_inv_disjoint:
  assumes inv: "buddy_inv A s" and b: "b \<in> A" and c: "c \<in> A" and ne: "b \<noteq> c"
  shows "block_cells s b \<inter> block_cells s c = {}"
proof -
  obtain fl where fl: "bstate s fl A {}" and st: "buddy_static s" using inv by (auto simp: buddy_inv_def)
  obtain i k j l where bc: "b = (i, k)" "c = (j, l)" by (cases b, cases c)
  have disj: "span (i, k) \<inter> span (j, l) = {}"
    using tiling_disjointD [OF binv_tilingD [OF fl]] b c ne bc by auto
  have cell: "\<exists>y \<in> span (i, k). unat (buddy_base_phys s) + 4096 * y \<le> unat x \<and>
      unat x < unat (buddy_base_phys s) + 4096 * y + 4096"
    if ik: "(i, k) \<in> A" and x: "x \<in> block_cells s (i, k)" for i k x
  proof -
    note bd = buddy_inv_bounds [OF inv ik]
    have u: "unat (page_pa s i) = unat (buddy_base_phys s) + 4096 * i" by (rule unat_page_pa [OF st bd(3)])
    define r where "r = unat (x - page_pa s i)"
    have r: "r < 4096 * 2 ^ k" using x by (simp add: block_cells_def r_def)
    have "4096 * (i + 2 ^ k) \<le> 4096 * 0x8000" using bd(1) static_bounds(2) [OF st] by simp
    then have "unat (page_pa s i) + r < 2 ^ 64" using u r static_bounds(4) [OF st] by simp
    moreover have "x = page_pa s i + (x - page_pa s i)" by simp
    ultimately have "unat x = unat (page_pa s i) + r" unfolding r_def by (metis unat_add64)
    moreover have "r div 4096 < 2 ^ k" using r by (simp add: less_mult_imp_div_less mult.commute)
    moreover have "4096 * (r div 4096) \<le> r" "r < 4096 * (r div 4096) + 4096"
      using div_mult_mod_eq [of r 4096] mod_less_divisor [of 4096 r] by linarith+
    ultimately show ?thesis using u by (intro bexI [of _ "i + r div 4096"]) simp_all
  qed
  show ?thesis
  proof (rule ccontr)
    assume "block_cells s b \<inter> block_cells s c \<noteq> {}"
    then obtain x where x: "x \<in> block_cells s (i, k)" "x \<in> block_cells s (j, l)" using bc by blast
    obtain y z where "y \<in> span (i, k)" "z \<in> span (j, l)"
        "unat (buddy_base_phys s) + 4096 * y \<le> unat x" "unat x < unat (buddy_base_phys s) + 4096 * y + 4096"
        "unat (buddy_base_phys s) + 4096 * z \<le> unat x" "unat x < unat (buddy_base_phys s) + 4096 * z + 4096"
      using cell [OF _ x(1)] cell [OF _ x(2)] b c bc by blast
    moreover from this have "y = z" by linarith
    ultimately show False using disj by blast
  qed
qed

text \<open>A release that returns was made before the switch to high addresses.\<close>

lemma free_pages_returned:
  assumes "buddy_inv A s" "lock_ready BuddyLock s" "va_offset s \<in> {0, VA_OFFSET}"
    and "i < unat (num_pages s)" and "free_pages (page_pa s i) s = Inr s'"
  shows "va_offset s = 0"
  using free_pages_high_page [OF assms(1,2) _ assms(4)] assms(3,5) by auto

lemma buddy_run_inv:
  "buddy_run A s \<Longrightarrow> buddy_inv A s \<and> lock_ready BuddyLock s \<and> va_offset s \<in> {0, VA_OFFSET}"
proof (induction rule: buddy_run.induct)
  case (boot kernel_end s0 s d)
  then show ?case
    using buddy_allocator_init_ok [of s0 kernel_end d] by (auto simp: lock_ready_def)
next
  case (alloc A s k i s')
  then have inv: "buddy_inv A s" and lk: "lock_ready BuddyLock s" and st: "buddy_static s"
    by (auto simp: buddy_inv_def)
  have i: "i < 2 ^ 32" using alloc.hyps(4) static_bounds(2) [OF st] by simp
  from alloc_pages_ok [OF inv lk alloc.hyps(2)] alloc.hyps(3) page_pa_nonzero [OF st i]
  obtain j where j: "page_pa s i = page_pa s j" "buddy_inv (insert (j, k) A) s'"
      "lists_only (s\<lparr>m_hart := settled (m_hart s),
         m_mem := fill (m_mem s) (page_pa s j) 0 (4096 * 2 ^ k)\<rparr>) s'" by auto
  have "j < 2 ^ 32" using buddy_inv_bounds(3) [OF j(2), of j k] by simp
  then have "i = j" using page_pa_inj [OF st i] j(1) by simp
  then show ?case using j alloc.IH lists_only_settled [OF j(3)] by simp
next
  case (none A s k s')
  then have inv: "buddy_inv A s" and lk: "lock_ready BuddyLock s" and st: "buddy_static s"
    by (auto simp: buddy_inv_def)
  have "page_pa s j \<noteq> 0" if "buddy_inv (insert (j, k) A) s'" for j
    using buddy_inv_bounds(3) [OF that, of j k] page_pa_nonzero [OF st] by simp
  then have "s' = s\<lparr>m_hart := settled (m_hart s)\<rparr>"
    using alloc_pages_ok [OF inv lk none.hyps(2)] none.hyps(3) by auto
  then show ?case using inv lk none.IH by (simp add: buddy_inv_def buddy_static_def lock_ready_def)
next
  case (free A s i k s')
  then have s: "buddy_inv A s" "lock_ready BuddyLock s" by auto
  then have va: "va_offset s = 0"
    using free_pages_returned [OF s _ _ free.hyps(3)] free.IH buddy_inv_bounds(2) [OF s(1) free.hyps(2)] by auto
  have "buddy_inv (A - {(i, k)}) s' \<and> lists_only (s\<lparr>m_hart := settled (m_hart s)\<rparr>) s'"
    using free_pages_ok [OF s va free.hyps(2)] free.hyps(3) by auto
  then show ?case using s va lists_only_settled' by (metis (no_types) insertCI)
next
  case (free_again A s i s')
  then have s: "buddy_inv A s" "lock_ready BuddyLock s" "va_offset s = 0"
    using free_pages_returned [of A s i s'] by auto
  then have "s' = s\<lparr>m_hart := settled (m_hart s)\<rparr>"
    using free_pages_flagged [OF s free_again.hyps(2)] free_again.hyps(3,4) by (simp add: isf_def)
  then show ?case using s by (simp add: buddy_inv_def buddy_static_def lock_ready_def)
next
  case (store A s m)
  then show ?case by (simp add: buddy_inv_def buddy_static_def lock_ready_def)
next
  case (switch A s)
  then show ?case by (simp add: buddy_inv_def buddy_static_def lock_ready_def)
qed


section \<open>Properties\<close>

text \<open>C1. On every state that satisfies the allocator's invariant, with the buddy lock free,
  \<open>alloc_pages\<close> of an order up to 10 returns: either the address of a block that was not
  handed out before, with the block filled with zeros, the invariant kept, and nothing changed
  but the page structures, the free lists, the block's bytes and the saved copy of
  \<^verbatim>\<open>sstatus\<close>; or NULL, and then no free list of the requested order or a larger one has a
  block.\<close>

theorem alloc_pages_correct:
  assumes "buddy_inv A s" and "lock_ready BuddyLock s" and "k \<le> 10"
  shows "(\<exists>i s'. alloc_pages (int k) s = Inr (page_pa s i, s') \<and> page_pa s i \<noteq> 0 \<and>
            (i, k) \<notin> A \<and> i + 2 ^ k \<le> unat (num_pages s) \<and>
            (\<forall>b \<in> A. block_cells s' b \<inter> block_cells s' (i, k) = {}) \<and>
            (\<forall>x \<in> block_cells s' (i, k). m_mem s' x = 0) \<and>
            buddy_inv (insert (i, k) A) s' \<and>
            lists_only (s\<lparr>m_hart := settled (m_hart s),
                          m_mem := fill (m_mem s) (page_pa s i) 0 (4096 * 2 ^ k)\<rparr>) s') \<or>
         (alloc_pages (int k) s = Inr (0, s\<lparr>m_hart := settled (m_hart s)\<rparr>) \<and>
          (\<forall>l. k \<le> l \<longrightarrow> l \<le> 10 \<longrightarrow> free_lists s ! l = 0))"
  using alloc_pages_ok [OF assms]
proof (elim disjE exE conjE)
  fix i s'
  assume a: "alloc_pages (int k) s = Inr (page_pa s i, s')" "(i, k) \<notin> A" "buddy_inv (insert (i, k) A) s'"
    and l: "lists_only (s\<lparr>m_hart := settled (m_hart s),
                m_mem := fill (m_mem s) (page_pa s i) 0 (4096 * 2 ^ k)\<rparr>) s'"
  have pa: "page_pa s' i = page_pa s i" using lists_only_page_pa [OF l] by (simp add: page_pa_def)
  have "\<forall>b \<in> A. block_cells s' b \<inter> block_cells s' (i, k) = {}"
    using buddy_inv_disjoint [OF a(3)] a(2) by (metis insertCI)
  moreover have "\<forall>x \<in> block_cells s' (i, k). m_mem s' x = 0"
    using lists_only_fields(7) [OF l] pa by (simp add: block_cells_def fill_def)
  moreover have "i + 2 ^ k \<le> unat (num_pages s)" "page_pa s i \<noteq> 0"
    using buddy_inv_bounds [OF a(3), of i k] lists_only_fields(1) [OF l] assms(1) page_pa_nonzero [of s i]
    by (simp_all add: buddy_inv_def)
  ultimately show ?thesis using a l by blast
qed simp

theorem alloc_pages_correct_witness:
  "buddy_inv {(0, 9)} (sample 0) \<and> lock_ready BuddyLock (sample 0) \<and>
   (\<exists>i s'. alloc_pages 3 (sample 0) = Inr (page_pa (sample 0) i, s') \<and>
      buddy_inv (insert (i, 3) {(0, 9)}) s')"
proof -
  have "free_lists (sample 0) ! 9 \<noteq> 0" by (simp add: sample_with_def)
  then have "\<not> (\<forall>l. 3 \<le> l \<longrightarrow> l \<le> 10 \<longrightarrow> free_lists (sample 0) ! l = 0)" by (auto intro!: exI [of _ 9])
  then show ?thesis
    using alloc_pages_correct [OF sample_inv sample_ready, of 3 "()" 0] sample_inv sample_ready by auto
qed

text \<open>C2. Releasing a block that is handed out, before the switch to high addresses and with a
  number of pages divisible by 1024: \<open>free_pages\<close> returns, the invariant holds for the
  remaining blocks, and only the page structures and free lists change.\<close>

theorem free_pages_correct:
  assumes "buddy_inv A s" and "lock_ready BuddyLock s" and "va_offset s = 0"
    and "1024 dvd unat (num_pages s)" and "(i, k) \<in> A"
  shows "\<exists>s'. free_pages (page_pa s i) s = Inr s' \<and> buddy_inv (A - {(i, k)}) s' \<and>
            lists_only (s\<lparr>m_hart := settled (m_hart s)\<rparr>) s'"
  using free_pages_ok [OF assms(1-3,5)] buddies_in_range_dvd [OF assms(4)] by blast

theorem free_pages_correct_witness:
  "buddy_inv {(0, 9)} (sample 0) \<and> lock_ready BuddyLock (sample 0) \<and>
   (\<exists>s'. free_pages (page_pa (sample 0) 0) (sample 0) = Inr s' \<and> buddy_inv {} s')"
  using free_pages_correct [OF sample_inv [of "()" 0] sample_ready sample_fields(1), of 0 9]
    sample_inv sample_ready by (auto simp: sample_fields)

text \<open>C3. Before the switch to high addresses, and with a number of pages divisible by 1024, what
  \<open>alloc_pages\<close> handed out can be released again: \<open>free_pages\<close> returns, and the blocks handed out are
  then the ones from before.\<close>

theorem alloc_free_roundtrip:
  assumes inv: "buddy_inv A s" and lk: "lock_ready BuddyLock s" and va: "va_offset s = 0"
    and n: "1024 dvd unat (num_pages s)" and k: "k \<le> 10"
    and run: "alloc_pages (int k) s = Inr (p, s1)" and p: "p \<noteq> 0"
  shows "\<exists>s2. free_pages p s1 = Inr s2 \<and> buddy_inv A s2"
proof -
  from alloc_pages_ok [OF inv lk k] run p
  obtain i where i: "p = page_pa s i" "(i, k) \<notin> A" "buddy_inv (insert (i, k) A) s1"
      "lists_only (s\<lparr>m_hart := settled (m_hart s),
         m_mem := fill (m_mem s) (page_pa s i) 0 (4096 * 2 ^ k)\<rparr>) s1" by auto
  have "page_pa s1 i = p" using lists_only_page_pa [OF i(4)] i(1) by (simp add: page_pa_def)
  moreover have "1024 dvd unat (num_pages s1)" using lists_only_fields(1) [OF i(4)] n by simp
  ultimately show ?thesis
    using free_pages_ok [OF i(3), of i k] lists_only_settled [OF i(4)] lk va i(2) buddies_in_range_dvd
    by (auto simp: Diff_insert_absorb)
qed

theorem alloc_free_roundtrip_witness:
  "\<exists>p s1 s2. alloc_pages 0 (sample 0) = Inr (p, s1) \<and> p \<noteq> 0 \<and> free_pages p s1 = Inr s2 \<and>
     buddy_inv {(0, 9)} s2"
proof -
  have "free_lists (sample 0) ! 9 \<noteq> 0" by (simp add: sample_with_def)
  then obtain i s1 where a: "alloc_pages 0 (sample 0) = Inr (page_pa (sample 0) i, s1)"
      "buddy_inv (insert (i, 0) {(0, 9)}) s1" "lists_only ((sample 0)\<lparr>m_hart := settled (m_hart (sample 0)),
         m_mem := fill (m_mem (sample 0)) (page_pa (sample 0) i) 0 (4096 * 2 ^ 0)\<rparr>) s1"
    using alloc_pages_ok [OF sample_inv sample_ready, of 0 "()" 0] by (auto dest: spec [of _ 9])
  have "num_pages s1 = num_pages (sample 0)" using lists_only_fields(1) [OF a(3)] by simp
  then have "page_pa (sample 0) i \<noteq> 0"
    using buddy_inv_bounds(3) [OF a(2), of i 0] page_pa_nonzero [OF sample_static, of i "()" 0] by simp
  then show ?thesis
    using alloc_free_roundtrip [OF sample_inv [of "()" 0] sample_ready sample_fields(1), of 0 "page_pa (sample 0) i" s1] a(1)
    by (auto simp: sample_fields)
qed

text \<open>C4. After any history (\<open>buddy_run\<close>) of allocations, of releases that return, each of a block
  handed out or of a page marked free, of stores to memory and of the switch to high addresses,
  from a boot with \<open>d\<close> pages after the page table where \<open>d mod 257 \<noteq> 1\<close>: distinct blocks that are handed
  out have no byte in common, all lie in the managed pages, and the next allocation returns.\<close>

theorem buddy_history_safe:
  assumes "buddy_run A s"
  shows "(\<forall>b \<in> A. \<forall>c \<in> A. b \<noteq> c \<longrightarrow> block_cells s b \<inter> block_cells s c = {}) \<and>
    (\<forall>(i, k) \<in> A. i + 2 ^ k \<le> unat (num_pages s)) \<and>
    (\<forall>k \<le> 10. \<exists>p s'. alloc_pages (int k) s = Inr (p, s'))"
proof -
  have inv: "buddy_inv A s" and lk: "lock_ready BuddyLock s" using buddy_run_inv [OF assms] by simp_all
  have "\<exists>p s'. alloc_pages (int k) s = Inr (p, s')" if "k \<le> 10" for k
    using alloc_pages_ok [OF inv lk that] by blast
  then show ?thesis using buddy_inv_disjoint [OF inv] buddy_inv_bounds(1) [OF inv] by blast
qed

text \<open>C5. \<open>buddy_allocator_init\<close> with \<open>d\<close> pages between the kernel's page table and the end
  of RAM, where \<open>d mod 257\<close> is not 1 (for those numbers the managed pages outnumber the elements of
  \<^verbatim>\<open>page_array\<close>), called once before the switch to high addresses, returns 0 with the invariant established, no block handed out, and
  \<open>256 * d div 257\<close> pages under management; the kernel page table is the first page after the
  kernel image.\<close>

theorem buddy_allocator_init_correct:
  assumes "buddy_base_phys s = 0" and "va_offset s = 0"
    and "unat (ALIGN_UP kernel_end) + 4096 * Suc d = 0x88000000"
    and "0x80000000 \<le> unat (ALIGN_UP kernel_end)" and "d mod 257 \<noteq> 1"
  shows "\<exists>s'. buddy_allocator_init kernel_end s = Inr (0, s') \<and> buddy_inv {} s' \<and>
      unat (num_pages s') = 256 * d div 257 \<and> kernel_pagetable s' = ALIGN_UP kernel_end"
  using buddy_allocator_init_ok [OF assms] by blast

definition sample_boot :: buddy where
  "sample_boot = (sample 0)\<lparr>buddy_base_phys := 0, pages := [], free_lists := [], num_pages := 0\<rparr>"

theorem buddy_allocator_init_correct_witness:
  "\<exists>s'. buddy_allocator_init 0x80020ABC sample_boot = Inr (0, s') \<and> buddy_inv {} s' \<and>
     unat (num_pages s') = 32606"
proof -
  have a: "unat (ALIGN_UP 0x80020ABC) = 0x80021000" by (subst unat_ALIGN_UP) simp_all
  show ?thesis
    using buddy_allocator_init_correct [of sample_boot "0x80020ABC" 32734] a
    by (auto simp: sample_boot_def sample_fields)
qed

text \<open>Two pages allocated after a boot.\<close>

lemma boot_two_pages:
  "\<exists>i j (s :: buddy). i \<noteq> j \<and> buddy_run {(j, 0), (i, 0)} s"
proof -
  have a: "unat (ALIGN_UP 0x80020ABC) = 0x80021000" by (subst unat_ALIGN_UP) simp_all
  have b: "buddy_base_phys sample_boot = 0" "va_offset sample_boot = 0" "lock_ready BuddyLock sample_boot"
    by (simp_all add: sample_boot_def sample_with_def lock_ready_def sample_hart_def)
  obtain s where s: "buddy_allocator_init 0x80020ABC sample_boot = Inr (0, s)" "buddy_inv {} s"
      "unat (num_pages s) = 32606"
    using buddy_allocator_init_ok [OF b(1,2), of "0x80020ABC" 32734] a by auto
  have r: "buddy_run {} s"
    by (rule buddy_run.boot [OF s(1) b, where d = 32734]) (simp_all add: a)
  have left: "pages_left (Suc (Suc 0)) s" by (rule pages_left_mono [OF pages_left_init [OF s(2)]]) (simp add: s(3))
  have page: "\<exists>i (t :: buddy). (i, 0) \<notin> A \<and> buddy_run (insert (i, 0) A) t \<and> pages_left n t"
    if r: "buddy_run A u" and l: "pages_left (Suc n) u" for A n and u :: buddy
  proof -
    have u: "buddy_inv A u" "lock_ready BuddyLock u" using buddy_run_inv [OF r] by simp_all
    then obtain p t where p: "alloc_pages (int 0) u = Inr (p, t)" using alloc_pages_ok [OF u, of 0] by auto
    then have q: "p \<noteq> 0" "pages_left n t" using alloc_page_left [OF l u(2)] by (simp_all add: alloc_page_def)
    from alloc_pages_ok [OF u, of 0] p q(1) obtain i where i: "p = page_pa u i" "(i, 0) \<notin> A"
        "buddy_inv (insert (i, 0) A) t" "num_pages t = num_pages u"
      using lists_only_fields(1) by fastforce
    then have "buddy_run (insert (i, 0) A) t"
      using buddy_run.alloc [OF r _ p [unfolded i(1)]] buddy_inv_bounds(2) [OF i(3), of i 0] by simp
    then show ?thesis using i(2) q(2) by blast
  qed
  obtain i and t :: buddy where t: "buddy_run {(i, 0)} t" "pages_left (Suc 0) t" using page [OF r left] by auto
  from page [OF this] obtain j and u :: buddy where "(j, 0) \<notin> {(i, 0)}" "buddy_run (insert (j, 0) {(i, 0)}) u" by blast
  then show ?thesis by (intro exI [of _ i] exI [of _ j] exI [of _ u]) auto
qed

theorem buddy_history_safe_witness:
  "\<exists>i j (s :: buddy). i \<noteq> j \<and> buddy_run {(j, 0), (i, 0)} s \<and> block_cells s (i, 0) \<inter> block_cells s (j, 0) = {} \<and>
     (\<exists>p s'. alloc_pages 10 s = Inr (p, s'))"
proof -
  obtain i j and s :: buddy where s: "i \<noteq> j" "buddy_run {(j, 0), (i, 0)} s" using boot_two_pages by blast
  from buddy_history_safe [OF s(2)] s show ?thesis
    by (intro exI [of _ i] exI [of _ j] exI [of _ s]) (auto dest: spec [of _ 10])
qed

text \<open>C8. Once the kernel runs at its high addresses, \<open>free_pages\<close> of any managed page faults on
  its first access to the page structure, because the pointer is not taken through the linear
  map.\<close>

theorem free_pages_faults_at_high_addresses:
  assumes "buddy_inv A s" and "lock_ready BuddyLock s" and "va_offset s = VA_OFFSET"
    and "i < unat (num_pages s)"
  shows "free_pages (page_pa s i) s = Inl (Fault (slot_ptr (page_array s) i))"
  by (rule free_pages_high_page [OF assms])

theorem free_pages_faults_witness:
  "free_pages (page_pa (sample VA_OFFSET) 0) (sample VA_OFFSET) = Inl (Fault 0x87BFC000)"
  using free_pages_faults_at_high_addresses [OF sample_inv [of "()" VA_OFFSET] sample_ready sample_fields(1), of 0]
  by (simp add: sample_fields slot_ptr_def) (simp add: sample_with_def)

text \<open>Releasing a block whose buddy would lie beyond the last managed page halts the kernel
  in \<open>get_page_struct\<close>, although the block was handed out by \<open>alloc_pages\<close>.\<close>

theorem free_pages_halts_without_buddy:
  assumes "buddy_inv A s" and "lock_ready BuddyLock s" and "va_offset s = 0"
    and "(i, k) \<in> A" and "k < 10" and "unat (num_pages s) \<le> bud i k"
  shows "free_pages (page_pa s i) s = Inl (Halt H_get_page_struct)"
  by (rule free_pages_last_halts [OF assms])

definition sample_one_with :: "'z \<Rightarrow> ulong \<Rightarrow> 'z buddy_scheme" where
  "sample_one_with z off = (sample_with z off)\<lparr>num_pages := 1, page_array := 0x87FFE000,
     buddy_base_phys := 0x87FFF000, pages := [page_zero], free_lists := replicate 11 0\<rparr>"

lemma sample_one_inv: "buddy_inv {(0, 0)} (sample_one_with z off)"
proof -
  let ?s = "sample_one_with z off"
  have "tiling 1 {(0, 0)}" by (rule tilingI) (auto simp: span_def)
  then have "bstate ?s (\<lambda>_. []) {(0, 0)} {}"
    by (intro binvI) (simp_all add: sample_one_with_def freeset_def isf_def pord_def page_zero_def)
  moreover have "buddy_static ?s" by (simp add: sample_one_with_def buddy_static_def)
  ultimately show ?thesis unfolding buddy_inv_def by blast
qed

lemma sample_one_facts:
  "lock_ready l (sample_one_with z off)" "va_offset (sample_one_with z off) = off"
  "num_pages (sample_one_with z off) = 1"
  using sample_ready [of l z off] by (simp_all add: sample_one_with_def sample_fields lock_ready_def)

theorem free_pages_halts_witness:
  "free_pages 0x87FFF000 (sample_one_with () 0) = Inl (Halt H_get_page_struct)"
proof -
  have "page_pa (sample_one_with () 0) 0 = 0x87FFF000" by (simp add: page_pa_def sample_one_with_def)
  then show ?thesis
    using free_pages_halts_without_buddy [OF sample_one_inv [of "()" 0] sample_one_facts(1,2), of 0 0]
    by (simp add: sample_one_facts bud_def)
qed

text \<open>Releasing the first page of a block that is on a free list changes nothing but the saved
  copy of \<^verbatim>\<open>sstatus\<close>: a double release is ignored.\<close>

theorem free_pages_double_release:
  assumes "buddy_static s" and "bstate s fl A {}" and "lock_ready BuddyLock s"
    and "va_offset s = 0" and "(i, k) \<in> freeset fl"
  shows "free_pages (page_pa s i) s = Inr (s\<lparr>m_hart := settled (m_hart s)\<rparr>)"
  by (rule free_pages_twice [OF assms])

theorem free_pages_double_release_witness:
  "free_pages (page_pa (sample 0) 512) (sample 0) =
     Inr ((sample 0)\<lparr>m_hart := settled (m_hart (sample 0))\<rparr>)"
  using free_pages_double_release [OF sample_static sample_bstate [of "()" 0] sample_ready sample_fields(1), of 512 9]
  by (simp add: freeset_def)

end
