(* ===== verification/Base_Props.thy ===== *)
theory Base_Props
  imports Uart Kstring Buddy_Props
begin

text \<open>
  The properties of the components the rest of the kernel is built on: spinlocks, the string
  routines and the console.
\<close>

section \<open>Spinlocks\<close>

text \<open>C6. In every state the interleaved harts can reach, no lock is held by two harts, a hart
  that holds a lock has interrupts disabled, and its \<open>spin_unlock\<close> does not run into the
  underflow check.\<close>

theorem lock_mutual_exclusion:
  assumes "lock_reachable g"
  shows "(\<forall>h k l. l \<in> set (held g h) \<and> l \<in> set (held g k) \<longrightarrow> h = k) \<and>
    (\<forall>h. held g h \<noteq> [] \<longrightarrow> csr_sstatus (harts g h) AND SSTATUS_SIE = 0 \<and> lock_depth (harts g h) \<noteq> 0)"
proof -
  have inv: "lock_inv g" by (rule lock_reachable_inv [OF assms])
  have "csr_sstatus (harts g h) AND SSTATUS_SIE = 0 \<and> lock_depth (harts g h) \<noteq> 0" if "held g h \<noteq> []" for h
  proof -
    have hi: "hart_inv (harts g h) (pc g h) (held g h)" by (rule lock_inv_hartD [OF inv])
    then have "unat (lock_depth (harts g h)) \<noteq> 0" using that by (simp add: hart_inv_def)
    then have d: "lock_depth (harts g h) \<noteq> 0" by auto
    then have "csr_sstatus (harts g h) = clear_csr (cpu_sstatus (harts g h)) SSTATUS_SIE"
      using hi by (simp add: hart_inv_def)
    then show ?thesis using d by (simp add: clear_csr_def and.assoc)
  qed
  then show ?thesis using lock_inv_uniqueD [OF inv] by blast
qed

definition sample_smp :: smp where
  "sample_smp = \<lparr>harts = (\<lambda>_. sample_hart), lock_words = (\<lambda>_. 0), pc = (\<lambda>_. Running), held = (\<lambda>_. [])\<rparr>"

lemma sample_smp_start: "lock_reachable sample_smp"
  by (rule lock_reachable.start) (simp_all add: sample_smp_def sample_hart_def)

theorem lock_mutual_exclusion_witness:
  "\<exists>g. lock_reachable g \<and> held g 0 = [BuddyLock] \<and> csr_sstatus (harts g 0) AND SSTATUS_SIE = 0"
proof -
  let ?s = "sample 0"
  obtain s' where s': "spin_lock BuddyLock ?s = Inr s'"
    by (simp add: spin_lock_free sample_with_def)
  have "hart_view sample_smp 0 ?s" by (simp add: hart_view_def sample_smp_def sample_with_def)
  then obtain g where g: "lock_step\<^sup>*\<^sup>* sample_smp g" "held g 0 = [BuddyLock]"
    using spin_lock_simulated [of sample_smp 0 ?s BuddyLock s'] s'
    by (auto simp: valid_lock_def sample_smp_def)
  from g(1) have r: "lock_reachable g"
    by induction (auto intro: sample_smp_start lock_reachable.step)
  then show ?thesis using g(2) lock_mutual_exclusion [OF r] by auto
qed

text \<open>C7. The sequential \<open>spin_lock\<close> is an execution of the interleaved harts in which one hart
  takes the lock, and \<open>spin_unlock\<close> of a lock that the hart holds returns and is an execution
  that releases it.\<close>

theorem lock_operations_refine:
  assumes v: "hart_view g h s" and inv: "lock_inv g"
  shows "(valid_lock l \<and> l \<notin> set (held g h) \<and> spin_lock l s = Inr s' \<longrightarrow>
            (\<exists>g'. lock_step\<^sup>*\<^sup>* g g' \<and> hart_view g' h s' \<and> held g' h = l # held g h)) \<and>
         (l \<in> set (held g h) \<longrightarrow>
            (\<exists>g' t. spin_unlock l s = Inr t \<and> lock_step\<^sup>*\<^sup>* g g' \<and> hart_view g' h t \<and>
               held g' h = remove1 l (held g h)))"
proof (intro conjI impI)
  assume "valid_lock l \<and> l \<notin> set (held g h) \<and> spin_lock l s = Inr s'"
  then show "\<exists>g'. lock_step\<^sup>*\<^sup>* g g' \<and> hart_view g' h s' \<and> held g' h = l # held g h"
    using spin_lock_simulated [OF v] by simp
next
  assume "l \<in> set (held g h)"
  then show "\<exists>g' t. spin_unlock l s = Inr t \<and> lock_step\<^sup>*\<^sup>* g g' \<and> hart_view g' h t \<and>
      held g' h = remove1 l (held g h)"
    using spin_unlock_simulated [OF v _ inv] by auto
qed

theorem lock_operations_refine_witness:
  "\<exists>g' s'. spin_lock UartLock (sample 0) = Inr s' \<and> lock_step\<^sup>*\<^sup>* sample_smp g' \<and>
     hart_view g' 0 s' \<and> held g' 0 = [UartLock]"
proof -
  have v: "hart_view sample_smp 0 (sample 0)" by (simp add: hart_view_def sample_smp_def sample_with_def)
  obtain s' where "spin_lock UartLock (sample 0) = Inr s'" by (simp add: spin_lock_free sample_with_def)
  then show ?thesis
    using lock_operations_refine [OF v lock_reachable_inv [OF sample_smp_start], of UartLock s']
    by (auto simp: valid_lock_def sample_smp_def)
qed

text \<open>A \<open>spin_trylock\<close> that fails returns 0 but leaves the nesting depth incremented and
  interrupts disabled; there is no matching release for it.\<close>

theorem spin_trylock_failure_leaks:
  assumes "m_locks s l \<noteq> 0" and "lock_depth (m_hart s) = 0"
  shows "\<exists>s'. spin_trylock l s = (0, s') \<and> lock_depth (m_hart s') = 1 \<and>
     csr_sstatus (m_hart s') = clear_csr (csr_sstatus (m_hart s)) SSTATUS_SIE \<and> m_locks s' = m_locks s"
  using assms by (simp add: spin_trylock_def irq_save_def Let_def)

theorem spin_trylock_failure_witness:
  "\<exists>s'. spin_trylock UartLock ((sample 0)\<lparr>m_locks := (\<lambda>_. 1)\<rparr>) = (0, s') \<and>
     lock_depth (m_hart s') = 1 \<and> csr_sstatus (m_hart s') = 0"
  using spin_trylock_failure_leaks [of "(sample 0)\<lparr>m_locks := (\<lambda>_. 1)\<rparr>" UartLock]
  by (auto simp: sample_with_def sample_hart_def clear_csr_def SSTATUS_SIE_def)

section \<open>String routines\<close>

text \<open>C9. \<open>memset\<close> returns exactly when the count is below \<open>2 ^ 32\<close>, because its counter is a
  32-bit integer; it then sets the \<open>n\<close> bytes from \<open>p\<close> on and no others.\<close>

theorem memset_correct:
  "memset m p c n =
     (if unat n < 2 ^ 32 then Some (\<lambda>x. if unat (x - p) < unat n then word_of_int c else m x) else None)"
  using memset_returns [of n m p c] memset_diverges [of n m p c] by (simp add: fill_def)

text \<open>C10. \<open>memcpy\<close> between ranges without a common address copies the source bytes to the
  destination, leaves every byte outside the destination alone, and returns the destination.\<close>

theorem memcpy_correct:
  assumes "\<And>i j. i < unat n \<Longrightarrow> j < unat n \<Longrightarrow> d + of_nat i \<noteq> s + of_nat j"
  shows "fst (memcpy m d s n) = d \<and>
     get_bytes (snd (memcpy m d s n)) d (unat n) = get_bytes m s (unat n) \<and>
     (\<forall>x. unat n \<le> unat (x - d) \<longrightarrow> snd (memcpy m d s n) x = m x)"
proof -
  have "snd (memcpy m d s n) x = m x" if "unat n \<le> unat (x - d)" for x
    using memcpy_loop_put [OF assms, of n m] that unat_lt64 [of n]
    by (simp add: memcpy_def put_bytes_apply)
  then show ?thesis using memcpy_get_back [OF assms] by (simp add: memcpy_def)
qed

theorem memcpy_correct_witness:
  "get_bytes (snd (memcpy (\<lambda>a. ucast a) 16 32 4)) 16 4 = [32, 33, 34, 35]"
proof -
  have "(16 :: ulong) + of_nat i \<noteq> 32 + of_nat j" if "i < 4" "j < 4" for i j
  proof -
    have "unat (16 + of_nat i :: ulong) = 16 + i" "unat (32 + of_nat j :: ulong) = 32 + j"
      using that by (simp_all add: unat_add64 unat_of_nat64)
    then show ?thesis using that by auto
  qed
  then have "get_bytes (snd (memcpy (\<lambda>a. ucast a) 16 32 4)) 16 4 = get_bytes (\<lambda>a. ucast a) 32 4"
    using memcpy_correct [of 4 16 32 "\<lambda>a. ucast a"] by simp
  also have "\<dots> = [32, 33, 34, 35]" by code_simp
  finally show ?thesis .
qed

text \<open>C11. On a string with its terminator at offset \<open>k\<close>, \<open>strlen\<close> returns \<open>k\<close>, and \<open>strnlen\<close>
  returns the smaller of \<open>k\<close> and the bound.\<close>

theorem strlen_strnlen_correct:
  assumes "\<And>i. i < k \<Longrightarrow> m (s + of_nat i) \<noteq> 0" and "m (s + of_nat k) = 0" and "k < 2 ^ 64"
  shows "strlen m s = Some (of_nat k) \<and> unat (strnlen m s maxlen) = min k (unat maxlen)"
proof -
  let ?n = "strnlen_loop m s maxlen 0"
  note r = strnlen_loop_min [of 0 maxlen m s]
  have "unat ?n = min k (unat maxlen)"
  proof (cases "k < unat ?n")
    case True
    then have "m (s + of_nat k) \<noteq> 0" using r by simp
    then show ?thesis using assms(2) by simp
  next
    case False
    moreover have "unat ?n = k" if "?n \<noteq> maxlen"
    proof (rule ccontr)
      assume "unat ?n \<noteq> k"
      then have "m (s + of_nat (unat ?n)) \<noteq> 0" using False by (intro assms(1)) simp
      then show False using r that by simp
    qed
    moreover have "unat ?n \<le> unat maxlen" using r by (simp add: word_le_nat_alt)
    ultimately show ?thesis by (cases "?n = maxlen") auto
  qed
  then show ?thesis using strlen_loop_count [of k m s 0, OF assms(1,2)] by (simp add: strlen_def strnlen_def)
qed

theorem strlen_strnlen_witness:
  "strlen (\<lambda>a. if a = 7 then 0 else 65) 5 = Some 2 \<and>
   unat (strnlen (\<lambda>a. if a = 7 then 0 else 65) 5 64) = 2"
proof -
  have "(if (5 :: ulong) + of_nat i = 7 then 0 else 65 :: byte) \<noteq> 0" if "i < 2" for i
  proof -
    have "i = 0 \<or> i = 1" using that by auto
    then show ?thesis by auto
  qed
  then show ?thesis
    using strlen_strnlen_correct [of 2 "\<lambda>a. if a = 7 then 0 else 65" 5 64] by simp
qed

section \<open>The console\<close>

text \<open>\<open>uart_putlong\<close> prints between 1 and 20 digits whose decimal value is its argument; its
  21-byte buffer is never indexed outside.\<close>

theorem uart_putlong_correct:
  "\<exists>ds. uart_putlong val s = Inr (s\<lparr>uart_out := uart_out s @ ds\<rparr>) \<and> dec_value ds = unat val \<and>
     1 \<le> length ds \<and> length ds \<le> 20"
  by (rule uart_putlong_prints)

end
