(* ===== verification/Pagetable.thy ===== *)
theory Pagetable
  imports Page_Source
begin

text \<open>
  \<^verbatim>\<open>mm/pagetable.c\<close>: three-level Sv39 page tables in RAM. Table entries are 64-bit cells of
  the byte memory, read and written through the kernel's linear map. The translation look-aside
  buffer is not modelled: \<^verbatim>\<open>sfence.vma\<close> has no effect on the state, and translations are read
  from the tables themselves.
\<close>

section \<open>Constants and macros\<close>

definition PTE_COUNT :: nat where "PTE_COUNT = 512"
definition PTE_V :: ulong where "PTE_V = push_bit 0 1"
definition PTE_R :: ulong where "PTE_R = push_bit 1 1"
definition PTE_W :: ulong where "PTE_W = push_bit 2 1"
definition PTE_X :: ulong where "PTE_X = push_bit 3 1"
definition PTE_U :: ulong where "PTE_U = push_bit 4 1"
definition PTE_A :: ulong where "PTE_A = push_bit 6 1"
definition PTE_D :: ulong where "PTE_D = push_bit 7 1"

lemmas pte_flag_defs = PTE_V_def PTE_R_def PTE_W_def PTE_X_def PTE_U_def PTE_A_def PTE_D_def

definition SATP_MODE_SV39 :: ulong where "SATP_MODE_SV39 = push_bit 60 8"

definition MAKE_SATP :: "ulong \<Rightarrow> ulong" where
  "MAKE_SATP pgtbl = SATP_MODE_SV39 OR (drop_bit PAGE_SHIFT pgtbl AND 0xFFFFFFFFFFF)"

record paging = buddy +
  satp :: ulong

section \<open>Operations\<close>

definition vpn_level :: "ulong \<Rightarrow> nat \<Rightarrow> nat" where
  "vpn_level va level = unat (drop_bit (PAGE_SHIFT + 9 * level) va AND 0x1FF)"

text \<open>The address of an element of a table, \<^verbatim>\<open>&pagetable[idx]\<close>.\<close>

definition pte_at :: "ulong \<Rightarrow> nat \<Rightarrow> ulong" where
  "pte_at pagetable idx = pagetable + of_nat idx * 8"

text \<open>The loop of \<open>walk\<close> with \<open>n\<close> levels to go; \<^verbatim>\<open>NULL\<close> is 0.\<close>

fun walk_levels :: "nat \<Rightarrow> ulong \<Rightarrow> ulong \<Rightarrow> int \<Rightarrow> 'z buddy_scheme \<Rightarrow> (ulong \<times> 'z buddy_scheme) kres" where
  "walk_levels 0 pagetable va alloc s = Inr (pte_at pagetable (vpn_level va 0), s)"
| "walk_levels (Suc n) pagetable va alloc s =
     (let pte = pte_at pagetable (vpn_level va (Suc n))
      in rbind (load64 s pte) (\<lambda>v.
         if v AND PTE_V \<noteq> 0 then walk_levels n (PHYS_TO_VIRT s (PTE2PA v)) va alloc s
         else if alloc = 0 then Inr (0, s)
         else rbind (alloc_page s) (\<lambda>(new_pg, s).
              if new_pg = 0 then Inr (0, s)
              else rbind (store64 pte (PA2PTE new_pg OR PTE_V) s) (\<lambda>s.
                   walk_levels n (PHYS_TO_VIRT s new_pg) va alloc s))))"

definition walk :: "ulong \<Rightarrow> ulong \<Rightarrow> int \<Rightarrow> 'z buddy_scheme \<Rightarrow> (ulong \<times> 'z buddy_scheme) kres" where
  "walk pagetable va alloc s = walk_levels 2 pagetable va alloc s"

definition map_page :: "ulong \<Rightarrow> ulong \<Rightarrow> ulong \<Rightarrow> int \<Rightarrow> 'z buddy_scheme \<Rightarrow> (int \<times> 'z buddy_scheme) kres" where
  "map_page pagetable va pa perm s =
     rbind (walk (PHYS_TO_VIRT s pagetable) va 1 s) (\<lambda>(pte, s).
     if pte = 0 then Inr (-1, s)
     else rbind (load64 s pte) (\<lambda>v.
          if v AND PTE_V = 0
          then rbind (store64 pte (PA2PTE pa OR word_of_int perm OR PTE_V OR PTE_A OR PTE_D) s) (\<lambda>s.
               Inr (0, s))
          else Inr (0, s)))"

definition unmap_page :: "ulong \<Rightarrow> ulong \<Rightarrow> 'z buddy_scheme \<Rightarrow> (int \<times> 'z buddy_scheme) kres" where
  "unmap_page pagetable va s =
     rbind (walk (PHYS_TO_VIRT s pagetable) va 0 s) (\<lambda>(pte, s).
     if pte = 0 then Inr (-1, s)
     else rbind (load64 s pte) (\<lambda>v.
          if v AND PTE_V = 0 then Inr (-1, s)
          else rbind (free_page (PTE2PA v) s) (\<lambda>s.
               rbind (store64 pte 0 s) (\<lambda>s. Inr (0, s)))))"

definition alloc_pagetable :: "'z buddy_scheme \<Rightarrow> (ulong \<times> 'z buddy_scheme) kres" where
  "alloc_pagetable s = alloc_page s"

definition load_pagetable :: "ulong \<Rightarrow> 'z paging_scheme \<Rightarrow> 'z paging_scheme" where
  "load_pagetable pagetable s = s\<lparr>satp := MAKE_SATP pagetable\<rparr>"

text \<open>
  \<open>free_pagetable\<close> recurses into every valid entry without permission bits. The bound \<open>d\<close> is on
  the depth of the recursion: tables are page-aligned pages of RAM, of which there are \<open>0x8000\<close>,
  and releasing a page does not change its contents, so a deeper recursion never ends.
\<close>

fun free_table :: "nat \<Rightarrow> ulong \<Rightarrow> 'z buddy_scheme \<Rightarrow> 'z buddy_scheme kres"
  and free_entries :: "nat \<Rightarrow> nat \<Rightarrow> ulong \<Rightarrow> 'z buddy_scheme \<Rightarrow> 'z buddy_scheme kres" where
  "free_table 0 pagetable s = Inl Diverge"
| "free_table (Suc d) pagetable s =
     (let pagetable = PHYS_TO_VIRT s pagetable
      in rbind (free_entries d PTE_COUNT pagetable s) (\<lambda>s. free_page pagetable s))"
| "free_entries d 0 pagetable s = Inr s"
| "free_entries d (Suc n) pagetable s =
     rbind (load64 s (pte_at pagetable (PTE_COUNT - Suc n))) (\<lambda>pte.
     rbind (if pte AND PTE_V \<noteq> 0 \<and> pte AND (PTE_R OR PTE_W OR PTE_X) = 0
            then free_table d (PTE2PA pte) s else Inr s) (\<lambda>s.
     free_entries d n pagetable s))"

definition free_pagetable :: "ulong \<Rightarrow> 'z buddy_scheme \<Rightarrow> 'z buddy_scheme kres" where
  "free_pagetable pagetable s = free_table 0x8002 pagetable s"

declare free_table.simps [simp del] free_entries.simps [simp del]

section \<open>Entries\<close>

lemma page_shift_back: "4096 dvd unat (p :: ulong) \<Longrightarrow> push_bit 12 (drop_bit 12 p) = p"
proof -
  assume d: "4096 dvd unat p"
  have "unat (push_bit 12 (drop_bit 12 p)) = unat p div 4096 * 4096"
    using unat_lt64 [of p] by (simp add: push_bit_eq_mult drop_bit_eq_div unat_mult64 unat_div
      le_less_trans [OF div_times_less_eq_dividend])
  then show ?thesis using d by (simp add: word_unat_eq_iff)
qed

lemma PTE2PA_PA2PTE:
  assumes "4096 dvd unat p" and "drop_bit 10 f = 0"
  shows "PTE2PA (PA2PTE p OR f) = p"
proof -
  have "drop_bit 10 (PA2PTE p OR f) = drop_bit 12 p"
  proof -
    have "drop_bit 10 (push_bit 10 (drop_bit 12 p)) = drop_bit 12 p"
      by (rule bit_word_eqI) (auto simp: bit_simps dest: bit_imp_le_length)
    then show ?thesis using assms(2) by (simp add: drop_bit_or PA2PTE_def PAGE_SHIFT_def)
  qed
  then show ?thesis using page_shift_back [OF assms(1)] by (simp add: PTE2PA_def)
qed

lemma PA2PTE_low: "n < 10 \<Longrightarrow> \<not> bit (PA2PTE p) n"
  by (simp add: PA2PTE_def bit_simps)

lemma PA2PTE_and: "drop_bit 10 f = 0 \<Longrightarrow> PA2PTE p AND f = 0"
proof (rule bit_word_eqI)
  fix n assume "drop_bit 10 f = 0"
  moreover have "bit (drop_bit 10 f) (n - 10) \<longleftrightarrow> bit f n" if "10 \<le> n" using that by (simp add: bit_simps)
  ultimately have "\<not> bit f n" if "10 \<le> n" using that by simp
  then show "bit (PA2PTE p AND f) n \<longleftrightarrow> bit 0 n" using PA2PTE_low [of n p]
    by (auto simp: bit_and_iff not_less [symmetric])
qed

lemma vpn_level_less: "vpn_level va l < 512"
proof -
  have "drop_bit (PAGE_SHIFT + 9 * l) va AND 0x1FF = take_bit 9 (drop_bit (PAGE_SHIFT + 9 * l) va)"
    by (simp add: take_bit_eq_mask mask_eq_exp_minus_1)
  then show ?thesis
    by (simp add: vpn_level_def unsigned_take_bit_eq take_bit_eq_mod unat_mod)
qed

section \<open>Cells of table pages\<close>

lemma cells_apartI:
  assumes "unat a + 8 \<le> unat b \<or> unat b + 8 \<le> unat a" and "unat a < 2 ^ 63" and "unat b < 2 ^ 63"
  shows "cells_apart a b"
  using assms by (auto simp: cells_apart_def unat_sub_if' word_le_nat_alt)

lemma unat_pte_at: "page_ok p \<Longrightarrow> i < 512 \<Longrightarrow> unat (pte_at p i) = unat p + 8 * i"
proof -
  assume p: "page_ok p" and i: "i < 512"
  have "unat (of_nat i * 8 :: ulong) = i * 8" using i by (subst unat_mult64) (simp_all add: unat_of_nat64)
  then show ?thesis using p i unfolding pte_at_def by (subst unat_add64) (simp_all add: page_ok_def)
qed

lemma pte_cells_apart:
  assumes "page_ok p" "page_ok q" "i < 512" "j < 512" "(p, i) \<noteq> (q, j)"
  shows "cells_apart (pte_at p i) (pte_at q j)"
proof (rule cells_apartI)
  obtain x y where xy: "unat p = 4096 * x" "unat q = 4096 * y"
    using assms(1,2) by (auto simp: page_ok_def elim!: dvdE)
  have "x \<noteq> y \<or> i \<noteq> j" using assms(5) xy by (auto simp: word_unat_eq_iff)
  then consider "x < y" | "y < x" | "x = y" "i < j" | "x = y" "j < i" by linarith
  then show "unat (pte_at p i) + 8 \<le> unat (pte_at q j) \<or> unat (pte_at q j) + 8 \<le> unat (pte_at p i)"
    unfolding unat_pte_at [OF assms(1,3)] unat_pte_at [OF assms(2,4)] xy
    by cases (use assms(3,4) in linarith)+
qed (use assms in \<open>simp_all add: unat_pte_at page_ok_def\<close>)

lemma pte_ram:
  assumes "page_ok p" and "i < 512"
  shows "ram_range s (pte_at (PHYS_TO_VIRT s p) i) 8"
    "pte_at (PHYS_TO_VIRT s p) i - va_offset s = pte_at p i"
proof -
  show e: "pte_at (PHYS_TO_VIRT s p) i - va_offset s = pte_at p i"
    by (simp add: pte_at_def PHYS_TO_VIRT_def)
  show "ram_range s (pte_at (PHYS_TO_VIRT s p) i) 8"
    using assms unat_pte_at [OF assms] unfolding ram_range_def e Let_def by (simp add: page_ok_def)
qed

lemma load_pte:
  "page_ok p \<Longrightarrow> i < 512 \<Longrightarrow> load64 s (pte_at (PHYS_TO_VIRT s p) i) = Inr (mem_get64 (m_mem s) (pte_at p i))"
  using pte_ram [of p i s] by (simp add: load64_def)

lemma store_pte:
  "page_ok p \<Longrightarrow> i < 512 \<Longrightarrow>
   store64 (pte_at (PHYS_TO_VIRT s p) i) v s = Inr (s\<lparr>m_mem := mem_put64 (m_mem s) (pte_at p i) v\<rparr>)"
  using pte_ram [of p i s] by (simp add: store64_def)

lemma pte_cell_in_page:
  assumes "page_ok p" and "i < 512" and "k < 8"
  shows "pte_at p i + of_nat k \<in> page_cells p"
proof -
  have "unat (pte_at p i + of_nat k) = unat p + 8 * i + k"
    using assms unat_pte_at [OF assms(1,2)]
    by (subst unat_add64) (simp_all add: unat_of_nat64 page_ok_def)
  then show ?thesis using assms by (simp add: page_cells_unat)
qed

lemma pte_fill_same: "page_ok p \<Longrightarrow> i < 512 \<Longrightarrow> mem_get64 (fill m p 0 4096) (pte_at p i) = 0"
  by (rule mem_get64_zero) (simp add: fill_page pte_cell_in_page)

lemma pte_fill_other:
  assumes "page_ok p" "page_ok q" "p \<noteq> q" "i < 512"
  shows "mem_get64 (fill m q c 4096) (pte_at p i) = mem_get64 m (pte_at p i)"
  unfolding mem_get64_def
proof (rule arg_cong [where f = of_le_bytes], rule get_bytes_cong)
  fix k :: nat assume "k < 8"
  then have "pte_at p i + of_nat k \<notin> page_cells q"
    using pte_cell_in_page [OF assms(1,4)] page_cells_disjoint [OF assms(1-3)] by blast
  then show "fill m q c 4096 (pte_at p i + of_nat k) = m (pte_at p i + of_nat k)"
    by (simp add: fill_page)
qed

end
