(* ===== verification/Snub.thy ===== *)
theory Snub
  imports Pagetable
begin

text \<open>
  \<^verbatim>\<open>mm/snub.c\<close>: caches of free objects in nine size classes, each a list linked through the
  first word of the free objects, refilled page by page from the buddy allocator.
\<close>

section \<open>Data and operations\<close>

definition SNUB_MIN_SHIFT :: nat where "SNUB_MIN_SHIFT = 4"
definition SNUB_MAX_SHIFT :: nat where "SNUB_MAX_SHIFT = 12"
definition SNUB_NUM_CLASSES :: nat where "SNUB_NUM_CLASSES = SNUB_MAX_SHIFT - SNUB_MIN_SHIFT + 1"

text \<open>The lock of \<^verbatim>\<open>caches[i]\<close> is \<open>CacheLock i\<close> of the machine.\<close>

record snub_cache =
  object_size :: uint
  partial :: ulong

record snub = paging +
  caches :: "snub_cache list"

function size_to_idx_loop :: "ulong \<Rightarrow> nat \<Rightarrow> nat" where
  "size_to_idx_loop sz shift =
     (if push_bit shift 1 < sz \<and> shift \<le> SNUB_MAX_SHIFT then size_to_idx_loop sz (shift + 1) else shift)"
  by pat_completeness auto
termination
  by (relation "measure (\<lambda>(sz, shift). SNUB_MAX_SHIFT + 1 - shift)") auto

definition size_to_idx :: "ulong \<Rightarrow> int" where
  "size_to_idx sz =
     (let shift = size_to_idx_loop sz SNUB_MIN_SHIFT
      in if SNUB_MAX_SHIFT < shift then -1 else int shift - int SNUB_MIN_SHIFT)"

text \<open>\<^verbatim>\<open>caches\<close> is a static array; \<open>snub_init\<close> sets every element of it.\<close>

fun snub_init_loop :: "nat \<Rightarrow> 'z snub_scheme \<Rightarrow> 'z snub_scheme" where
  "snub_init_loop 0 s = s"
| "snub_init_loop (Suc n) s =
     (let i = SNUB_NUM_CLASSES - Suc n;
          s = s\<lparr>caches := (caches s)[i := \<lparr>object_size = push_bit (SNUB_MIN_SHIFT + i) 1, partial = 0\<rparr>]\<rparr>
      in snub_init_loop n (spinlock_init (CacheLock i) s))"

definition snub_init :: "'z snub_scheme \<Rightarrow> 'z snub_scheme" where
  "snub_init s = snub_init_loop SNUB_NUM_CLASSES s"

text \<open>The loop that threads the objects of a new page, from object \<open>i\<close> on, \<open>n\<close> objects to go.\<close>

fun carve :: "nat \<Rightarrow> nat \<Rightarrow> ulong \<Rightarrow> ulong \<Rightarrow> ulong \<Rightarrow> 'z machine_scheme \<Rightarrow> (ulong \<times> 'z machine_scheme) kres" where
  "carve 0 i page sz head s = Inr (head, s)"
| "carve (Suc n) i page sz head s =
     (let obj = page + of_nat i * sz
      in rbind (store64 obj head s) (\<lambda>s. carve n (Suc i) page sz obj s))"

definition cache_partial :: "nat \<Rightarrow> ulong \<Rightarrow> 'z snub_scheme \<Rightarrow> 'z snub_scheme" where
  "cache_partial i v s = s\<lparr>caches := (caches s)[i := (caches s ! i)\<lparr>partial := v\<rparr>]\<rparr>"

definition pop_object :: "nat \<Rightarrow> 'z snub_scheme \<Rightarrow> (ulong \<times> 'z snub_scheme) kres" where
  "pop_object idx s =
     (let obj = partial (caches s ! idx)
      in rbind (load64 s obj) (\<lambda>nxt.
         rbind (spin_unlock (CacheLock idx) (cache_partial idx nxt s)) (\<lambda>s.
         Inr (obj, s))))"

definition kmalloc :: "ulong \<Rightarrow> 'z snub_scheme \<Rightarrow> (ulong \<times> 'z snub_scheme) kres" where
  "kmalloc sz s =
     (let i = size_to_idx sz
      in if i < 0 \<or> int SNUB_NUM_CLASSES \<le> i then Inr (0, s)
         else let idx = nat i in
         rbind (spin_lock (CacheLock idx) s) (\<lambda>s.
         if partial (caches s ! idx) = 0
         then rbind (alloc_page s) (\<lambda>(pg, s).
              let page = PHYS_TO_VIRT s pg
              in if page = 0
                 then rbind (spin_unlock (CacheLock idx) s) (\<lambda>s. Inr (0, s))
                 else let osz = ucast (object_size (caches s ! idx));
                          objs_per_page = unat (PAGE_SIZE div osz)
                      in rbind (carve objs_per_page 0 page osz 0 s) (\<lambda>(head, s).
                         pop_object idx (cache_partial idx head s)))
         else pop_object idx s))"

definition kzalloc :: "ulong \<Rightarrow> 'z snub_scheme \<Rightarrow> (ulong \<times> 'z snub_scheme) kres" where
  "kzalloc sz s =
     rbind (kmalloc sz s) (\<lambda>(ptr, s).
     if ptr \<noteq> 0 then rbind (kmemset ptr 0 sz s) (\<lambda>s. Inr (ptr, s)) else Inr (ptr, s))"

text \<open>The loop of \<open>kfree\<close> over the classes, and its address computation: \<^verbatim>\<open>page_idx\<close> is an
  \<^verbatim>\<open>int\<close>, and its product with the page size is computed in 32 bits and then extended.\<close>

fun kfree_loop :: "nat \<Rightarrow> ulong \<Rightarrow> ulong \<Rightarrow> 'z snub_scheme \<Rightarrow> 'z snub_scheme kres" where
  "kfree_loop 0 ptr diff s = free_pages (VIRT_TO_PHYS s ptr) s"
| "kfree_loop (Suc n) ptr diff s =
     (let i = SNUB_NUM_CLASSES - Suc n;
          obj_size = ucast (object_size (caches s ! i))
      in if diff mod obj_size = 0 \<and> diff < PAGE_SIZE
         then rbind (spin_lock (CacheLock i) s) (\<lambda>s.
              rbind (store64 ptr (partial (caches s ! i)) s) (\<lambda>s.
              spin_unlock (CacheLock i) (cache_partial i ptr s)))
         else kfree_loop n ptr diff s)"

definition kfree :: "ulong \<Rightarrow> 'z snub_scheme \<Rightarrow> 'z snub_scheme kres" where
  "kfree ptr s =
     (let offset = ptr - buddy_base_phys s;
          page_idx = (ucast (offset div PAGE_SIZE) :: uint);
          page_base = buddy_base_phys s + scast (page_idx * 4096);
          diff = ptr - page_base
      in kfree_loop SNUB_NUM_CLASSES ptr diff s)"

declare size_to_idx_loop.simps [simp del]

section \<open>Size classes\<close>

lemma size_to_idx_loop_spec:
  "\<lbrakk>4 \<le> k; k \<le> 13; \<forall>j. 4 \<le> j \<and> j < k \<longrightarrow> 2 ^ j < unat sz\<rbrakk> \<Longrightarrow>
   k \<le> size_to_idx_loop sz k \<and> size_to_idx_loop sz k \<le> 13 \<and>
   (size_to_idx_loop sz k \<le> 12 \<longrightarrow> unat sz \<le> 2 ^ size_to_idx_loop sz k) \<and>
   (\<forall>j. 4 \<le> j \<and> j < size_to_idx_loop sz k \<longrightarrow> 2 ^ j < unat sz)"
proof (induction "13 - k" arbitrary: k)
  case 0
  then have "k = 13" by simp
  then show ?case using 0 by (simp add: size_to_idx_loop.simps [of sz 13] SNUB_MAX_SHIFT_def)
next
  case (Suc d)
  then have k: "k \<le> 12" by simp
  have p: "unat (push_bit k 1 :: ulong) = 2 ^ k"
  proof -
    have "(2 :: nat) ^ k < 2 ^ 64" using k by (intro power_strict_increasing) simp_all
    then have "unat (of_nat (2 ^ k) :: ulong) = 2 ^ k" by (rule unat_of_nat64)
    then show ?thesis by (simp add: push_bit_eq_mult)
  qed
  show ?case
  proof (cases "2 ^ k < unat sz")
    case True
    have "size_to_idx_loop sz k = size_to_idx_loop sz (k + 1)"
      using True k p by (subst size_to_idx_loop.simps) (simp add: word_less_nat_alt SNUB_MAX_SHIFT_def)
    moreover have "\<forall>j. 4 \<le> j \<and> j < k + 1 \<longrightarrow> 2 ^ j < unat sz"
      using Suc.prems(3) True by (auto simp: less_Suc_eq)
    moreover have "d = 13 - (k + 1)" "4 \<le> k + 1" "k + 1 \<le> 13" using Suc.hyps(2) Suc.prems(1) k by simp_all
    ultimately show ?thesis using Suc.hyps(1) [of "k + 1"] by fastforce
  next
    case False
    then have "size_to_idx_loop sz k = k"
      using p by (subst size_to_idx_loop.simps) (simp add: word_less_nat_alt)
    then show ?thesis using False Suc.prems by auto
  qed
qed

text \<open>The class of a size is the smallest whose objects are large enough; sizes above a page
  have none.\<close>

lemma size_to_idx_spec:
  "(unat sz \<le> 4096 \<longrightarrow> (\<exists>i < 9. size_to_idx sz = int i \<and> unat sz \<le> 2 ^ (4 + i) \<and>
       (\<forall>j < i. 2 ^ (4 + j) < unat sz))) \<and>
   (4096 < unat sz \<longrightarrow> size_to_idx sz = -1)"
proof -
  let ?k = "size_to_idx_loop sz 4"
  note r = size_to_idx_loop_spec [of 4 sz]
  show ?thesis
  proof (cases "?k \<le> 12")
    case True
    then have "(2 :: nat) ^ ?k \<le> 2 ^ 12" by (intro power_increasing) simp_all
    then have "unat sz \<le> 4096" using r True by simp
    moreover have "\<forall>j < ?k - 4. 2 ^ (4 + j) < unat sz" using r by auto
    ultimately show ?thesis using r True
      by (intro conjI impI exI [of _ "?k - 4"])
        (auto simp: size_to_idx_def SNUB_MIN_SHIFT_def SNUB_MAX_SHIFT_def Let_def)
  next
    case False
    have "\<forall>j. 4 \<le> j \<and> j < ?k \<longrightarrow> 2 ^ j < unat sz" using r by simp
    then have "2 ^ 12 < unat sz" using False by (elim allE [of _ 12]) simp
    then show ?thesis using False
      by (simp add: size_to_idx_def SNUB_MIN_SHIFT_def SNUB_MAX_SHIFT_def Let_def)
  qed
qed

end
