(* ===== verification/Klist.thy ===== *)
theory Klist
  imports Kernel_Prelude
begin

text \<open>
  \<^verbatim>\<open>list.h\<close>: circular doubly linked lists threaded through nodes that are embedded in other
  structures. The nodes live in a heap of their own, a map from the address of a node to its
  two pointers; using an address that holds no node faults. A list with head \<open>q\<close> is abstracted
  to the sequence of the addresses of its other nodes.
\<close>

section \<open>Nodes and operations\<close>

record list_node =
  ln_prev :: ulong
  ln_next :: ulong

type_synonym node_heap = "ulong \<rightharpoonup> list_node"

definition get_next :: "node_heap \<Rightarrow> ulong \<Rightarrow> ulong kres" where
  "get_next h a = (case h a of None \<Rightarrow> Inl (Fault a) | Some n \<Rightarrow> Inr (ln_next n))"

definition get_prev :: "node_heap \<Rightarrow> ulong \<Rightarrow> ulong kres" where
  "get_prev h a = (case h a of None \<Rightarrow> Inl (Fault a) | Some n \<Rightarrow> Inr (ln_prev n))"

definition set_next :: "ulong \<Rightarrow> ulong \<Rightarrow> node_heap \<Rightarrow> node_heap kres" where
  "set_next a v h = (case h a of None \<Rightarrow> Inl (Fault a) | Some n \<Rightarrow> Inr (h(a \<mapsto> n\<lparr>ln_next := v\<rparr>)))"

definition set_prev :: "ulong \<Rightarrow> ulong \<Rightarrow> node_heap \<Rightarrow> node_heap kres" where
  "set_prev a v h = (case h a of None \<Rightarrow> Inl (Fault a) | Some n \<Rightarrow> Inr (h(a \<mapsto> n\<lparr>ln_prev := v\<rparr>)))"

definition LIST_HEAD_INIT :: "ulong \<Rightarrow> node_heap \<Rightarrow> node_heap kres" where
  "LIST_HEAD_INIT ptr h = rbind (set_next ptr ptr h) (\<lambda>h. set_prev ptr ptr h)"

definition list_add :: "ulong \<Rightarrow> ulong \<Rightarrow> node_heap \<Rightarrow> node_heap kres" where
  "list_add new head h =
     rbind (get_next h head) (\<lambda>n.
     rbind (set_next new n h) (\<lambda>h.
     rbind (set_prev new head h) (\<lambda>h.
     rbind (get_next h head) (\<lambda>n.
     rbind (set_prev n new h) (\<lambda>h.
     set_next head new h)))))"

definition list_add_tail :: "ulong \<Rightarrow> ulong \<Rightarrow> node_heap \<Rightarrow> node_heap kres" where
  "list_add_tail new head h =
     rbind (set_next new head h) (\<lambda>h.
     rbind (get_prev h head) (\<lambda>p.
     rbind (set_prev new p h) (\<lambda>h.
     rbind (get_prev h head) (\<lambda>p.
     rbind (set_next p new h) (\<lambda>h.
     set_prev head new h)))))"

definition list_del :: "ulong \<Rightarrow> node_heap \<Rightarrow> node_heap kres" where
  "list_del entry h =
     rbind (get_next h entry) (\<lambda>n.
     rbind (get_prev h entry) (\<lambda>p.
     rbind (set_prev n p h) (\<lambda>h.
     rbind (get_prev h entry) (\<lambda>p.
     rbind (get_next h entry) (\<lambda>n.
     rbind (set_next p n h) (\<lambda>h.
     rbind (set_prev entry 0 h) (\<lambda>h.
     set_next entry 0 h)))))))"

definition list_empty :: "node_heap \<Rightarrow> ulong \<Rightarrow> bool kres" where
  "list_empty h head = rbind (get_next h head) (\<lambda>n. Inr (n = head))"

definition list_in_queue :: "node_heap \<Rightarrow> ulong \<Rightarrow> bool kres" where
  "list_in_queue h node =
     rbind (get_next h node) (\<lambda>n.
     if n = 0 then Inr False else rbind (get_prev h node) (\<lambda>p. Inr (p \<noteq> 0)))"

lemmas list_op_defs = get_next_def get_prev_def set_next_def set_prev_def

section \<open>Lists as sequences of addresses\<close>

text \<open>From node \<open>a\<close> over the nodes \<open>xs\<close> to node \<open>b\<close>, with the pointers agreeing both ways.\<close>

primrec seg :: "node_heap \<Rightarrow> ulong \<Rightarrow> ulong list \<Rightarrow> ulong \<Rightarrow> bool" where
  "seg h a [] b \<longleftrightarrow> map_option ln_next (h a) = Some b \<and> map_option ln_prev (h b) = Some a"
| "seg h a (x # xs) b \<longleftrightarrow>
     map_option ln_next (h a) = Some x \<and> map_option ln_prev (h x) = Some a \<and> seg h x xs b"

definition dll :: "node_heap \<Rightarrow> ulong \<Rightarrow> ulong list \<Rightarrow> bool" where
  "dll h q xs \<longleftrightarrow> distinct (q # xs) \<and> seg h q xs q"

lemma seg_append: "seg h a (xs @ y # ys) b \<longleftrightarrow> seg h a xs y \<and> seg h y ys b"
  by (induction xs arbitrary: a) auto

text \<open>A segment depends on the next fields of its nodes but the last, and the prev fields of
  its nodes but the first.\<close>

lemma seg_cong:
  "\<lbrakk>seg h a xs b;
    \<And>x. x \<in> set (a # xs) \<Longrightarrow> map_option ln_next (h' x) = map_option ln_next (h x);
    \<And>x. x \<in> set (xs @ [b]) \<Longrightarrow> map_option ln_prev (h' x) = map_option ln_prev (h x)\<rbrakk>
   \<Longrightarrow> seg h' a xs b"
  by (induction xs arbitrary: a) auto

lemma seg_nodes: "seg h a xs b \<Longrightarrow> x \<in> set (a # xs @ [b]) \<Longrightarrow> \<exists>n. h x = Some n"
  by (induction xs arbitrary: a) auto

lemma seg_last: "seg h a xs b \<Longrightarrow> map_option ln_prev (h b) = Some (last (a # xs))"
  by (induction xs arbitrary: a) auto

lemma seg_first: "seg h a xs b \<Longrightarrow> map_option ln_next (h a) = Some (hd (xs @ [b]))"
  by (cases xs) auto

lemma dll_frame:
  "dll h q xs \<Longrightarrow> (\<And>x. x \<in> set (q # xs) \<Longrightarrow> h' x = h x) \<Longrightarrow> dll h' q xs"
  unfolding dll_def using seg_cong [of h q xs q h'] by auto

lemma LIST_HEAD_INIT_ok:
  "h a = Some n \<Longrightarrow> \<exists>h'. LIST_HEAD_INIT a h = Inr h' \<and> dll h' a [] \<and> (\<forall>x. x \<noteq> a \<longrightarrow> h' x = h x)"
  by (simp add: LIST_HEAD_INIT_def list_op_defs dll_def)

lemma list_empty_ok: "dll h q xs \<Longrightarrow> list_empty h q = Inr (xs = [])"
  by (cases xs) (auto simp: dll_def list_empty_def get_next_def split: option.splits)

lemma list_first_ok: "dll h q (x # xs) \<Longrightarrow> get_next h q = Inr x"
  by (auto simp: dll_def get_next_def split: option.splits)

text \<open>Redirecting the end of a segment to another node.\<close>

lemma seg_redirect:
  "\<lbrakk>seg h a xs b; distinct (a # xs);
    \<And>y. y \<in> set (butlast (a # xs)) \<Longrightarrow> map_option ln_next (h' y) = map_option ln_next (h y);
    \<And>y. y \<in> set xs \<Longrightarrow> map_option ln_prev (h' y) = map_option ln_prev (h y);
    map_option ln_next (h' (last (a # xs))) = Some c; map_option ln_prev (h' c) = Some (last (a # xs))\<rbrakk>
   \<Longrightarrow> seg h' a xs c"
proof (induction xs arbitrary: a)
  case (Cons x xs)
  have "seg h' x xs c"
    using Cons.prems by (intro Cons.IH) auto
  then show ?case using Cons.prems(1) Cons.prems(3) [of a] Cons.prems(4) [of x] by auto
qed simp

lemma butlast_not_last: "distinct xs \<Longrightarrow> y \<in> set (butlast xs) \<Longrightarrow> y \<noteq> last xs"
  by (induction xs) auto

text \<open>The effect of the operations on the pointers.\<close>

lemma list_add_tail_ptrs:
  assumes "seg h q xs q" and "h new = Some W" and "new \<notin> set (q # xs)"
  defines "p \<equiv> last (q # xs)"
  shows "\<exists>h'. list_add_tail new q h = Inr h' \<and>
    (\<forall>y. map_option ln_next (h' y) = (if y = p then Some new else if y = new then Some q else map_option ln_next (h y))) \<and>
    (\<forall>y. map_option ln_prev (h' y) = (if y = q then Some new else if y = new then Some p else map_option ln_prev (h y))) \<and>
    (\<forall>y. y \<notin> {q, p, new} \<longrightarrow> h' y = h y)"
proof -
  have p: "p \<in> set (q # xs)" unfolding p_def by (rule last_in_set) simp
  then have ne: "p \<noteq> new" "q \<noteq> new" using assms(3) by auto
  obtain H P where H: "h q = Some H" "h p = Some P"
    using seg_nodes [OF assms(1), of q] seg_nodes [OF assms(1), of p] p by auto
  have lp: "ln_prev H = p" using seg_last [OF assms(1)] H(1) by (simp add: p_def)
  show ?thesis
    using ne H lp assms(2) by (cases "p = q") (auto simp: list_add_tail_def list_op_defs)
qed

lemma list_del_ptrs:
  assumes "seg h q ys x" and "seg h x zs q" and "x \<notin> set (q # ys @ zs)"
  defines "p \<equiv> last (q # ys)" and "n \<equiv> hd (zs @ [q])"
  shows "\<exists>h'. list_del x h = Inr h' \<and> h' x = Some \<lparr>ln_prev = 0, ln_next = 0\<rparr> \<and>
    (\<forall>y. y \<noteq> x \<longrightarrow> map_option ln_next (h' y) = (if y = p then Some n else map_option ln_next (h y))) \<and>
    (\<forall>y. y \<noteq> x \<longrightarrow> map_option ln_prev (h' y) = (if y = n then Some p else map_option ln_prev (h y))) \<and>
    (\<forall>y. y \<notin> {p, n, x} \<longrightarrow> h' y = h y)"
proof -
  have p: "p \<in> set (q # ys)" unfolding p_def by (rule last_in_set) simp
  have n: "n \<in> set (zs @ [q])" unfolding n_def by (rule hd_in_set) simp
  have ne: "p \<noteq> x" "n \<noteq> x" using p n assms(3) by auto
  obtain P N X where H: "h p = Some P" "h n = Some N" "h x = Some X"
    using seg_nodes [OF assms(1), of p] seg_nodes [OF assms(2), of n] seg_nodes [OF assms(2), of x] p n by auto
  have X: "ln_prev X = p" "ln_next X = n"
    using seg_last [OF assms(1)] seg_first [OF assms(2)] H(3) by (simp_all add: p_def n_def)
  show ?thesis
    using ne H X by (cases "p = n") (auto simp: list_del_def list_op_defs)
qed

section \<open>Correctness of the operations\<close>

lemma list_add_tail_ok:
  assumes d: "dll h q xs" and new: "h new = Some W" "new \<notin> set (q # xs)"
  shows "\<exists>h'. list_add_tail new q h = Inr h' \<and> dll h' q (xs @ [new]) \<and>
     (\<forall>y. y \<notin> set (q # new # xs) \<longrightarrow> h' y = h y)"
proof -
  have s: "seg h q xs q" and dist: "distinct (q # xs)" using d by (auto simp: dll_def)
  let ?p = "last (q # xs)"
  obtain h' where h': "list_add_tail new q h = Inr h'"
    "\<And>y. map_option ln_next (h' y) = (if y = ?p then Some new else if y = new then Some q else map_option ln_next (h y))"
    "\<And>y. map_option ln_prev (h' y) = (if y = q then Some new else if y = new then Some ?p else map_option ln_prev (h y))"
    "\<And>y. y \<notin> {q, ?p, new} \<Longrightarrow> h' y = h y"
    using list_add_tail_ptrs [OF s new] by blast
  have p: "?p \<in> set (q # xs)" by (rule last_in_set) simp
  have "seg h' q xs new"
  proof (rule seg_redirect [OF s dist])
    fix y assume "y \<in> set (butlast (q # xs))"
    then show "map_option ln_next (h' y) = map_option ln_next (h y)"
      using butlast_not_last [OF dist] in_set_butlastD [of y "q # xs"] new(2) h'(2) by auto
  qed (use h'(2,3) p new(2) dist in auto)
  moreover have "seg h' new [] q" using h'(2,3) p new(2) by auto
  ultimately have "dll h' q (xs @ [new])" using dist new(2) by (auto simp: dll_def seg_append)
  moreover have "h' y = h y" if "y \<notin> set (q # new # xs)" for y using h'(4) [of y] p that by auto
  ultimately show ?thesis using h'(1) by blast
qed

lemma list_del_ok:
  assumes d: "dll h q xs" and x: "x \<in> set xs"
  shows "\<exists>h'. list_del x h = Inr h' \<and> dll h' q (remove1 x xs) \<and>
     h' x = Some \<lparr>ln_prev = 0, ln_next = 0\<rparr> \<and> (\<forall>y. y \<notin> set (q # xs) \<longrightarrow> h' y = h y)"
proof -
  obtain ys zs where xs: "xs = ys @ x # zs" "x \<notin> set ys" using x by (meson split_list_first)
  have dist: "distinct (q # ys @ x # zs)" and s: "seg h q ys x" "seg h x zs q"
    using d xs(1) by (auto simp: dll_def seg_append)
  then have nx: "x \<notin> set (q # ys @ zs)" by auto
  let ?p = "last (q # ys)" and ?n = "hd (zs @ [q])"
  obtain h' where h': "list_del x h = Inr h'" "h' x = Some \<lparr>ln_prev = 0, ln_next = 0\<rparr>"
    "\<And>y. y \<noteq> x \<Longrightarrow> map_option ln_next (h' y) = (if y = ?p then Some ?n else map_option ln_next (h y))"
    "\<And>y. y \<noteq> x \<Longrightarrow> map_option ln_prev (h' y) = (if y = ?n then Some ?p else map_option ln_prev (h y))"
    "\<And>y. y \<notin> {?p, ?n, x} \<Longrightarrow> h' y = h y"
    using list_del_ptrs [OF s nx] by blast
  have p: "?p \<in> set (q # ys)" by (rule last_in_set) simp
  have n: "?n \<in> set (zs @ [q])" by (rule hd_in_set) simp
  have pnx: "?p \<noteq> x" "?n \<noteq> x" using p n nx by auto
  have "seg h' q ys ?n"
  proof (rule seg_redirect [OF s(1)])
    show "distinct (q # ys)" using dist by auto
    fix y assume "y \<in> set (butlast (q # ys))"
    then have "y \<noteq> ?p" "y \<in> set (q # ys)"
      using butlast_not_last [of "q # ys" y] in_set_butlastD [of y "q # ys"] dist by auto
    then show "map_option ln_next (h' y) = map_option ln_next (h y)"
      using h'(3) [of y] nx by (cases "y = x") simp_all
  next
    fix y assume "y \<in> set ys"
    moreover from this have "y \<noteq> x" "y \<noteq> ?n" using n dist by auto
    ultimately show "map_option ln_prev (h' y) = map_option ln_prev (h y)" using h'(4) [of y] by simp
  qed (use h'(3) [of ?p] h'(4) [of ?n] pnx in simp_all)
  moreover have "seg h' n' zs' q" if zs: "zs = n' # zs'" for n' zs'
  proof (rule seg_cong [of h])
    show "seg h n' zs' q" using s(2) zs by simp
    show "map_option ln_next (h' y) = map_option ln_next (h y)" if y: "y \<in> set (n' # zs')" for y
    proof -
      have "y \<noteq> x" "y \<noteq> ?p" using y p dist zs by auto
      then show ?thesis using h'(3) [of y] by simp
    qed
    show "map_option ln_prev (h' y) = map_option ln_prev (h y)" if y: "y \<in> set (zs' @ [q])" for y
    proof -
      have "y \<noteq> x" "y \<noteq> ?n" using y dist zs by auto
      then show ?thesis using h'(4) [of y] by simp
    qed
  qed
  ultimately have "seg h' q (ys @ zs) q" by (cases zs) (auto simp: seg_append)
  then have "dll h' q (remove1 x xs)" using dist xs by (auto simp: dll_def remove1_append)
  moreover have "h' y = h y" if "y \<notin> set (q # xs)" for y using h'(5) [of y] p n that xs(1) by auto
  ultimately show ?thesis using h'(1,2) by blast
qed

lemma list_add_ok:
  assumes d: "dll h q xs" and new: "h new = Some W" "new \<notin> set (q # xs)"
  shows "\<exists>h'. list_add new q h = Inr h' \<and> dll h' q (new # xs) \<and>
     (\<forall>y. y \<notin> set (q # new # xs) \<longrightarrow> h' y = h y)"
proof -
  have s: "seg h q xs q" and dist: "distinct (q # xs)" using d by (auto simp: dll_def)
  let ?n = "hd (xs @ [q])"
  have n: "?n \<in> set (q # xs)" by (cases xs) auto
  then have ne: "?n \<noteq> new" "q \<noteq> new" using new(2) by auto
  obtain H N where H: "h q = Some H" "h ?n = Some N"
    using seg_nodes [OF s, of q] seg_nodes [OF s, of ?n] n by auto
  have ln: "ln_next H = ?n" using seg_first [OF s] H(1) by simp
  obtain h' where h': "list_add new q h = Inr h'" "h' new = Some \<lparr>ln_prev = q, ln_next = ?n\<rparr>"
    "\<forall>y. y \<noteq> new \<longrightarrow> map_option ln_next (h' y) = (if y = q then Some new else map_option ln_next (h y))"
    "\<forall>y. y \<noteq> new \<longrightarrow> map_option ln_prev (h' y) = (if y = ?n then Some new else map_option ln_prev (h y))"
    "\<forall>y. y \<notin> {q, ?n, new} \<longrightarrow> h' y = h y"
    using ne H ln new(1) by (cases "?n = q") (auto simp: list_add_def list_op_defs)
  have "seg h' new xs q"
  proof (cases xs)
    case Nil
    then show ?thesis using h'(2,4) ne by auto
  next
    case (Cons x ys)
    have "seg h' x ys q"
    proof (rule seg_cong [of h])
      show "seg h x ys q" using s Cons by simp
      show "map_option ln_next (h' y) = map_option ln_next (h y)" if "y \<in> set (x # ys)" for y
        using h'(3) that Cons dist new(2) by auto
      show "map_option ln_prev (h' y) = map_option ln_prev (h y)" if "y \<in> set (ys @ [q])" for y
        using h'(4) that Cons dist new(2) by auto
    qed
    moreover have "map_option ln_prev (h' x) = Some new" using h'(4) Cons ne by simp
    ultimately show ?thesis using Cons h'(2) by simp
  qed
  moreover have "map_option ln_next (h' q) = Some new" "map_option ln_prev (h' new) = Some q"
    using h'(2,3) ne by auto
  ultimately have "dll h' q (new # xs)" using dist new(2) by (auto simp: dll_def)
  moreover have "h' y = h y" if "y \<notin> set (q # new # xs)" for y using h'(5) n that by auto
  ultimately show ?thesis using h'(1) by blast
qed


section \<open>Queues of nodes\<close>

text \<open>
  What the scheduler and the timer rely on: queues identified by the address of their head, a
  node in at most one place, insertion at the end, removal from anywhere, and operations on one
  queue leaving the others alone.
\<close>

locale node_queue =
  fixes queue :: "'h \<Rightarrow> ulong \<Rightarrow> ulong list \<Rightarrow> bool"
    and node :: "'h \<Rightarrow> ulong \<Rightarrow> bool"
    and front :: "'h \<Rightarrow> ulong \<Rightarrow> ulong kres"
    and enqueue :: "ulong \<Rightarrow> ulong \<Rightarrow> 'h \<Rightarrow> 'h kres"
    and remove :: "ulong \<Rightarrow> 'h \<Rightarrow> 'h kres"
  assumes front_empty: "queue h q [] \<Longrightarrow> front h q = Inr q"
    and front_cons: "queue h q (x # xs) \<Longrightarrow> front h q = Inr x"
    and queue_distinct: "queue h q xs \<Longrightarrow> distinct (q # xs)"
    and enqueue_ok: "\<lbrakk>queue h q xs; node h n; n \<notin> set (q # xs)\<rbrakk> \<Longrightarrow>
      \<exists>h'. enqueue n q h = Inr h' \<and> queue h' q (xs @ [n])"
    and enqueue_other: "\<lbrakk>queue h q xs; node h n; n \<notin> set (q # xs); enqueue n q h = Inr h';
      queue h r ys; set (q # n # xs) \<inter> set (r # ys) = {}\<rbrakk> \<Longrightarrow> queue h' r ys"
    and enqueue_nodes: "\<lbrakk>queue h q xs; node h n; n \<notin> set (q # xs); enqueue n q h = Inr h'\<rbrakk> \<Longrightarrow>
      node h' y = node h y"
    and remove_ok: "\<lbrakk>queue h q xs; x \<in> set xs\<rbrakk> \<Longrightarrow>
      \<exists>h'. remove x h = Inr h' \<and> queue h' q (remove1 x xs)"
    and remove_other: "\<lbrakk>queue h q xs; x \<in> set xs; remove x h = Inr h'; queue h r ys;
      set (q # xs) \<inter> set (r # ys) = {}\<rbrakk> \<Longrightarrow> queue h' r ys"
    and remove_nodes: "\<lbrakk>queue h q xs; x \<in> set xs; remove x h = Inr h'\<rbrakk> \<Longrightarrow> node h' y = node h y"
    and queue_node: "\<lbrakk>queue h q xs; x \<in> set (q # xs)\<rbrakk> \<Longrightarrow> node h x"
begin

text \<open>One turn of a round robin: the first node of the queue replaces \<open>r\<close>, which goes to the
  end. With an empty queue \<open>r\<close> stays.\<close>

definition turn :: "ulong \<Rightarrow> ulong \<Rightarrow> 'h \<Rightarrow> (ulong \<times> 'h) kres" where
  "turn q r h = rbind (front h q) (\<lambda>x.
     if x = q then Inr (r, h)
     else rbind (remove x h) (\<lambda>h. rbind (enqueue r q h) (\<lambda>h. Inr (x, h))))"

fun turns :: "nat \<Rightarrow> ulong \<Rightarrow> ulong \<Rightarrow> 'h \<Rightarrow> (ulong \<times> 'h) kres" where
  "turns 0 q r h = Inr (r, h)"
| "turns (Suc n) q r h = rbind (turn q r h) (\<lambda>(r, h). turns n q r h)"

lemma turn_rotates:
  assumes Q: "queue h q xs" and r: "node h r" "r \<notin> set (q # xs)"
  shows "\<exists>h' x ys. turn q r h = Inr (x, h') \<and> queue h' q ys \<and> node h' x \<and> x \<notin> set (q # ys) \<and>
     x # ys = rotate1 (r # xs)"
proof (cases xs)
  case Nil
  then show ?thesis using Q r front_empty by (simp add: turn_def)
next
  case (Cons x ys)
  have x: "x \<noteq> q" "x \<notin> set ys" "q \<notin> set ys" using queue_distinct [OF Q] Cons by auto
  obtain h1 where h1: "remove x h = Inr h1" "queue h1 q ys" using remove_ok [OF Q, of x] Cons by auto
  have n1: "node h1 y = node h y" for y using remove_nodes [OF Q _ h1(1)] Cons by simp
  obtain h2 where h2: "enqueue r q h1 = Inr h2" "queue h2 q (ys @ [r])"
    using enqueue_ok [OF h1(2), of r] r n1 Cons by auto
  have "node h2 x"
    using enqueue_nodes [OF h1(2) _ _ h2(1)] r n1 Cons queue_node [OF Q, of x] by auto
  then show ?thesis
    using h1(1) h2 front_cons [of h q x ys] Q Cons x r(2) by (auto simp: turn_def)
qed

lemma turns_rotate:
  "\<lbrakk>queue h q xs; node h r; r \<notin> set (q # xs)\<rbrakk> \<Longrightarrow>
   \<exists>h' x ys. turns n q r h = Inr (x, h') \<and> queue h' q ys \<and> x # ys = rotate n (r # xs)"
proof (induction n arbitrary: h r xs)
  case (Suc n)
  obtain h1 x ys where s: "turn q r h = Inr (x, h1)" "queue h1 q ys" "node h1 x" "x \<notin> set (q # ys)"
      "x # ys = rotate1 (r # xs)"
    using turn_rotates [OF Suc.prems] by blast
  obtain h' y zs where "turns n q x h1 = Inr (y, h')" "queue h' q zs" "y # zs = rotate n (x # ys)"
    using Suc.IH [OF s(2-4)] by blast
  then show ?case using s(1,5) by (auto simp: rotate1_rotate_swap)
qed auto

text \<open>Every waiting node gets its turn: the one at position \<open>k\<close> after \<open>k + 1\<close> turns.\<close>

lemma turns_reach:
  assumes "queue h q xs" and "node h r" and "r \<notin> set (q # xs)" and "k < length xs"
  shows "\<exists>h'. turns (Suc k) q r h = Inr (xs ! k, h')"
proof -
  obtain h' x ys where "turns (Suc k) q r h = Inr (x, h')" "x # ys = rotate (Suc k) (r # xs)"
    using turns_rotate [OF assms(1-3), of "Suc k"] by blast
  moreover have "hd (rotate (Suc k) (r # xs)) = (r # xs) ! Suc k"
    using hd_rotate_conv_nth [of "r # xs" "Suc k"] assms(4) by simp
  ultimately show ?thesis by (metis list.sel(1) nth_Cons_Suc)
qed

end

lemma list_add_tail_dom:
  assumes "list_add_tail n q h = Inr h'"
  shows "dom h' = dom h"
  using assms by (auto simp: list_add_tail_def list_op_defs rbind_eq_Inr split: option.splits if_splits)

lemma list_del_dom:
  assumes "list_del n h = Inr h'"
  shows "dom h' = dom h"
  using assms by (auto simp: list_del_def list_op_defs rbind_eq_Inr split: option.splits if_splits)

interpretation kq: node_queue dll "\<lambda>h x. x \<in> dom h" get_next list_add_tail list_del
proof
  fix h q xs n h' r ys y x
  show "get_next h q = Inr q" if "dll h q []"
    using that by (auto simp: dll_def get_next_def split: option.splits)
  show "get_next h q = Inr x" if "dll h q (x # xs)" by (rule list_first_ok [OF that])
  show "distinct (q # xs)" if "dll h q xs" using that by (simp add: dll_def)
  show "\<exists>h'. list_add_tail n q h = Inr h' \<and> dll h' q (xs @ [n])"
    if "dll h q xs" "n \<in> dom h" "n \<notin> set (q # xs)"
    using list_add_tail_ok [OF that(1) _ that(3)] that(2) by blast
  show "dll h' r ys" if "dll h q xs" "n \<in> dom h" "n \<notin> set (q # xs)" "list_add_tail n q h = Inr h'"
    "dll h r ys" "set (q # n # xs) \<inter> set (r # ys) = {}"
  proof (rule dll_frame [OF that(5)])
    fix y assume "y \<in> set (r # ys)"
    then have "y \<notin> set (q # n # xs)" using that(6) by blast
    then show "h' y = h y" using list_add_tail_ok [OF that(1) _ that(3)] that(2,4) by auto
  qed
  show "y \<in> dom h' \<longleftrightarrow> y \<in> dom h" if "list_add_tail n q h = Inr h'"
    using list_add_tail_dom [OF that] by simp
  show "\<exists>h'. list_del x h = Inr h' \<and> dll h' q (remove1 x xs)" if "dll h q xs" "x \<in> set xs"
    using list_del_ok [OF that] by blast
  show "dll h' r ys" if "dll h q xs" "x \<in> set xs" "list_del x h = Inr h'" "dll h r ys"
    "set (q # xs) \<inter> set (r # ys) = {}"
  proof (rule dll_frame [OF that(4)])
    fix y assume "y \<in> set (r # ys)"
    then have "y \<notin> set (q # xs)" using that(5) by blast
    then show "h' y = h y" using list_del_ok [OF that(1,2)] that(3) by auto
  qed
  show "y \<in> dom h' \<longleftrightarrow> y \<in> dom h" if "list_del x h = Inr h'" using list_del_dom [OF that] by simp
  show "x \<in> dom h" if "dll h q xs" "x \<in> set (q # xs)"
    using that seg_nodes [of h q xs q x] by (auto simp: dll_def)
qed

end
