(* ===== verification/Page_Loop.thy ===== *)
theory Page_Loop
  imports Machine
begin

text \<open>
  The loop \<^verbatim>\<open>for (ulong va = start; va < end; va += PAGE_SIZE)\<close>, which the kernel writes in
  \<^verbatim>\<open>copy_kernel_mappings\<close>, \<^verbatim>\<open>setup_kernel_pagetable\<close>, \<^verbatim>\<open>sys_sbrk\<close>, \<^verbatim>\<open>sys_munmap\<close> and
  \<^verbatim>\<open>dump_mappings\<close>. The body says whether to go on (\<open>True\<close>) or to leave the enclosing function
  (\<open>False\<close>). With an end within a page of \<open>2 ^ 64\<close> the counter wraps around and the loop does not
  end: the value is then \<^const>\<open>None\<close>.
\<close>

partial_function (option) page_loop ::
    "(ulong \<Rightarrow> 's \<Rightarrow> (bool \<times> 's) kres) \<Rightarrow> ulong \<Rightarrow> ulong \<Rightarrow> 's \<Rightarrow> (bool \<times> 's) kres option" where
  "page_loop body va end_va s =
     (if va < end_va
      then case body va s of
             Inl e \<Rightarrow> Some (Inl e)
           | Inr r \<Rightarrow> if fst r then page_loop body (va + PAGE_SIZE) end_va (snd r)
                     else Some (Inr (False, snd r))
      else Some (Inr (True, s)))"

definition for_pages ::
    "ulong \<Rightarrow> ulong \<Rightarrow> (ulong \<Rightarrow> 's \<Rightarrow> (bool \<times> 's) kres) \<Rightarrow> 's \<Rightarrow> (bool \<times> 's) kres" where
  "for_pages start end_va body s =
     (case page_loop body start end_va s of None \<Rightarrow> Inl Diverge | Some r \<Rightarrow> r)"

declare page_loop.simps [code]

text \<open>The addresses the loop visits.\<close>

definition page_at :: "ulong \<Rightarrow> nat \<Rightarrow> ulong" where
  "page_at start k = start + of_nat k * PAGE_SIZE"

definition page_count :: "ulong \<Rightarrow> ulong \<Rightarrow> nat" where
  "page_count start end_va = (unat end_va - unat start + 4095) div 4096"

lemma page_at_0 [simp]: "page_at start 0 = start"
  by (simp add: page_at_def)

lemma page_at_Suc: "page_at start (Suc k) = page_at start k + PAGE_SIZE"
  by (simp add: page_at_def algebra_simps)

lemma unat_page_at:
  assumes "unat start + 4096 * k < 2 ^ 64"
  shows "unat (page_at start k) = unat start + 4096 * k"
proof -
  have "unat (of_nat k :: ulong) = k" using assms by (intro unat_of_nat64) simp
  then have "unat (of_nat k * PAGE_SIZE) = 4096 * k"
    using assms by (subst unat_mult64) (simp_all add: PAGE_SIZE_def)
  then show ?thesis using assms unfolding page_at_def by (subst unat_add64) simp_all
qed

lemma page_count_iff: "k < page_count start end_va \<longleftrightarrow> unat start + 4096 * k < unat end_va"
proof -
  have "k < page_count start end_va \<longleftrightarrow> Suc k * 4096 \<le> unat end_va - unat start + 4095"
    by (simp add: page_count_def less_eq_div_iff_mult_less_eq Suc_le_eq [symmetric] del: mult_Suc)
  then show ?thesis by auto
qed

lemma page_at_bound:
  assumes "unat end_va \<le> 2 ^ 64 - 4096" and "k \<le> page_count start end_va" and "start \<le> end_va"
  shows "unat (page_at start k) = unat start + 4096 * k" "page_at start k < end_va \<longleftrightarrow> k < page_count start end_va"
proof -
  have "unat start + 4096 * k < 2 ^ 64"
  proof (cases k)
    case 0
    then show ?thesis using unat_lt64 [of start] by simp
  next
    case (Suc j)
    then have "unat start + 4096 * j < unat end_va" using assms(2) page_count_iff [of j start end_va] by simp
    then show ?thesis using Suc assms(1) by simp
  qed
  then show u: "unat (page_at start k) = unat start + 4096 * k" by (rule unat_page_at)
  show "page_at start k < end_va \<longleftrightarrow> k < page_count start end_va"
    unfolding page_count_iff word_less_nat_alt u ..
qed

text \<open>
  The rule for the loop. \<open>I k\<close> holds before the body runs for page \<open>k\<close>; \<open>Q\<close> after an early
  exit. The loop then returns, and goes through all pages or leaves early.
\<close>

lemma for_pages_rule:
  assumes bound: "start \<le> end_va" "unat end_va \<le> 2 ^ 64 - 4096" and init: "I 0 s"
    and step: "\<And>k s. \<lbrakk>k < page_count start end_va; I k s\<rbrakk> \<Longrightarrow>
      \<exists>r. body (page_at start k) s = Inr r \<and> (if fst r then I (Suc k) (snd r) else Q k (snd r))"
  shows "\<exists>go s'. for_pages start end_va body s = Inr (go, s') \<and>
     (if go then I (page_count start end_va) s' else \<exists>k < page_count start end_va. Q k s')"
proof -
  let ?n = "page_count start end_va"
  have "I k s \<Longrightarrow> k \<le> ?n \<Longrightarrow> \<exists>go s'. page_loop body (page_at start k) end_va s = Some (Inr (go, s')) \<and>
      (if go then I ?n s' else \<exists>k < ?n. Q k s')" for k s
  proof (induction "?n - k" arbitrary: k s)
    case 0
    then have "k = ?n" by simp
    then show ?case using 0 page_at_bound(2) [OF bound(2) _ bound(1), of k]
      by (subst page_loop.simps) auto
  next
    case (Suc d)
    then have k: "k < ?n" by simp
    obtain r where r: "body (page_at start k) s = Inr r" "if fst r then I (Suc k) (snd r) else Q k (snd r)"
      using step [OF k Suc.prems(1)] by blast
    have lt: "page_at start k < end_va" using page_at_bound(2) [OF bound(2) _ bound(1), of k] k by simp
    show ?case
    proof (cases "fst r")
      case True
      then have "\<exists>go s'. page_loop body (page_at start (Suc k)) end_va (snd r) = Some (Inr (go, s')) \<and>
          (if go then I ?n s' else \<exists>k < ?n. Q k s')"
        using Suc.hyps(1) [of "Suc k" "snd r"] Suc.hyps(2) r(2) k by simp
      then show ?thesis using True r(1) lt by (subst page_loop.simps) (simp add: page_at_Suc)
    next
      case False
      then show ?thesis using r k lt by (subst page_loop.simps) auto
    qed
  qed
  from this [of 0 s] init show ?thesis unfolding for_pages_def by fastforce
qed

lemma for_pages_empty: "\<not> start < end_va \<Longrightarrow> for_pages start end_va body s = Inr (True, s)"
  unfolding for_pages_def by (subst page_loop.simps) simp

lemma for_pages_first_error:
  "\<lbrakk>start < end_va; body start s = Inl e\<rbrakk> \<Longrightarrow> for_pages start end_va body s = Inl e"
  unfolding for_pages_def by (subst page_loop.simps) simp

end
