(* ===== verification/Proc.thy ===== *)
theory Proc
  imports Snub Klist Uart Page_Loop
begin

text \<open>
  \<^verbatim>\<open>proc.h\<close> and \<^verbatim>\<open>proc.c\<close>: processes, the per-hart structure, creation and release of a
  process. Process structures, trap frames and list nodes live in heaps of their own, maps from
  addresses to values; an access to an address that holds no such object faults. The object a
  block of zeroed memory is used as is put in its heap when the code starts to use it, with all
  fields zero.
\<close>

section \<open>Data\<close>

definition NCPU :: nat where "NCPU = 4"
definition UART0 :: ulong where "UART0 = 0x10000000 + VA_OFFSET"

record trap_frame =
  regs :: "ulong list"
  sepc :: ulong
  sstatus :: ulong
  scause :: ulong
  stval :: ulong

record kcontext =
  ra :: ulong
  sp :: ulong
  s_regs :: "ulong list"

datatype proc_state = UNUSED | SLEEPING | RUNNABLE | RUNNING | ZOMBIE

text \<open>\<^verbatim>\<open>q_node\<close> is the list node at offset 144 of the structure.\<close>

record proc =
  pid :: uint
  p_state :: proc_state
  is_idle :: uint
  bound_cpu :: uint
  sleep_until :: ulong
  p_tf :: ulong
  ctx :: kcontext
  p_pagetable :: ulong
  heap_start :: ulong
  heap_end :: ulong
  kstack :: ulong
  ustack :: ulong

definition sizeof_proc_t :: ulong where "sizeof_proc_t = 200"
definition sizeof_trap_frame_t :: ulong where "sizeof_trap_frame_t = 288"
definition sizeof_cpu_t :: ulong where "sizeof_cpu_t = 64"

definition q_node :: "ulong \<Rightarrow> ulong" where "q_node p = p + 144"
definition run_queue :: "ulong \<Rightarrow> ulong" where "run_queue c = c + 32"
definition sleep_queue :: "ulong \<Rightarrow> ulong" where "sleep_queue c = c + 48"

text \<open>\<^verbatim>\<open>container_of(node, proc_t, q_node)\<close>.\<close>

definition proc_of :: "ulong \<Rightarrow> ulong" where "proc_of node = node - 144"

lemma proc_of_q_node [simp]: "proc_of (q_node p) = p" "q_node (proc_of n) = n"
  by (simp_all add: proc_of_def q_node_def)

definition context_zero :: kcontext where
  "context_zero = \<lparr>ra = 0, sp = 0, s_regs = replicate 12 0\<rparr>"

definition frame_zero :: trap_frame where
  "frame_zero = \<lparr>regs = replicate 32 0, sepc = 0, sstatus = 0, scause = 0, stval = 0\<rparr>"

definition proc_zero :: proc where
  "proc_zero = \<lparr>pid = 0, p_state = UNUSED, is_idle = 0, bound_cpu = 0, sleep_until = 0, p_tf = 0,
     ctx = context_zero, p_pagetable = 0, heap_start = 0, heap_end = 0, kstack = 0, ustack = 0\<rparr>"

text \<open>
  The kernel's state on top of the object caches: the heaps, \<^verbatim>\<open>next_pid\<close>, the rest of the
  current hart's \<^verbatim>\<open>cpu_t\<close> (at address \<^verbatim>\<open>tp\<close>), the callee-saved registers of the hart, the
  supervisor registers the code writes, and the readings of the \<^verbatim>\<open>time\<close> register: the \<open>n\<close>-th
  reading gives \<open>time_at n\<close>.
\<close>

record kernel = snub +
  nodes :: node_heap
  procs :: "ulong \<rightharpoonup> proc"
  frames :: "ulong \<rightharpoonup> trap_frame"
  next_pid :: ulong
  tp :: ulong
  needs_sched :: int
  cpu_proc :: ulong
  hart_ctx :: kcontext
  stvec :: ulong
  sscratch :: ulong
  stimecmp :: ulong
  csr_scause :: ulong
  time_at :: "nat \<Rightarrow> ulong"
  time_reads :: nat

text \<open>The addresses the linker chooses.\<close>

record symbols =
  sym_cpus :: ulong
  sym_idle_procs :: ulong
  sym_kernel_end :: ulong
  sym_stack :: ulong
  sym_idle_loop :: ulong
  sym_trap_vector :: ulong
  sym_idle_trap_vector :: ulong
  sym_text_start :: ulong
  sym_text_end :: ulong
  sym_rodata_start :: ulong
  sym_rodata_end :: ulong
  sym_data_start :: ulong
  sym_shell_start :: ulong
  sym_shell_end :: ulong
  sym_s_mode_main :: ulong

section \<open>Access to the heaps\<close>

definition get_proc :: "'z kernel_scheme \<Rightarrow> ulong \<Rightarrow> proc kres" where
  "get_proc s p = (case procs s p of None \<Rightarrow> Inl (Fault p) | Some v \<Rightarrow> Inr v)"

definition upd_proc :: "ulong \<Rightarrow> (proc \<Rightarrow> proc) \<Rightarrow> 'z kernel_scheme \<Rightarrow> 'z kernel_scheme kres" where
  "upd_proc p f s = rbind (get_proc s p) (\<lambda>v. Inr (s\<lparr>procs := (procs s)(p \<mapsto> f v)\<rparr>))"

definition get_frame :: "'z kernel_scheme \<Rightarrow> ulong \<Rightarrow> trap_frame kres" where
  "get_frame s a = (case frames s a of None \<Rightarrow> Inl (Fault a) | Some v \<Rightarrow> Inr v)"

definition upd_frame :: "ulong \<Rightarrow> (trap_frame \<Rightarrow> trap_frame) \<Rightarrow> 'z kernel_scheme \<Rightarrow> 'z kernel_scheme kres" where
  "upd_frame a f s = rbind (get_frame s a) (\<lambda>v. Inr (s\<lparr>frames := (frames s)(a \<mapsto> f v)\<rparr>))"

definition with_nodes :: "(node_heap \<Rightarrow> node_heap kres) \<Rightarrow> 'z kernel_scheme \<Rightarrow> 'z kernel_scheme kres" where
  "with_nodes f s = rbind (f (nodes s)) (\<lambda>h. Inr (s\<lparr>nodes := h\<rparr>))"

text \<open>Zeroed memory used as a process structure, or as a trap frame.\<close>

definition new_proc :: "ulong \<Rightarrow> 'z kernel_scheme \<Rightarrow> 'z kernel_scheme" where
  "new_proc p s = s\<lparr>procs := (procs s)(p \<mapsto> proc_zero),
     nodes := (nodes s)(q_node p \<mapsto> \<lparr>ln_prev = 0, ln_next = 0\<rparr>)\<rparr>"

definition new_frame :: "ulong \<Rightarrow> 'z kernel_scheme \<Rightarrow> 'z kernel_scheme" where
  "new_frame a s = s\<lparr>frames := (frames s)(a \<mapsto> frame_zero)\<rparr>"

definition ATOMIC_INC_AND_FETCH :: "'z kernel_scheme \<Rightarrow> ulong \<times> 'z kernel_scheme" where
  "ATOMIC_INC_AND_FETCH s = (next_pid s + 1, s\<lparr>next_pid := next_pid s + 1\<rparr>)"

section \<open>Printing and copying mappings\<close>

definition dump_mapping :: "ulong \<Rightarrow> ulong \<Rightarrow> 'z kernel_scheme \<Rightarrow> (bool \<times> 'z kernel_scheme) kres" where
  "dump_mapping pagetable va s =
     rbind (walk pagetable va 0 s) (\<lambda>(pte, s).
     rbind (if pte = 0 then Inr 0 else load64 s pte) (\<lambda>v.
     if pte = 0 \<or> v AND PTE_V = 0
     then rbind (uart_puts (cstr ''VA not mapped: '') s) (\<lambda>s.
          rbind (uart_puthex va s) (\<lambda>s. Inr (True, uart_putc 10 s)))
     else rbind (uart_puts (cstr ''VA: '') s) (\<lambda>s.
          rbind (uart_puthex va s) (\<lambda>s.
          rbind (uart_puts (cstr '' -> PA: '') s) (\<lambda>s.
          rbind (uart_puthex (PTE2PA v) s) (\<lambda>s.
          rbind (uart_puts (cstr '' Flags: '') s) (\<lambda>s.
          rbind (uart_puthex (PTE_FLAGS v) s) (\<lambda>s. Inr (True, uart_putc 10 s)))))))))"

definition dump_mappings :: "ulong \<Rightarrow> ulong \<Rightarrow> ulong \<Rightarrow> 'z kernel_scheme \<Rightarrow> 'z kernel_scheme kres" where
  "dump_mappings pagetable start_va end_va s =
     rbind (for_pages start_va end_va (dump_mapping pagetable) s) (\<lambda>(_, s). Inr s)"

definition copy_mapping ::
    "ulong \<Rightarrow> ulong \<Rightarrow> ulong \<Rightarrow> 'z kernel_scheme \<Rightarrow> (bool \<times> 'z kernel_scheme) kres" where
  "copy_mapping dst src va s =
     rbind (walk src va 0 s) (\<lambda>(src_pte, s).
     rbind (if src_pte = 0 then Inr 0 else load64 s src_pte) (\<lambda>v.
     if src_pte = 0 \<or> v AND PTE_V = 0
     then rbind (uart_puts (cstr ''copy_kernel_mappings: missing PTE at '') s) (\<lambda>s.
          rbind (uart_puthex va s) (\<lambda>s. Inr (True, uart_putc 10 s)))
     else rbind (map_page dst va (PTE2PA v) (c_int (PTE_FLAGS v)) s) (\<lambda>(ret, s).
          if ret \<noteq> 0
          then rbind (uart_puts (cstr ''copy_kernel_mappings: map_page failed at '') s) (\<lambda>s.
               rbind (uart_puthex va s) (\<lambda>s. Inr (True, uart_putc 10 s)))
          else Inr (True, s))))"

definition copy_kernel_mappings ::
    "symbols \<Rightarrow> ulong \<Rightarrow> ulong \<Rightarrow> 'z kernel_scheme \<Rightarrow> 'z kernel_scheme kres" where
  "copy_kernel_mappings L dst src s =
     rbind (for_pages KERNEL_START_VA (sym_kernel_end L) (copy_mapping dst src) s) (\<lambda>(_, s). Inr s)"

text \<open>The line printed for one valid entry.\<close>

definition dump_line :: "nat \<Rightarrow> int \<Rightarrow> ulong \<Rightarrow> ulong \<Rightarrow> 'z kernel_scheme \<Rightarrow> 'z kernel_scheme kres" where
  "dump_line i level va pte s =
     rbind (uart_puts (cstr ''L'') s) (\<lambda>s.
     rbind (uart_puts (cstr '' Entry '') (uart_putc (48 + word_of_int level) s)) (\<lambda>s.
     rbind (uart_puthex (of_nat i) s) (\<lambda>s.
     rbind (uart_puts (cstr '': VA '') s) (\<lambda>s.
     rbind (uart_puthex va s) (\<lambda>s.
     rbind (uart_puts (cstr '' -> PTE '') s) (\<lambda>s.
     rbind (uart_puthex pte s) (\<lambda>s.
     rbind (if pte AND (PTE_R OR PTE_W OR PTE_X) \<noteq> 0
            then rbind (uart_puts (cstr '' -> PA '') s) (\<lambda>s. uart_puthex (PTE2PA pte) s)
            else Inr s) (\<lambda>s.
     Inr (uart_putc 10 s)))))))))"

text \<open>The entries from \<open>512 - n\<close> on. The recursion goes one level down per valid entry without
  permissions; \<open>d\<close> bounds its depth as in \<open>free_pagetable\<close>.\<close>

function (sequential) dump_entries ::
    "nat \<Rightarrow> nat \<Rightarrow> ulong \<Rightarrow> int \<Rightarrow> ulong \<Rightarrow> 'z kernel_scheme \<Rightarrow> 'z kernel_scheme kres" where
  "dump_entries d 0 pagetable level va_base s = Inr s"
| "dump_entries 0 (Suc n) pagetable level va_base s = Inl Diverge"
| "dump_entries (Suc d) (Suc n) pagetable level va_base s =
     rbind (load64 s (pte_at pagetable (PTE_COUNT - Suc n))) (\<lambda>pte.
     rbind (if pte AND PTE_V = 0 then Inr s
            else let va = va_base OR push_bit (nat (12 + 9 * level)) (of_nat (PTE_COUNT - Suc n))
                 in rbind (dump_line (PTE_COUNT - Suc n) level va pte s) (\<lambda>s.
                    if pte AND (PTE_R OR PTE_W OR PTE_X) = 0
                    then dump_entries d PTE_COUNT (PHYS_TO_VIRT s (PTE2PA pte)) (level - 1) va s
                    else Inr s)) (\<lambda>s.
     dump_entries (Suc d) n pagetable level va_base s))"
  by pat_completeness auto
termination
  by (relation "inv_image (less_than <*lex*> less_than) (\<lambda>(d, n, _). (d, n))") auto

definition dump_pagetable_recursive :: "ulong \<Rightarrow> int \<Rightarrow> ulong \<Rightarrow> 'z kernel_scheme \<Rightarrow> 'z kernel_scheme kres" where
  "dump_pagetable_recursive pagetable level va_base s = dump_entries 0x8002 PTE_COUNT pagetable level va_base s"

declare dump_entries.simps [simp del]

section \<open>Release\<close>

definition free_proc :: "ulong \<Rightarrow> 'z kernel_scheme \<Rightarrow> 'z kernel_scheme kres" where
  "free_proc p s =
     (if p = 0 then Inr s
      else rbind (list_in_queue (nodes s) (q_node p)) (\<lambda>q.
           rbind (if q then with_nodes (list_del (q_node p)) s else Inr s) (\<lambda>s.
           rbind (get_proc s p) (\<lambda>v.
           rbind (if ustack v \<noteq> 0 then free_page (ustack v) s else Inr s) (\<lambda>s.
           rbind (if p_pagetable v \<noteq> 0 then free_pagetable (p_pagetable v) s else Inr s) (\<lambda>s.
           rbind (if kstack v \<noteq> 0 then kfree (kstack v) s else Inr s) (\<lambda>s.
           kfree p s)))))))"

section \<open>Creation\<close>

text \<open>Steps that may end in \<^verbatim>\<open>goto fail1\<close>: the flag says whether to go on.\<close>

definition andthen ::
    "(bool \<times> 's) kres \<Rightarrow> ('s \<Rightarrow> (bool \<times> 's) kres) \<Rightarrow> (bool \<times> 's) kres" where
  "andthen m f = rbind m (\<lambda>(ok, s). if ok then f s else Inr (False, s))"

definition try_map ::
    "ulong \<Rightarrow> ulong \<Rightarrow> ulong \<Rightarrow> ulong \<Rightarrow> 'z kernel_scheme \<Rightarrow> (bool \<times> 'z kernel_scheme) kres" where
  "try_map pagetable va pa perm s =
     rbind (map_page pagetable va pa (c_int perm) s) (\<lambda>(ret, s). Inr (ret \<noteq> -1, s))"

function load_binary ::
    "ulong \<Rightarrow> ulong \<Rightarrow> ulong \<Rightarrow> ulong \<Rightarrow> 'z kernel_scheme \<Rightarrow> ((bool \<times> ulong) \<times> 'z kernel_scheme) kres" where
  "load_binary pagetable va src remaining s =
     (if remaining > 0
      then rbind (alloc_page s) (\<lambda>(user_bin_pa, s).
           if user_bin_pa = 0 then Inr ((False, va), s)
           else let to_copy = (if remaining > PAGE_SIZE then PAGE_SIZE else remaining)
                in rbind (kmemcpy (PHYS_TO_VIRT s user_bin_pa) src to_copy s) (\<lambda>s.
                   rbind (try_map pagetable va user_bin_pa (PTE_R OR PTE_X OR PTE_U) s) (\<lambda>(ok, s).
                   if ok then load_binary pagetable (va + PAGE_SIZE) (src + to_copy) (remaining - to_copy) s
                   else Inr ((False, va), s))))
      else Inr ((True, va), s))"
  by pat_completeness auto
termination
proof (relation "measure (\<lambda>(pagetable, va, src, remaining, s). unat remaining)")
  fix remaining to_copy :: ulong
  assume r: "remaining > 0" "to_copy = (if remaining > PAGE_SIZE then PAGE_SIZE else remaining)"
  then have "to_copy \<le> remaining" "to_copy > 0" by (auto simp: PAGE_SIZE_def word_gt_0)
  then have "unat (remaining - to_copy) < unat remaining"
    by (simp add: unat_sub word_le_nat_alt word_less_nat_alt)
  then show "((pt, v, sr, remaining - to_copy, t), (pt', v', sr', remaining, t')) \<in>
      measure (\<lambda>(pagetable, va, src, remaining, s). unat remaining)" for pt v sr t pt' v' sr' t'
    by simp
qed simp

text \<open>From the process identifier to the mapping of the kernel stack.\<close>

definition create_space :: "ulong \<Rightarrow> 'z kernel_scheme \<Rightarrow> (bool \<times> 'z kernel_scheme) kres" where
  "create_space p s =
     (let (n, s) = ATOMIC_INC_AND_FETCH s
      in rbind (upd_proc p (\<lambda>v. v\<lparr>pid := ucast n, bound_cpu := -1\<rparr>) s) (\<lambda>s.
         rbind (alloc_pagetable s) (\<lambda>(pt, s).
         rbind (upd_proc p (\<lambda>v. v\<lparr>p_pagetable := pt\<rparr>) s) (\<lambda>s.
         if pt = 0 then Inr (False, s)
         else rbind (kzalloc KSTACK_SIZE s) (\<lambda>(ks, s).
              rbind (upd_proc p (\<lambda>v. v\<lparr>kstack := ks\<rparr>) s) (\<lambda>s.
              if ks = 0 then Inr (False, s)
              else andthen (try_map pt p (VIRT_TO_PHYS s p) (PTE_R OR PTE_W) s) (\<lambda>s.
                   try_map pt ks (VIRT_TO_PHYS s ks) (PTE_R OR PTE_W) s)))))))"

text \<open>The trap frame at the end of the kernel stack.\<close>

definition create_frame :: "ulong \<Rightarrow> 'z kernel_scheme \<Rightarrow> (bool \<times> 'z kernel_scheme) kres" where
  "create_frame p s =
     rbind (get_proc s p) (\<lambda>v.
     let tf = kstack v + KSTACK_SIZE - sizeof_trap_frame_t
     in rbind (upd_proc p (\<lambda>v. v\<lparr>p_tf := tf\<rparr>) (new_frame tf s)) (\<lambda>s.
        rbind (upd_frame tf (\<lambda>f. f\<lparr>regs := (regs f)[2 := USER_STACK_TOP]\<rparr>) s) (\<lambda>s.
        rbind (upd_frame tf (\<lambda>f. f\<lparr>sepc := USER_START_VA\<rparr>) s) (\<lambda>s.
        rbind (upd_frame tf (\<lambda>f. f\<lparr>sstatus := SSTATUS_SPIE OR SSTATUS_SUM\<rparr>) s) (\<lambda>s.
        rbind (upd_proc p (\<lambda>v. v\<lparr>ctx := (ctx v)\<lparr>sp := tf\<rparr>\<rparr>) s) (\<lambda>s.
        Inr (True, s)))))))"

text \<open>The user binary, the heap bounds and the user stack.\<close>

definition create_image :: "ulong \<Rightarrow> ulong \<Rightarrow> ulong \<Rightarrow> 'z kernel_scheme \<Rightarrow> (bool \<times> 'z kernel_scheme) kres" where
  "create_image p binary binary_size s =
     rbind (get_proc s p) (\<lambda>v.
     let pt = p_pagetable v
     in rbind (load_binary pt USER_START_VA binary binary_size s) (\<lambda>((ok, va), s).
        if \<not> ok then Inr (False, s)
        else rbind (upd_proc p (\<lambda>v. v\<lparr>heap_start := ALIGN_UP va, heap_end := ALIGN_UP va\<rparr>) s) (\<lambda>s.
             rbind (alloc_page s) (\<lambda>(us, s).
             rbind (upd_proc p (\<lambda>v. v\<lparr>ustack := us\<rparr>) s) (\<lambda>s.
             if us = 0 then Inr (False, s)
             else try_map pt (USER_STACK_TOP - USER_STACK_SIZE) us (PTE_R OR PTE_W OR PTE_U) s)))))"

text \<open>The kernel's mappings, the console's mapping and the run queue.\<close>

definition create_publish :: "symbols \<Rightarrow> ulong \<Rightarrow> 'z kernel_scheme \<Rightarrow> (bool \<times> 'z kernel_scheme) kres" where
  "create_publish L p s =
     rbind (get_proc s p) (\<lambda>v.
     let pt = p_pagetable v
     in rbind (copy_kernel_mappings L pt (PHYS_TO_VIRT s (kernel_pagetable s)) s) (\<lambda>s.
        rbind (try_map pt UART0 (VIRT_TO_PHYS s UART0) (PTE_R OR PTE_W) s) (\<lambda>(ok, s).
        if \<not> ok then Inl (Halt H_proc_uart)
        else rbind (upd_proc p (\<lambda>v. v\<lparr>p_state := RUNNABLE\<rparr>) s) (\<lambda>s.
             rbind (with_nodes (list_add_tail (q_node p)
               (run_queue (sym_cpus L + ucast (cpu_id (m_hart s)) * sizeof_cpu_t))) s) (\<lambda>s.
             Inr (True, s))))))"

definition create_proc_body ::
    "symbols \<Rightarrow> ulong \<Rightarrow> ulong \<Rightarrow> ulong \<Rightarrow> 'z kernel_scheme \<Rightarrow> (bool \<times> 'z kernel_scheme) kres" where
  "create_proc_body L p binary binary_size s =
     andthen (create_space p s) (\<lambda>s.
     andthen (create_frame p s) (\<lambda>s.
     andthen (create_image p binary binary_size s) (\<lambda>s.
     create_publish L p s)))"

definition create_proc ::
    "symbols \<Rightarrow> ulong \<Rightarrow> ulong \<Rightarrow> 'z kernel_scheme \<Rightarrow> (ulong \<times> 'z kernel_scheme) kres" where
  "create_proc L binary binary_size s =
     rbind (kzalloc sizeof_proc_t s) (\<lambda>(p, s).
     if p = 0 then Inr (0, s)
     else rbind (create_proc_body L p binary binary_size (new_proc p s)) (\<lambda>(ok, s).
          if ok then Inr (p, s)
          else rbind (free_proc p s) (\<lambda>s. Inr (0, s))))"

declare load_binary.simps [simp del]

end
