(* ===== verification/Sched.thy ===== *)
theory Sched
  imports Proc
begin

text \<open>
  \<^verbatim>\<open>sched.c\<close>, \<^verbatim>\<open>swtch.S\<close>, \<^verbatim>\<open>timer.h\<close> and the idle loop. The run queue and the sleep queue of
  the hart hold the \<^verbatim>\<open>q_node\<close>s of processes. A call of \<open>schedule\<close> is modelled up to the end of
  the context switch in it: the hart then continues at \<^verbatim>\<open>ra\<close> of its new context, and the old
  process continues after its own call when it is switched to again.
\<close>

section \<open>Context switch\<close>

definition swtch :: "ulong \<Rightarrow> ulong \<Rightarrow> 'z kernel_scheme \<Rightarrow> 'z kernel_scheme kres" where
  "swtch old new s =
     rbind (upd_proc old (\<lambda>v. v\<lparr>ctx := hart_ctx s\<rparr>) s) (\<lambda>s.
     rbind (get_proc s new) (\<lambda>v.
     Inr (s\<lparr>hart_ctx := ctx v\<rparr>)))"

definition idle_proc :: "symbols \<Rightarrow> uint \<Rightarrow> ulong" where
  "idle_proc L i = sym_idle_procs L + ucast i * sizeof_proc_t"

text \<open>\<open>idle_loop\<close> up to the first \<^verbatim>\<open>wfi\<close>.\<close>

definition idle_loop :: "symbols \<Rightarrow> 'z kernel_scheme \<Rightarrow> 'z kernel_scheme" where
  "idle_loop L s =
     s\<lparr>stvec := sym_idle_trap_vector L,
       m_hart := (m_hart s)\<lparr>csr_sstatus := set_csr (csr_sstatus (m_hart s)) SSTATUS_SIE\<rparr>\<rparr>"

definition schedule :: "symbols \<Rightarrow> 'z kernel_scheme \<Rightarrow> 'z kernel_scheme kres" where
  "schedule L s =
     (let c = tp s; old = cpu_proc s; hd_node = run_queue c
      in rbind (get_next (nodes s) hd_node) (\<lambda>node.
         if node \<noteq> hd_node
         then let new = proc_of node
              in rbind (with_nodes (list_del (q_node new)) s) (\<lambda>s.
                 rbind (upd_proc new (\<lambda>v. v\<lparr>p_state := RUNNING\<rparr>) s) (\<lambda>s.
                 rbind (get_proc s old) (\<lambda>ov.
                 rbind (if is_idle ov = 0
                        then rbind (upd_proc old (\<lambda>v. v\<lparr>p_state := RUNNABLE\<rparr>) s)
                               (with_nodes (list_add_tail (q_node old) (run_queue c)))
                        else Inr s) (\<lambda>s.
                 let s = s\<lparr>cpu_proc := new, stvec := sym_trap_vector L\<rparr>
                 in rbind (get_proc s new) (\<lambda>n.
                    swtch old new ((load_pagetable (p_pagetable n) s)\<lparr>sscratch := p_tf n\<rparr>))))))
         else rbind (get_proc s old) (\<lambda>ov.
              if is_idle ov = 0
              then let idle = idle_proc L (cpu_id (m_hart s)); s = s\<lparr>cpu_proc := idle\<rparr>
                   in rbind (upd_proc idle (\<lambda>v. v\<lparr>ctx := (ctx v)\<lparr>ra := sym_idle_loop L,
                               sp := kstack v + KSTACK_SIZE\<rparr>\<rparr>) s) (\<lambda>s.
                      swtch old idle (load_pagetable (kernel_pagetable s) s))
              else Inr s)))"

section \<open>Timer\<close>

definition TIME_FREQ :: ulong where "TIME_FREQ = 10000000"
definition TIMER_INTERVAL :: ulong where "TIMER_INTERVAL = TIME_FREQ div 100"
definition MS_TO_TIME :: "ulong \<Rightarrow> ulong" where "MS_TO_TIME ms = ms * (TIME_FREQ div 1000)"
definition MAX_SLEEP_MS :: ulong where "MAX_SLEEP_MS = 60 * 1000"

definition read_time :: "'z kernel_scheme \<Rightarrow> ulong \<times> 'z kernel_scheme" where
  "read_time s = (time_at s (time_reads s), s\<lparr>time_reads := Suc (time_reads s)\<rparr>)"

definition timer_init :: "'z kernel_scheme \<Rightarrow> 'z kernel_scheme" where
  "timer_init s = (let (t, s) = read_time s in s\<lparr>stimecmp := t + TIMER_INTERVAL\<rparr>)"

text \<open>The loop over the sleep queue, which takes the next node before the current one may be
  moved; with arbitrary pointers it need not end.\<close>

definition wake_one :: "ulong \<Rightarrow> ulong \<Rightarrow> int \<Rightarrow> 'z kernel_scheme \<Rightarrow> (int \<times> 'z kernel_scheme) kres" where
  "wake_one now pos need s =
     (let p = proc_of pos
      in rbind (get_proc s p) (\<lambda>v.
         if sleep_until v \<le> now
         then rbind (with_nodes (list_del (q_node p)) s) (\<lambda>s.
              rbind (upd_proc p (\<lambda>v. v\<lparr>p_state := RUNNABLE\<rparr>) s) (\<lambda>s.
              rbind (with_nodes (list_add_tail (q_node p) (run_queue (tp s))) s) (\<lambda>s.
              Inr (1, s))))
         else Inr (need, s)))"

partial_function (option) wake_loop ::
    "ulong \<Rightarrow> ulong \<Rightarrow> ulong \<Rightarrow> ulong \<Rightarrow> int \<Rightarrow> 'z kernel_scheme \<Rightarrow> (int \<times> 'z kernel_scheme) kres option" where
  "wake_loop now hd_node pos tmp need s =
     (if pos = hd_node then Some (Inr (need, s))
      else case wake_one now pos need s of
             Inl e \<Rightarrow> Some (Inl e)
           | Inr r \<Rightarrow> (case get_next (nodes (snd r)) tmp of
                 Inl e \<Rightarrow> Some (Inl e)
               | Inr n \<Rightarrow> wake_loop now hd_node tmp n (fst r) (snd r)))"

declare wake_loop.simps [code]

definition timer_handle :: "'z kernel_scheme \<Rightarrow> 'z kernel_scheme kres" where
  "timer_handle s =
     (let (t, s) = read_time s;
          s = s\<lparr>stimecmp := t + TIMER_INTERVAL\<rparr>;
          (now, s) = read_time s;
          hd_node = sleep_queue (tp s)
      in rbind (get_next (nodes s) hd_node) (\<lambda>pos.
         rbind (get_next (nodes s) pos) (\<lambda>tmp.
         rbind (case wake_loop now hd_node pos tmp 0 s of None \<Rightarrow> Inl Diverge | Some r \<Rightarrow> r) (\<lambda>(need, s).
         Inr (if need \<noteq> 0 then s\<lparr>needs_sched := 1\<rparr> else s)))))"

section \<open>Going to sleep\<close>

definition sys_sleep_ms :: "ulong \<Rightarrow> ulong \<Rightarrow> ulong \<Rightarrow> 'z kernel_scheme \<Rightarrow> (ulong \<times> 'z kernel_scheme) kres" where
  "sys_sleep_ms c p ms s =
     (if ms = 0 \<or> MAX_SLEEP_MS < ms then Inr (-1, s)
      else rbind (upd_proc p (\<lambda>v. v\<lparr>p_state := SLEEPING\<rparr>) s) (\<lambda>s.
           rbind (with_nodes (list_add_tail (q_node p) (sleep_queue c)) s) (\<lambda>s.
           let (t, s) = read_time s
           in rbind (upd_proc p (\<lambda>v. v\<lparr>sleep_until := t + MS_TO_TIME ms\<rparr>) s) (\<lambda>s.
              Inr (0, s)))))"

end
