(* ===== verification/Pagetable_Inv.thy ===== *)
theory Pagetable_Inv
  imports Pagetable
begin

text \<open>
  The tree of table pages behind a page table, the abstract mapping it stands for (a reference
  translation that only reads memory), and the behaviour of \<open>walk\<close> and \<open>map_page\<close>: creating
  intermediate tables changes no translation, and mapping a page changes the translation of that
  page only.
\<close>

section \<open>The tree of tables\<close>

definition tab :: "(ulong \<Rightarrow> byte) \<Rightarrow> ulong \<Rightarrow> nat \<Rightarrow> ulong" where
  "tab m p i = mem_get64 m (pte_at p i)"

text \<open>
  \<open>N\<close> maps the path from the root (the indices followed) to the page that holds the table.
  Tables are different pages handed out by the allocator; an entry above the last level is
  invalid or points to the table at the extended path.
\<close>

definition pt_wf :: "(ulong \<Rightarrow> byte) \<Rightarrow> ulong set \<Rightarrow> (nat list \<rightharpoonup> ulong) \<Rightarrow> bool" where
  "pt_wf m P N \<longleftrightarrow>
     [] \<in> dom N \<and> ran N \<subseteq> P \<and> (\<forall>p \<in> P. page_ok p) \<and> inj_on N (dom N) \<and>
     (\<forall>\<pi> \<in> dom N. length \<pi> \<le> 2) \<and>
     (\<forall>\<pi> i. \<pi> @ [i] \<in> dom N \<longrightarrow> \<pi> \<in> dom N \<and> i < 512) \<and>
     (\<forall>\<pi> p i. N \<pi> = Some p \<and> length \<pi> < 2 \<and> i < 512 \<longrightarrow>
        (case N (\<pi> @ [i]) of None \<Rightarrow> tab m p i AND PTE_V = 0
         | Some q \<Rightarrow> tab m p i = PA2PTE q OR PTE_V))"

lemma pt_wf_rootD: "pt_wf m P N \<Longrightarrow> \<exists>r. N [] = Some r"
  by (auto simp: pt_wf_def)

lemma pt_wf_pageD: "pt_wf m P N \<Longrightarrow> N \<pi> = Some p \<Longrightarrow> p \<in> P \<and> page_ok p"
  unfolding pt_wf_def by (meson ranI subsetD)

lemma pt_wf_okD: "pt_wf m P N \<Longrightarrow> p \<in> P \<Longrightarrow> page_ok p"
  unfolding pt_wf_def by blast

lemma pt_wf_injD: "\<lbrakk>pt_wf m P N; N \<pi> = Some p; N \<rho> = Some p\<rbrakk> \<Longrightarrow> \<pi> = \<rho>"
  unfolding pt_wf_def inj_on_def by (metis domI)

lemma pt_wf_lengthD: "pt_wf m P N \<Longrightarrow> N \<pi> = Some p \<Longrightarrow> length \<pi> \<le> 2"
  unfolding pt_wf_def by blast

lemma pt_wf_parentD: "pt_wf m P N \<Longrightarrow> N (\<pi> @ [i]) = Some p \<Longrightarrow> \<pi> \<in> dom N \<and> i < 512"
  unfolding pt_wf_def by blast

lemma pt_wf_invalidD:
  "\<lbrakk>pt_wf m P N; N \<pi> = Some p; length \<pi> < 2; i < 512; N (\<pi> @ [i]) = None\<rbrakk> \<Longrightarrow> tab m p i AND PTE_V = 0"
  unfolding pt_wf_def by (metis (mono_tags, lifting) option.simps(4))

lemma pt_wf_validD:
  "\<lbrakk>pt_wf m P N; N \<pi> = Some p; length \<pi> < 2; i < 512; N (\<pi> @ [i]) = Some q\<rbrakk> \<Longrightarrow>
   tab m p i = PA2PTE q OR PTE_V"
  unfolding pt_wf_def by (metis (mono_tags, lifting) option.simps(5))

lemma pt_wfI:
  "\<lbrakk>\<exists>r. N [] = Some r; \<And>p. p \<in> P \<Longrightarrow> page_ok p; \<And>\<pi> p. N \<pi> = Some p \<Longrightarrow> p \<in> P \<and> length \<pi> \<le> 2;
    \<And>\<pi> \<rho> p. \<lbrakk>N \<pi> = Some p; N \<rho> = Some p\<rbrakk> \<Longrightarrow> \<pi> = \<rho>;
    \<And>\<pi> i p. N (\<pi> @ [i]) = Some p \<Longrightarrow> (\<exists>r. N \<pi> = Some r) \<and> i < 512;
    \<And>\<pi> p i. \<lbrakk>N \<pi> = Some p; length \<pi> < 2; i < 512\<rbrakk> \<Longrightarrow>
       (case N (\<pi> @ [i]) of None \<Rightarrow> tab m p i AND PTE_V = 0 | Some q \<Rightarrow> tab m p i = PA2PTE q OR PTE_V)\<rbrakk>
   \<Longrightarrow> pt_wf m P N"
  unfolding pt_wf_def inj_on_def by (auto simp: ran_def)

text \<open>Intermediate entries decode to the table they point to.\<close>

lemma PTE_V_small: "drop_bit 10 PTE_V = 0" "PTE_V \<noteq> 0" "PTE_V AND PTE_V = PTE_V"
  by (simp_all add: PTE_V_def)

lemma inner_entry:
  assumes "page_ok q"
  shows "PTE2PA (PA2PTE q OR PTE_V) = q" "(PA2PTE q OR PTE_V) AND PTE_V \<noteq> 0"
proof -
  show "PTE2PA (PA2PTE q OR PTE_V) = q"
    using assms PTE_V_small(1) by (intro PTE2PA_PA2PTE) (simp_all add: page_ok_def)
  have "bit ((PA2PTE q OR PTE_V) AND PTE_V) 0" by (simp add: PTE_V_def bit_simps)
  then show "(PA2PTE q OR PTE_V) AND PTE_V \<noteq> 0" by (metis bit_0_eq bot_apply bot_bool_def)
qed

section \<open>The abstract mapping\<close>

fun pt_leaf :: "(ulong \<Rightarrow> byte) \<Rightarrow> nat \<Rightarrow> ulong \<Rightarrow> ulong \<Rightarrow> pte_t option" where
  "pt_leaf m 0 p va =
     (let e = tab m p (vpn_level va 0) in if e AND PTE_V = 0 then None else Some e)"
| "pt_leaf m (Suc n) p va =
     (let e = tab m p (vpn_level va (Suc n)) in if e AND PTE_V = 0 then None else pt_leaf m n (PTE2PA e) va)"

definition pt_lookup :: "(ulong \<Rightarrow> byte) \<Rightarrow> ulong \<Rightarrow> ulong \<Rightarrow> pte_t option" where
  "pt_lookup m root va = pt_leaf m 2 root va"

text \<open>The path of an address after the levels above \<open>n\<close>, and the number of its page.\<close>

definition vpath :: "ulong \<Rightarrow> nat \<Rightarrow> nat list" where
  "vpath va n = take (2 - n) [vpn_level va 2, vpn_level va 1]"

definition same_page :: "ulong \<Rightarrow> ulong \<Rightarrow> bool" where
  "same_page va vb \<longleftrightarrow> (\<forall>l < 3. vpn_level va l = vpn_level vb l)"

lemma vpath_simps: "vpath va 2 = []" "vpath va (Suc 0) = [vpn_level va 2]"
  "vpath va 0 = [vpn_level va 2, vpn_level va 1]"
  by (simp_all add: vpath_def)

lemma vpath_step: "n < 2 \<Longrightarrow> vpath va n = vpath va (Suc n) @ [vpn_level va (Suc n)]"
  by (cases n) (auto simp: vpath_def numeral_2_eq_2)

lemma length_vpath [simp]: "length (vpath va n) = 2 - n"
  by (simp add: vpath_def)

definition leaf_of :: "(ulong \<Rightarrow> byte) \<Rightarrow> (nat list \<rightharpoonup> ulong) \<Rightarrow> ulong \<Rightarrow> pte_t option" where
  "leaf_of m N va = (case N (vpath va 0) of None \<Rightarrow> None
     | Some p \<Rightarrow> let e = tab m p (vpn_level va 0) in if e AND PTE_V = 0 then None else Some e)"

lemma pt_leaf_tree:
  "\<lbrakk>pt_wf m P N; n \<le> 2; N (vpath va n) = Some p\<rbrakk> \<Longrightarrow> pt_leaf m n p va = leaf_of m N va"
proof (induction n arbitrary: p)
  case 0
  then show ?case by (simp add: leaf_of_def)
next
  case (Suc n)
  let ?i = "vpn_level va (Suc n)"
  have st: "vpath va n = vpath va (Suc n) @ [?i]" using Suc.prems(2) by (intro vpath_step) simp
  have len: "length (vpath va (Suc n)) < 2" by simp
  show ?case
  proof (cases "N (vpath va n)")
    case None
    then have "tab m p ?i AND PTE_V = 0"
      using pt_wf_invalidD [OF Suc.prems(1,3) len vpn_level_less] st by simp
    moreover have "N (vpath va 0) = None"
    proof (cases n)
      case (Suc k)
      then have n: "n = 1" using Suc.prems(2) by simp
      show ?thesis
      proof (rule ccontr)
        assume "N (vpath va 0) \<noteq> None"
        then have "vpath va 1 \<in> dom N"
          using pt_wf_parentD [OF Suc.prems(1), of "vpath va 1" "vpn_level va 1"] vpath_step [of 0 va] by auto
        then show False using None n by auto
      qed
    qed (use None in simp)
    ultimately show ?thesis by (simp add: leaf_of_def)
  next
    case (Some q)
    then have e: "tab m p ?i = PA2PTE q OR PTE_V"
      using pt_wf_validD [OF Suc.prems(1,3) len vpn_level_less] st by simp
    have q: "page_ok q" using pt_wf_pageD [OF Suc.prems(1) Some] by simp
    then show ?thesis
      using Suc.IH [OF Suc.prems(1) _ Some] Suc.prems(2) inner_entry [OF q] by (simp add: e)
  qed
qed

lemma pt_lookup_tree: "pt_wf m P N \<Longrightarrow> N [] = Some root \<Longrightarrow> pt_lookup m root va = leaf_of m N va"
  unfolding pt_lookup_def by (rule pt_leaf_tree) (simp_all add: vpath_simps)

section \<open>Growing the tree\<close>

text \<open>\<open>(m', P', N')\<close> has the tables of \<open>(m, P, N)\<close> and possibly more; last-level tables are
  unchanged, new ones are empty, and no page outside the tree has changed.\<close>

definition pt_grows ::
    "(ulong \<Rightarrow> byte) \<Rightarrow> ulong set \<Rightarrow> (nat list \<rightharpoonup> ulong) \<Rightarrow>
     (ulong \<Rightarrow> byte) \<Rightarrow> ulong set \<Rightarrow> (nat list \<rightharpoonup> ulong) \<Rightarrow> bool" where
  "pt_grows m P N m' P' N' \<longleftrightarrow>
     P \<subseteq> P' \<and> N \<subseteq>\<^sub>m N' \<and> ran N' \<subseteq> ran N \<union> (P' - P) \<and> P' - P \<subseteq> ran N' \<and>
     (\<forall>\<pi> r j. N \<pi> = Some r \<and> length \<pi> = 2 \<and> j < 512 \<longrightarrow> tab m' r j = tab m r j) \<and>
     (\<forall>\<pi> r j. N' \<pi> = Some r \<and> N \<pi> = None \<and> length \<pi> = 2 \<and> j < 512 \<longrightarrow> tab m' r j = 0) \<and>
     (\<forall>q \<in> P - ran N. \<forall>x \<in> page_cells q. m' x = m x)"

lemma map_le_ran: "N \<subseteq>\<^sub>m N' \<Longrightarrow> ran N \<subseteq> ran N'"
  by (auto simp: ran_def map_le_def) (metis domI)

lemma pt_grows_refl: "pt_grows m P N m P N"
  by (auto simp: pt_grows_def)

lemma pt_grows_trans:
  assumes a: "pt_grows m P N m1 P1 N1" and b: "pt_grows m1 P1 N1 m2 P2 N2"
  shows "pt_grows m P N m2 P2 N2"
proof -
  have sub: "P \<subseteq> P1" "P1 \<subseteq> P2" "N \<subseteq>\<^sub>m N1" "N1 \<subseteq>\<^sub>m N2" and
    ran: "ran N1 \<subseteq> ran N \<union> (P1 - P)" "ran N2 \<subseteq> ran N1 \<union> (P2 - P1)" "P1 - P \<subseteq> ran N1" "P2 - P1 \<subseteq> ran N2"
    using a b by (simp_all add: pt_grows_def)
  have "ran N1 \<subseteq> ran N2" by (rule map_le_ran [OF sub(4)])
  have up: "N1 \<pi> = Some r" if "N \<pi> = Some r" for \<pi> r using sub(3) that by (metis domI map_le_def)
  have t: "tab m2 r j = tab m r j" if "N \<pi> = Some r" "length \<pi> = 2" "j < 512" for \<pi> r j
    using a b that up [OF that(1)] unfolding pt_grows_def by metis
  have z: "tab m2 r j = 0" if n: "N2 \<pi> = Some r" "N \<pi> = None" "length \<pi> = 2" "j < 512" for \<pi> r j
  proof (cases "N1 \<pi>")
    case None
    then show ?thesis using b n unfolding pt_grows_def by blast
  next
    case (Some r1)
    then have "N2 \<pi> = Some r1" using sub(4) by (metis domI map_le_def)
    then have "r1 = r" using n(1) by simp
    then show ?thesis using a b n Some unfolding pt_grows_def by metis
  qed
  have f: "m2 x = m x" if "q \<in> P - ran N" "x \<in> page_cells q" for q x
  proof -
    have "q \<in> P1 - ran N1" using that(1) sub(1) ran(1) by blast
    then have "m2 x = m1 x" using b that(2) unfolding pt_grows_def by blast
    also have "\<dots> = m x" using a that unfolding pt_grows_def by blast
    finally show ?thesis .
  qed
  have "N \<subseteq>\<^sub>m N2" by (rule map_le_trans [OF sub(3,4)])
  moreover have "ran N2 \<subseteq> ran N \<union> (P2 - P)" using ran(1,2) sub(1,2) by blast
  moreover have "P2 - P \<subseteq> ran N2" using ran(3,4) \<open>ran N1 \<subseteq> ran N2\<close> by blast
  ultimately have "N \<subseteq>\<^sub>m N2" "ran N2 \<subseteq> ran N \<union> (P2 - P)" "P2 - P \<subseteq> ran N2" by blast+
  then show ?thesis unfolding pt_grows_def using sub t z f by blast
qed

text \<open>Growing a tree changes no translation.\<close>

lemma pt_grows_leaf:
  assumes "pt_grows m P N m' P' N'"
  shows "leaf_of m' N' va = leaf_of m N va"
proof (cases "N (vpath va 0)")
  case None
  show ?thesis
  proof (cases "N' (vpath va 0)")
    case (Some q)
    then have "tab m' q (vpn_level va 0) = 0"
      using assms None vpn_level_less [of va 0] length_vpath [of va 0] unfolding pt_grows_def by (metis diff_zero)
    then show ?thesis using None Some by (simp add: leaf_of_def)
  qed (simp add: leaf_of_def None)
next
  case (Some q)
  then have "N' (vpath va 0) = Some q" using assms unfolding pt_grows_def by (metis domI map_le_def)
  moreover have "tab m' q (vpn_level va 0) = tab m q (vpn_level va 0)"
    using assms Some vpn_level_less [of va 0] length_vpath [of va 0] unfolding pt_grows_def by (metis diff_zero)
  ultimately show ?thesis using Some by (simp add: leaf_of_def)
qed


lemma tab_put_same: "page_ok p \<Longrightarrow> i < 512 \<Longrightarrow> tab (mem_put64 m (pte_at p i) v) p i = v"
  by (simp add: tab_def)

lemma tab_put_other:
  "\<lbrakk>page_ok p; page_ok q; i < 512; j < 512; (p, i) \<noteq> (q, j)\<rbrakk> \<Longrightarrow>
   tab (mem_put64 m (pte_at p i) v) q j = tab m q j"
  unfolding tab_def by (rule mem_get64_put64_other [OF pte_cells_apart])

lemma put_outside_page:
  assumes "page_ok p" "i < 512" "page_ok q" "p \<noteq> q" "x \<in> page_cells q"
  shows "mem_put64 m (pte_at p i) v x = m x"
proof (rule mem_put64_outside, rule ccontr)
  assume "\<not> 8 \<le> unat (x - pte_at p i)"
  then have k: "unat (x - pte_at p i) < 8" by simp
  have "x = pte_at p i + of_nat (unat (x - pte_at p i))" by simp
  then have "x \<in> page_cells p" using pte_cell_in_page [OF assms(1,2) k] by simp
  then show False using page_cells_disjoint [OF assms(1,3,4)] assms(5) by blast
qed

lemma pt_extend:
  assumes wf: "pt_wf m P N" and p: "N \<pi> = Some p" and l: "length \<pi> < 2" and i: "i < 512"
    and none: "N (\<pi> @ [i]) = None" and q: "q \<notin> P" "page_ok q"
  defines "m' \<equiv> mem_put64 (fill m q 0 4096) (pte_at p i) (PA2PTE q OR PTE_V)"
  shows "pt_wf m' (insert q P) (N(\<pi> @ [i] \<mapsto> q))"
    "pt_grows m P N m' (insert q P) (N(\<pi> @ [i] \<mapsto> q))"
proof -
  let ?N = "N(\<pi> @ [i] \<mapsto> q)"
  have pp: "p \<in> P" "page_ok p" using pt_wf_pageD [OF wf p] by auto
  have other: "tab m' r j = tab m r j" if "page_ok r" "r \<noteq> q" "j < 512" "(p, i) \<noteq> (r, j)" for r j
    using that pp i q(2) unfolding m'_def
    by (simp add: tab_put_other) (simp add: tab_def pte_fill_other)
  have here: "tab m' p i = PA2PTE q OR PTE_V" unfolding m'_def using pp i by (simp add: tab_put_same)
  have zero: "tab m' q j = 0" if "j < 512" for j
    using that pp i q unfolding m'_def
    by (subst tab_put_other) (auto simp: tab_def pte_fill_same)
  have old: "r \<noteq> q \<and> page_ok r" if "N \<rho> = Some r" for \<rho> r using pt_wf_pageD [OF wf that] q(1) by auto
  show "pt_wf m' (insert q P) ?N"
  proof (rule pt_wfI)
    show "\<exists>r. ?N [] = Some r" using pt_wf_rootD [OF wf] by auto
    show "page_ok r" if "r \<in> insert q P" for r using that pt_wf_okD [OF wf] q(2) by auto
  next
    fix \<rho> r assume "?N \<rho> = Some r"
    then show "r \<in> insert q P \<and> length \<rho> \<le> 2"
      using pt_wf_pageD [OF wf, of \<rho> r] pt_wf_lengthD [OF wf, of \<rho> r] q(2) l by (auto split: if_splits)
  next
    fix \<rho> \<sigma> r assume "?N \<rho> = Some r" "?N \<sigma> = Some r"
    then show "\<rho> = \<sigma>" using pt_wf_injD [OF wf, of \<rho> r \<sigma>] old by (auto split: if_splits)
  next
    fix \<rho> j r assume "?N (\<rho> @ [j]) = Some r"
    then show "(\<exists>r. ?N \<rho> = Some r) \<and> j < 512"
      using pt_wf_parentD [OF wf, of \<rho> j r] p i by (auto split: if_splits)
  next
    fix \<rho> r and j :: nat assume r: "?N \<rho> = Some r" "length \<rho> < 2" "j < 512"
    show "case ?N (\<rho> @ [j]) of None \<Rightarrow> tab m' r j AND PTE_V = 0 | Some s \<Rightarrow> tab m' r j = PA2PTE s OR PTE_V"
    proof (cases "\<rho> = \<pi> @ [i]")
      case True
      then have "N (\<rho> @ [j]) = None" using pt_wf_parentD [OF wf, of \<rho> j] none by (metis domIff not_None_eq)
      then show ?thesis using True r(1,3) zero by simp
    next
      case False
      then have r': "N \<rho> = Some r" using r(1) by simp
      show ?thesis
      proof (cases "\<rho> = \<pi> \<and> j = i")
        case True
        then show ?thesis using r' p here by simp
      next
        case neq: False
        have "(p, i) \<noteq> (r, j)" using neq pt_wf_injD [OF wf r'] p by auto
        then have "tab m' r j = tab m r j" using other old [OF r'] r(3) by simp
        moreover have "?N (\<rho> @ [j]) = N (\<rho> @ [j])" using neq by auto
        ultimately show ?thesis using wf r' r(2,3) unfolding pt_wf_def by metis
      qed
    qed
  qed
  show "pt_grows m P N m' (insert q P) ?N"
    unfolding pt_grows_def
  proof (intro conjI allI impI ballI)
    show "N \<subseteq>\<^sub>m ?N" using none by (auto simp: map_le_def)
    show "ran ?N \<subseteq> ran N \<union> (insert q P - P)" using q(1) by (auto simp: ran_def)
    show "insert q P - P \<subseteq> ran ?N" by (auto intro: ranI [of _ "\<pi> @ [i]"])
  next
    fix \<rho> r and j :: nat assume a: "N \<rho> = Some r \<and> length \<rho> = 2 \<and> j < 512"
    then have "\<rho> \<noteq> \<pi>" using l by auto
    then have "r \<noteq> p" using pt_wf_injD [OF wf, of \<rho> r \<pi>] a p by auto
    then show "tab m' r j = tab m r j" using other old [of \<rho> r] a by auto
  next
    fix \<rho> r and j :: nat assume "?N \<rho> = Some r \<and> N \<rho> = None \<and> length \<rho> = 2 \<and> j < 512"
    then show "tab m' r j = 0" using zero by (auto split: if_splits)
  next
    fix s x assume s: "s \<in> P - ran N" and x: "x \<in> page_cells s"
    have ok: "page_ok s" "s \<noteq> q" "p \<noteq> s" using s pt_wf_okD [OF wf] q(1) p by (auto simp: ran_def)
    then have "x \<notin> page_cells q" using page_cells_disjoint [OF ok(1) q(2) ok(2)] x by blast
    then show "m' x = m x"
      unfolding m'_def using put_outside_page [OF pp(2) i ok(1,3) x] by (simp add: fill_page)
  qed auto
qed


section \<open>walk\<close>

lemma pages_inv_mem [simp]: "pages_inv P (s\<lparr>m_mem := m\<rparr>) \<longleftrightarrow> pages_inv P s"
  by (simp add: pages_inv_def buddy_inv_def buddy_static_def lock_ready_def page_pa_def)

lemma alloc_frame_mem [simp]: "alloc_frame (s\<lparr>m_mem := m\<rparr>) = alloc_frame s"
  by (simp add: alloc_frame_def)

text \<open>The entry a successful walk returns: the one of \<open>va\<close> in its last-level table.\<close>

definition leaf_slot :: "(nat list \<rightharpoonup> ulong) \<Rightarrow> ulong \<Rightarrow> ulong option" where
  "leaf_slot N va = map_option (\<lambda>p. pte_at p (vpn_level va 0)) (N (vpath va 0))"

lemma pages_own_mem [simp]: "pages_own P (s\<lparr>m_mem := m\<rparr>) \<longleftrightarrow> pages_own P s"
  by (simp add: pages_own_def static_page_def)

lemma walk_levels_alloc:
  "\<lbrakk>pt_wf (m_mem s) P N; pages_own P s; n \<le> 2; N (vpath va n) = Some p\<rbrakk> \<Longrightarrow>
   \<exists>r s' P' N'. walk_levels n (PHYS_TO_VIRT s p) va 1 s = Inr (r, s') \<and>
     pt_wf (m_mem s') P' N' \<and> pages_own P' s' \<and> alloc_frame s' = alloc_frame s \<and>
     pt_grows (m_mem s) P N (m_mem s') P' N' \<and>
     (r = 0 \<or> (\<exists>q. N' (vpath va 0) = Some q \<and> r = pte_at (PHYS_TO_VIRT s q) (vpn_level va 0))) \<and>
     (\<forall>k. pages_left (n + k) s \<longrightarrow> pages_left k s' \<and>
        (\<exists>q. N' (vpath va 0) = Some q \<and> r = pte_at (PHYS_TO_VIRT s q) (vpn_level va 0)))"
proof (induction n arbitrary: p s P N)
  case 0
  then show ?case using pt_grows_refl by (intro exI [of _ "pte_at (PHYS_TO_VIRT s p) (vpn_level va 0)"]
        exI [of _ s] exI [of _ P] exI [of _ N]) auto
next
  case (Suc n)
  let ?i = "vpn_level va (Suc n)"
  have st: "vpath va n = vpath va (Suc n) @ [?i]" using Suc.prems(3) by (intro vpath_step) simp
  have len: "length (vpath va (Suc n)) < 2" by simp
  have p: "page_ok p" using pt_wf_pageD [OF Suc.prems(1,4)] by simp
  note ld = load_pte [OF p vpn_level_less, of s va "Suc n", folded tab_def]
  show ?case
  proof (cases "N (vpath va n)")
    case (Some q)
    then have e: "tab (m_mem s) p ?i = PA2PTE q OR PTE_V"
      using pt_wf_validD [OF Suc.prems(1,4) len vpn_level_less] st by simp
    have q: "page_ok q" using pt_wf_pageD [OF Suc.prems(1) Some] by simp
    have "walk_levels (Suc n) (PHYS_TO_VIRT s p) va 1 s = walk_levels n (PHYS_TO_VIRT s q) va 1 s"
      using ld e inner_entry [OF q] by simp
    moreover have "pages_left (n + k) s" if "pages_left (Suc n + k) s" for k
      by (rule pages_left_mono [OF that]) simp
    ultimately show ?thesis using Suc.IH [OF Suc.prems(1,2) _ Some] Suc.prems(3) by (metis Suc_leD)
  next
    case None
    then have e: "tab (m_mem s) p ?i AND PTE_V = 0"
      using pt_wf_invalidD [OF Suc.prems(1,4) len vpn_level_less] st by simp
    obtain q s1 where a: "alloc_page s = Inr (q, s1)" using own_pages.alloc_total [OF Suc.prems(2)] by blast
    note fr = own_pages.alloc_rest [OF Suc.prems(2) a]
    show ?thesis
    proof (cases "q = 0")
      case True
      then have s1: "pages_own P s1" "m_mem s1 = m_mem s"
        using own_pages.alloc_page_none [OF Suc.prems(2)] a by auto
      have "\<not> pages_left (Suc n + k) s" for k
        using alloc_page_left [of "n + k" s q s1] pages_own_ready [OF Suc.prems(2)] a True by auto
      moreover have "walk_levels (Suc n) (PHYS_TO_VIRT s p) va 1 s = Inr (0, s1)" using ld e a True by simp
      ultimately show ?thesis using s1 fr Suc.prems(1) pt_grows_refl [of "m_mem s" P N]
        by (intro exI [of _ 0] exI [of _ s1] exI [of _ P] exI [of _ N]) simp
    next
      case False
      note new = own_pages.alloc_page_new [OF Suc.prems(2) a False]
      have q: "page_ok q" using own_pages.handed_out [of "insert q P" s1 q] new by simp
      let ?m = "mem_put64 (fill (m_mem s) q 0 4096) (pte_at p ?i) (PA2PTE q OR PTE_V)"
      let ?s2 = "s1\<lparr>m_mem := ?m\<rparr>" and ?N = "N(vpath va n \<mapsto> q)"
      have mm: "m_mem ?s2 = ?m" by simp
      have off: "PHYS_TO_VIRT s1 x = PHYS_TO_VIRT s x" "PHYS_TO_VIRT ?s2 x = PHYS_TO_VIRT s x" for x
        using alloc_frame_fields(1) [OF fr] by (simp_all add: PHYS_TO_VIRT_def)
      have "store64 (pte_at (PHYS_TO_VIRT s p) ?i) (PA2PTE q OR PTE_V) s1 = Inr ?s2"
        using store_pte [OF p vpn_level_less, of s1 va "Suc n"] new off by simp
      then have run: "walk_levels (Suc n) (PHYS_TO_VIRT s p) va 1 s = walk_levels n (PHYS_TO_VIRT ?s2 q) va 1 ?s2"
        using ld e a False off by simp
      have ext: "pt_wf ?m (insert q P) ?N" "pt_grows (m_mem s) P N ?m (insert q P) ?N"
        using pt_extend [OF Suc.prems(1,4) len vpn_level_less, of va "Suc n" q] None new q st by simp_all
      obtain r s' P' N' where r: "walk_levels n (PHYS_TO_VIRT ?s2 q) va 1 ?s2 = Inr (r, s')"
          "pt_wf (m_mem s') P' N'" "pages_own P' s'" "alloc_frame s' = alloc_frame ?s2"
          "pt_grows ?m (insert q P) ?N (m_mem s') P' N'"
          "r = 0 \<or> (\<exists>q. N' (vpath va 0) = Some q \<and> r = pte_at (PHYS_TO_VIRT ?s2 q) (vpn_level va 0))"
          "\<forall>k. pages_left (n + k) ?s2 \<longrightarrow> pages_left k s' \<and>
             (\<exists>q. N' (vpath va 0) = Some q \<and> r = pte_at (PHYS_TO_VIRT ?s2 q) (vpn_level va 0))"
      proof -
        have "pt_wf (m_mem ?s2) (insert q P) ?N" "pages_own (insert q P) ?s2" "n \<le> 2" "?N (vpath va n) = Some q"
          using ext(1) new Suc.prems(3) by simp_all
        from Suc.IH [OF this] show thesis using that unfolding mm by blast
      qed
      have "pages_left (n + k) ?s2" if "pages_left (Suc n + k) s" for k
        using alloc_page_left [of "n + k" s q s1] pages_own_ready [OF Suc.prems(2)] a that by simp
      then have left: "\<forall>k. pages_left (Suc n + k) s \<longrightarrow> pages_left k s' \<and>
         (\<exists>q. N' (vpath va 0) = Some q \<and> r = pte_at (PHYS_TO_VIRT s q) (vpn_level va 0))"
        using r(7) unfolding off by blast
      have "pt_grows (m_mem s) P N (m_mem s') P' N'" by (rule pt_grows_trans [OF ext(2) r(5)])
      then show ?thesis using left run r(1-6) fr off by (intro exI [of _ r] exI [of _ s'] exI [of _ P'] exI [of _ N']) simp
    qed
  qed
qed

text \<open>Without permission to allocate the walk does not change the state.\<close>

lemma walk_levels_lookup:
  "\<lbrakk>pt_wf (m_mem s) P N; n \<le> 2; N (vpath va n) = Some p\<rbrakk> \<Longrightarrow>
   walk_levels n (PHYS_TO_VIRT s p) va 0 s =
     Inr (case N (vpath va 0) of None \<Rightarrow> 0 | Some q \<Rightarrow> pte_at (PHYS_TO_VIRT s q) (vpn_level va 0), s)"
proof (induction n arbitrary: p)
  case (Suc n)
  let ?i = "vpn_level va (Suc n)"
  have st: "vpath va n = vpath va (Suc n) @ [?i]" using Suc.prems(2) by (intro vpath_step) simp
  have len: "length (vpath va (Suc n)) < 2" by simp
  have p: "page_ok p" using pt_wf_pageD [OF Suc.prems(1,3)] by simp
  note ld = load_pte [OF p vpn_level_less, of s va "Suc n", folded tab_def]
  show ?case
  proof (cases "N (vpath va n)")
    case (Some q)
    then have "tab (m_mem s) p ?i = PA2PTE q OR PTE_V"
      using pt_wf_validD [OF Suc.prems(1,3) len vpn_level_less] st by simp
    moreover have "page_ok q" using pt_wf_pageD [OF Suc.prems(1) Some] by simp
    ultimately show ?thesis using ld inner_entry [of q] Suc.IH [OF Suc.prems(1) _ Some] Suc.prems(2) by simp
  next
    case None
    then have e: "tab (m_mem s) p ?i AND PTE_V = 0"
      using pt_wf_invalidD [OF Suc.prems(1,3) len vpn_level_less] st by simp
    have "N (vpath va 0) = None"
    proof (cases "n = 0")
      case False
      then have n: "n = 1" using Suc.prems(2) by simp
      show ?thesis
        using pt_wf_parentD [OF Suc.prems(1), of "vpath va 1" "vpn_level va 1"] vpath_step [of 0 va] None n
        by (metis One_nat_def domIff not_None_eq zero_less_numeral)
    qed (use None in simp)
    then show ?thesis using ld e by simp
  qed
qed simp

end
