(* ===== verification/Syscall.thy ===== *)
theory Syscall
  imports Sched Pagetable_Inv
begin

text \<open>
  \<^verbatim>\<open>mm/user_copy.h\<close> and \<^verbatim>\<open>syscall.c\<close>: access to user memory and the system calls. User memory is
  read and written through the page table in \<^verbatim>\<open>satp\<close>, with the permissions the hardware checks in
  supervisor mode: the entry must be a user entry and \<^verbatim>\<open>sstatus.SUM\<close> must be set. Return values
  of type \<^verbatim>\<open>long\<close> are 64-bit words, so \<open>-1\<close> is the all-ones word.
\<close>

section \<open>User memory\<close>

definition satp_root :: "ulong \<Rightarrow> ulong" where
  "satp_root v = push_bit PAGE_SHIFT (v AND 0xFFFFFFFFFFF)"

definition user_pa :: "'z paging_scheme \<Rightarrow> ulong \<Rightarrow> ulong \<Rightarrow> ulong kres" where
  "user_pa s perm va =
     (case pt_lookup (m_mem s) (satp_root (satp s)) va of
        None \<Rightarrow> Inl (Fault va)
      | Some e \<Rightarrow>
          if csr_sstatus (m_hart s) AND SSTATUS_SUM = 0 \<or> e AND PTE_U = 0 \<or> e AND perm = 0
          then Inl (Fault va) else Inr (PTE2PA e OR (va AND 0xFFF)))"

fun read_user :: "'z paging_scheme \<Rightarrow> ulong \<Rightarrow> nat \<Rightarrow> byte list kres" where
  "read_user s va 0 = Inr []"
| "read_user s va (Suc n) =
     rbind (user_pa s PTE_R va) (\<lambda>pa.
     rbind (read_user s (va + 1) n) (\<lambda>bs. Inr (m_mem s pa # bs)))"

fun write_user :: "ulong \<Rightarrow> byte list \<Rightarrow> 'z paging_scheme \<Rightarrow> 'z paging_scheme kres" where
  "write_user va [] s = Inr s"
| "write_user va (b # bs) s =
     rbind (user_pa s PTE_W va) (\<lambda>pa. write_user (va + 1) bs (s\<lparr>m_mem := (m_mem s)(pa := b)\<rparr>))"

definition is_user_addr :: "ulong \<Rightarrow> uint \<Rightarrow> bool" where
  "is_user_addr va len \<longleftrightarrow> len \<noteq> 0 \<and> va < USER_END_VA \<and> ucast len < USER_END_VA - va"

definition set_sum :: "'z machine_scheme \<Rightarrow> 'z machine_scheme" where
  "set_sum s = s\<lparr>m_hart := (m_hart s)\<lparr>csr_sstatus := set_csr (csr_sstatus (m_hart s)) SSTATUS_SUM\<rparr>\<rparr>"

definition clear_sum :: "'z machine_scheme \<Rightarrow> 'z machine_scheme" where
  "clear_sum s = s\<lparr>m_hart := (m_hart s)\<lparr>csr_sstatus := clear_csr (csr_sstatus (m_hart s)) SSTATUS_SUM\<rparr>\<rparr>"

text \<open>The kernel buffers are arrays on the kernel stack; they are byte lists here.\<close>

definition copy_from_user :: "ulong \<Rightarrow> uint \<Rightarrow> 'z paging_scheme \<Rightarrow> (int \<times> byte list \<times> 'z paging_scheme) kres" where
  "copy_from_user user_src len s =
     (if \<not> is_user_addr user_src len then Inr (-1, [], s)
      else let s = set_sum s
           in rbind (read_user s user_src (unat len)) (\<lambda>bs. Inr (0, bs, clear_sum s)))"

definition copy_to_user :: "ulong \<Rightarrow> byte list \<Rightarrow> uint \<Rightarrow> 'z paging_scheme \<Rightarrow> (int \<times> 'z paging_scheme) kres" where
  "copy_to_user user_dst kernel_src len s =
     (if \<not> is_user_addr user_dst len then Inr (-1, s)
      else rbind (write_user user_dst (take (unat len) kernel_src) (set_sum s)) (\<lambda>s. Inr (0, clear_sum s)))"

section \<open>System calls\<close>

definition sys_write :: "int \<Rightarrow> ulong \<Rightarrow> uint \<Rightarrow> 'z paging_scheme \<Rightarrow> (ulong \<times> 'z paging_scheme) kres" where
  "sys_write fd user_buf len s =
     (if fd \<noteq> 1 \<and> fd \<noteq> 2 then Inr (-1, s)
      else let len = (if MAXLEN < len then MAXLEN else len)
           in rbind (copy_from_user user_buf len s) (\<lambda>(r, buf, s).
              if r < 0 then Inr (-1, s)
              else rbind (spin_lock UartLock s) (\<lambda>s.
                   rbind (uart_putsn buf (ucast len) s) (\<lambda>(n, s).
                   let written = (ucast n :: uint)
                   in rbind (spin_unlock UartLock s) (\<lambda>s. Inr (scast written, s))))))"

text \<open>The buffer of \<open>sys_read\<close> starts with arbitrary contents; only bytes that were stored are read.\<close>

definition sys_read :: "int \<Rightarrow> ulong \<Rightarrow> uint \<Rightarrow> 'z paging_scheme \<Rightarrow> (ulong \<times> 'z paging_scheme) kres" where
  "sys_read fd user_buf len s =
     (if fd \<noteq> 0 then Inr (-1, s)
      else let len = (if MAXLEN < len then MAXLEN else len)
           in rbind (uart_gets (replicate (unat MAXLEN) 0) (sint len) s) (\<lambda>(n, buf, s).
              rbind (copy_to_user user_buf buf (word_of_int n) s) (\<lambda>(r, s).
              if r < 0 then Inr (-1, s) else Inr (word_of_int n, s))))"

section \<open>The heap, in the address space of the process\<close>

text \<open>
  A system call runs on the page table of its process, which \<open>create_proc\<close> fills with the kernel image
  up to \<^verbatim>\<open>_kernel_end\<close>, the page of the process structure and the page of the kernel stack
  (\<^verbatim>\<open>proc.c:94\<close>). Page structures, page tables and pages of the pool lie after the image. The accesses of
  \<open>alloc_page\<close>, \<open>map_page\<close> and \<open>unmap_page\<close> to them are therefore checked here against the table in
  \<^verbatim>\<open>satp\<close>, with the permissions of supervisor mode; before the switch to high addresses there is no
  translation.
\<close>

definition kernel_access :: "'z paging_scheme \<Rightarrow> ulong \<Rightarrow> ulong \<Rightarrow> bool" where
  "kernel_access s perm va \<longleftrightarrow>
     va_offset s = 0 \<or>
     (case pt_lookup (m_mem s) (satp_root (satp s)) va of
        None \<Rightarrow> False
      | Some e \<Rightarrow> e AND perm \<noteq> 0 \<and> (e AND PTE_U = 0 \<or> csr_sstatus (m_hart s) AND SSTATUS_SUM \<noteq> 0))"

text \<open>Access some addresses in order; the first that is not accessible faults.\<close>

fun touch :: "ulong \<Rightarrow> ulong list \<Rightarrow> 'z paging_scheme \<Rightarrow> 'z paging_scheme kres" where
  "touch perm [] s = Inr s"
| "touch perm (va # vas) s = (if kernel_access s perm va then touch perm vas s else Inl (Fault va))"

text \<open>What \<open>alloc_pages(0)\<close> writes: the structure at the head of the first list with a block, those of
  the halves it splits off, and the page.\<close>

definition alloc_slots :: "'z buddy_scheme \<Rightarrow> ulong list" where
  "alloc_slots s =
     (case filter (\<lambda>o'. free_lists s ! o' \<noteq> 0) [0..<length (free_lists s)] of
        [] \<Rightarrow> []
      | ord # _ \<Rightarrow>
          let block = free_lists s ! ord; block_idx = page_index s block
          in PHYS_TO_VIRT s block #
             map (\<lambda>cur. PHYS_TO_VIRT s (page_array s + ucast (block_idx + push_bit (cur - 1) 1) * sizeof_page_t))
               (rev [1..<Suc ord]) @
             (case page_addr s (scast block_idx) of Inl e \<Rightarrow> [] | Inr addr \<Rightarrow> [PHYS_TO_VIRT s addr]))"

definition alloc_page_in :: "'z paging_scheme \<Rightarrow> (ulong \<times> 'z paging_scheme) kres" where
  "alloc_page_in s = rbind (spin_lock BuddyLock s) (\<lambda>_. rbind (touch PTE_W (alloc_slots s) s) alloc_page)"

fun walk_levels_in :: "nat \<Rightarrow> ulong \<Rightarrow> ulong \<Rightarrow> int \<Rightarrow> 'z paging_scheme \<Rightarrow> (ulong \<times> 'z paging_scheme) kres" where
  "walk_levels_in 0 pagetable va alloc s = Inr (pte_at pagetable (vpn_level va 0), s)"
| "walk_levels_in (Suc n) pagetable va alloc s =
     (let pte = pte_at pagetable (vpn_level va (Suc n))
      in rbind (touch PTE_R [pte] s) (\<lambda>s.
         rbind (load64 s pte) (\<lambda>v.
         if v AND PTE_V \<noteq> 0 then walk_levels_in n (PHYS_TO_VIRT s (PTE2PA v)) va alloc s
         else if alloc = 0 then Inr (0, s)
         else rbind (alloc_page_in s) (\<lambda>(new_pg, s).
              if new_pg = 0 then Inr (0, s)
              else rbind (touch PTE_W [pte] s) (\<lambda>s.
                   rbind (store64 pte (PA2PTE new_pg OR PTE_V) s) (\<lambda>s.
                   walk_levels_in n (PHYS_TO_VIRT s new_pg) va alloc s))))))"

definition walk_in :: "ulong \<Rightarrow> ulong \<Rightarrow> int \<Rightarrow> 'z paging_scheme \<Rightarrow> (ulong \<times> 'z paging_scheme) kres" where
  "walk_in pagetable va alloc s = walk_levels_in 2 pagetable va alloc s"

definition map_page_in :: "ulong \<Rightarrow> ulong \<Rightarrow> ulong \<Rightarrow> int \<Rightarrow> 'z paging_scheme \<Rightarrow> (int \<times> 'z paging_scheme) kres" where
  "map_page_in pagetable va pa perm s =
     rbind (walk_in (PHYS_TO_VIRT s pagetable) va 1 s) (\<lambda>(pte, s).
     if pte = 0 then Inr (-1, s)
     else rbind (touch PTE_R [pte] s) (\<lambda>s.
          rbind (load64 s pte) (\<lambda>v.
          if v AND PTE_V = 0
          then rbind (touch PTE_W [pte] s) (\<lambda>s.
               rbind (store64 pte (PA2PTE pa OR word_of_int perm OR PTE_V OR PTE_A OR PTE_D) s) (\<lambda>s.
               Inr (0, s)))
          else Inr (0, s))))"

definition unmap_page_in :: "ulong \<Rightarrow> ulong \<Rightarrow> 'z paging_scheme \<Rightarrow> (int \<times> 'z paging_scheme) kres" where
  "unmap_page_in pagetable va s =
     rbind (walk_in (PHYS_TO_VIRT s pagetable) va 0 s) (\<lambda>(pte, s).
     if pte = 0 then Inr (-1, s)
     else rbind (touch PTE_R [pte] s) (\<lambda>s.
          rbind (load64 s pte) (\<lambda>v.
          if v AND PTE_V = 0 then Inr (-1, s)
          else rbind (free_page (PTE2PA v) s) (\<lambda>s.
               rbind (touch PTE_W [pte] s) (\<lambda>s.
               rbind (store64 pte 0 s) (\<lambda>s. Inr (0, s)))))))"

definition sbrk_page :: "ulong \<Rightarrow> ulong \<Rightarrow> 'z kernel_scheme \<Rightarrow> (bool \<times> 'z kernel_scheme) kres" where
  "sbrk_page pagetable va s =
     rbind (alloc_page_in s) (\<lambda>(pa, s).
     if pa = 0 then Inr (False, s)
     else rbind (map_page_in pagetable va pa (c_int (PTE_R OR PTE_W OR PTE_U)) s) (\<lambda>(ret, s). Inr (ret \<noteq> -1, s)))"

definition sys_sbrk :: "ulong \<Rightarrow> ulong \<Rightarrow> 'z kernel_scheme \<Rightarrow> (ulong \<times> 'z kernel_scheme) kres" where
  "sys_sbrk p sz s =
     (if p = 0 \<or> sz = 0 then Inr (-1, s)
      else rbind (get_proc s p) (\<lambda>v.
           let old_brk = ALIGN_UP (heap_end v);
               sz = ALIGN_UP sz;
               new_brk = old_brk + sz
           in if new_brk < heap_start v \<or> USER_HEAP_END < new_brk then Inr (-1, s)
              else rbind (if 0 < sint sz
                     then for_pages old_brk new_brk (sbrk_page (p_pagetable v)) s
                     else for_pages new_brk old_brk (\<lambda>va s.
                            rbind (unmap_page_in (p_pagetable v) va s) (\<lambda>(_, s). Inr (True, s))) s) (\<lambda>(ok, s).
                   if \<not> ok then Inr (-1, s)
                   else rbind (upd_proc p (\<lambda>v. v\<lparr>heap_end := new_brk\<rparr>) s) (\<lambda>s. Inr (old_brk, s)))))"

definition sys_munmap :: "ulong \<Rightarrow> ulong \<Rightarrow> ulong \<Rightarrow> 'z kernel_scheme \<Rightarrow> (ulong \<times> 'z kernel_scheme) kres" where
  "sys_munmap p addr sz s =
     (if p = 0 \<or> sz = 0 \<or> addr mod PAGE_SIZE \<noteq> 0 then Inr (-1, s)
      else rbind (get_proc s p) (\<lambda>v.
           rbind (for_pages addr (ALIGN_UP (addr + sz)) (\<lambda>va s.
                    rbind (unmap_page_in (p_pagetable v) va s) (\<lambda>(r, s). Inr (r \<noteq> -1, s))) s) (\<lambda>(ok, s).
           Inr (if ok then 0 else -1, s))))"

end
