(* ===== verification/Trap.thy ===== *)
theory Trap
  imports Syscall
begin

text \<open>
  \<^verbatim>\<open>trap/trap.c\<close>, \<^verbatim>\<open>trap/trap_vec.S\<close> and the user side of a system call, \<^verbatim>\<open>user_syscall.h\<close> and
  \<^verbatim>\<open>user.h\<close>. The messages of the debug build are not part of the model. The endless loops in
  \<open>trap_handler\<close> are halts.
\<close>

section \<open>Dispatch\<close>

definition SYS_write :: int where "SYS_write = 1"
definition SYS_exit :: int where "SYS_exit = 2"
definition SYS_getpid :: int where "SYS_getpid = 3"
definition SYS_yield :: int where "SYS_yield = 4"
definition SYS_read :: int where "SYS_read = 5"
definition SYS_sleep_ms :: int where "SYS_sleep_ms = 6"
definition SYS_sbrk :: int where "SYS_sbrk = 7"
definition SYS_munmap :: int where "SYS_munmap = 8"

lemmas syscall_numbers = SYS_write_def SYS_exit_def SYS_getpid_def SYS_yield_def SYS_read_def
  SYS_sleep_ms_def SYS_sbrk_def SYS_munmap_def

definition SCAUSE_IRQ_BIT :: ulong where "SCAUSE_IRQ_BIT = push_bit 63 1"
definition SCAUSE_CODE :: "ulong \<Rightarrow> ulong" where "SCAUSE_CODE v = v AND NOT SCAUSE_IRQ_BIT"
definition SCAUSE_SUPERVISOR_IRQ :: ulong where "SCAUSE_SUPERVISOR_IRQ = 1"
definition SCAUSE_ILLEGAL_INSTR :: ulong where "SCAUSE_ILLEGAL_INSTR = 2"
definition SCAUSE_TIMER_INTERRUPT :: ulong where "SCAUSE_TIMER_INTERRUPT = 5"
definition SCAUSE_USER_ECALL :: ulong where "SCAUSE_USER_ECALL = 8"
definition SCAUSE_SUPERVISOR_ECALL :: ulong where "SCAUSE_SUPERVISOR_ECALL = 9"

lemmas scause_defs = SCAUSE_IRQ_BIT_def SCAUSE_CODE_def SCAUSE_SUPERVISOR_IRQ_def SCAUSE_ILLEGAL_INSTR_def
  SCAUSE_TIMER_INTERRUPT_def SCAUSE_USER_ECALL_def SCAUSE_SUPERVISOR_ECALL_def

text \<open>\<^verbatim>\<open>p->tf->regs[10] = r\<close>.\<close>

definition set_a0 :: "ulong \<Rightarrow> ulong \<times> 'z kernel_scheme \<Rightarrow> 'z kernel_scheme kres" where
  "set_a0 tf rs = upd_frame tf (\<lambda>f. f\<lparr>regs := (regs f)[10 := fst rs]\<rparr>) (snd rs)"

definition syscall_handler :: "ulong \<Rightarrow> 'z kernel_scheme \<Rightarrow> 'z kernel_scheme kres" where
  "syscall_handler p s =
     rbind (get_proc s p) (\<lambda>v.
     rbind (get_frame s (p_tf v)) (\<lambda>f.
     let c = tp s; tf = p_tf v; num = c_int (regs f ! 17)
     in if num = SYS_write
        then rbind (sys_write (c_int (regs f ! 10)) (regs f ! 11) (ucast (regs f ! 12)) s) (set_a0 tf)
        else if num = SYS_read
        then rbind (sys_read (c_int (regs f ! 10)) (regs f ! 11) (ucast (regs f ! 12)) s) (set_a0 tf)
        else if num = SYS_exit
        then rbind (upd_proc p (\<lambda>v. v\<lparr>p_state := ZOMBIE\<rparr>) s) (\<lambda>s. Inr (s\<lparr>needs_sched := 1\<rparr>))
        else if num = SYS_getpid then set_a0 tf (scast (pid v), s)
        else if num = SYS_yield then Inr (s\<lparr>needs_sched := 1\<rparr>)
        else if num = SYS_sleep_ms
        then rbind (rbind (sys_sleep_ms c p (regs f ! 10) s) (set_a0 tf)) (\<lambda>s. Inr (s\<lparr>needs_sched := 1\<rparr>))
        else if num = SYS_sbrk then rbind (sys_sbrk p (regs f ! 10) s) (set_a0 tf)
        else if num = SYS_munmap then rbind (sys_munmap p (regs f ! 10) (regs f ! 11) s) (set_a0 tf)
        else set_a0 tf (-1, s)))"

section \<open>The trap handler\<close>

text \<open>
  The first argument of \<open>trap_handler\<close> is the register \<^verbatim>\<open>tp\<close> with which it is called: \<open>curr_cpu\<close> takes the
  hart's \<^verbatim>\<open>cpu_t\<close> from there, and no trap entry loads it, so it is whatever the interrupted code has in
  \<^verbatim>\<open>x4\<close>. The \<^verbatim>\<open>cpu_t\<close> of the hart is at \<open>tp s\<close>. A read of the field \<^verbatim>\<open>proc\<close>, at offset 24, of a structure
  that is not there is a fault, as for every structure of the typed heaps.
\<close>

definition cpu_proc_offset :: ulong where "cpu_proc_offset = 24"

definition trap_end :: "symbols \<Rightarrow> 'z kernel_scheme \<Rightarrow> 'z kernel_scheme kres" where
  "trap_end L s = (if needs_sched s \<noteq> 0 then schedule L (s\<lparr>needs_sched := 0\<rparr>) else Inr s)"

definition trap_handler :: "symbols \<Rightarrow> ulong \<Rightarrow> ulong \<Rightarrow> 'z kernel_scheme \<Rightarrow> 'z kernel_scheme kres" where
  "trap_handler L c tf s =
     (if c \<noteq> tp s then Inl (Fault (c + cpu_proc_offset))
      else let p = cpu_proc s; cause = csr_scause s; code = SCAUSE_CODE cause;
          timer = (cause AND SCAUSE_IRQ_BIT \<noteq> 0 \<and> code = SCAUSE_TIMER_INTERRUPT)
      in rbind (if p = 0 then Inr False else rbind (get_proc s p) (\<lambda>v. Inr (is_idle v \<noteq> 0))) (\<lambda>idle.
         if idle
         then if timer then rbind (timer_handle s) (trap_end L) else Inl (Halt H_trap_idle)
         else rbind (get_frame s tf) (\<lambda>f.
              if SCAUSE_CODE (scause f) = 5 \<and> scause f AND SCAUSE_IRQ_BIT = 0
              then Inl (Halt H_trap_load_fault)
              else if p = 0
              then if timer then timer_handle s else Inl (Halt H_trap_no_proc)
              else rbind
                (if code = SCAUSE_USER_ECALL \<or> code = SCAUSE_SUPERVISOR_ECALL
                 then rbind (upd_frame tf (\<lambda>f. f\<lparr>sepc := sepc f + 4\<rparr>) s) (syscall_handler p)
                 else if code = SCAUSE_TIMER_INTERRUPT
                 then if cause AND SCAUSE_IRQ_BIT \<noteq> 0 then timer_handle s else Inr s
                 else if code = SCAUSE_SUPERVISOR_IRQ then Inl (Halt H_trap_soft_irq)
                 else if code = SCAUSE_ILLEGAL_INSTR then Inl (Halt H_trap_illegal)
                 else Inl (Halt H_trap_unknown)) (trap_end L))))"

section \<open>Entry and exit (trap_vec.S)\<close>

text \<open>
  The registers of the hart at a trap: the 32 integer registers and the trap registers. \<open>x5\<close> is
  \<^verbatim>\<open>t0\<close>, \<open>x6\<close> is \<^verbatim>\<open>t1\<close>, \<open>x2\<close> is \<^verbatim>\<open>sp\<close>, \<open>x4\<close> is \<^verbatim>\<open>tp\<close>.
\<close>

record trap_regs =
  xs :: "ulong list"
  t_sepc :: ulong
  t_sstatus :: ulong
  t_scause :: ulong
  t_stval :: ulong

text \<open>Up to the call of \<open>trap_handler\<close>; the result has the address of the frame in \<^verbatim>\<open>sp\<close>, and the
  other registers, \<^verbatim>\<open>tp\<close> among them, as they were.\<close>

definition trap_save :: "trap_regs \<Rightarrow> 'z kernel_scheme \<Rightarrow> (trap_regs \<times> 'z kernel_scheme) kres" where
  "trap_save r s =
     (let r1 = r\<lparr>xs := (xs r)[6 := t_scause r, 5 := t_sstatus r AND SSTATUS_SPP]\<rparr>
      in rbind (if xs r1 ! 5 = 0
                then let tf = sscratch s
                     in rbind (upd_frame tf (\<lambda>f. f\<lparr>regs := (regs f)[2 := xs r1 ! 2]\<rparr>) s) (\<lambda>s.
                        Inr (r1\<lparr>xs := (xs r1)[5 := tf, 2 := tf]\<rparr>, s))
                else let tf = xs r1 ! 2 - sizeof_trap_frame_t
                     in Inr (r1\<lparr>xs := (xs r1)[2 := tf]\<rparr>, new_frame tf s)) (\<lambda>(r2, s).
         let tf = xs r2 ! 2
         in rbind (upd_frame tf (\<lambda>f. f\<lparr>regs := map (\<lambda>i. if i = 0 \<or> i = 2 then regs f ! i else xs r2 ! i) [0..<32],
               sepc := t_sepc r, sstatus := t_sstatus r, scause := xs r2 ! 6, stval := t_stval r\<rparr>) s) (\<lambda>s.
            Inr (r2\<lparr>xs := (xs r2)[5 := t_stval r, 10 := tf]\<rparr>, s))))"

text \<open>From the return of \<open>trap_handler\<close> to \<^verbatim>\<open>sret\<close>, with \<^verbatim>\<open>sp\<close> at the frame \<open>tf\<close>.\<close>

definition trap_restore :: "ulong \<Rightarrow> trap_regs \<Rightarrow> 'z kernel_scheme \<Rightarrow> trap_regs kres" where
  "trap_restore tf r s =
     rbind (get_frame s tf) (\<lambda>f.
     let ys = map (\<lambda>i. if i = 0 then 0 else if i = 2 then tf else regs f ! i) [0..<32];
         spp = sstatus f AND SSTATUS_SPP;
         ys = ys[5 := spp, 2 := (if spp \<noteq> 0 then tf + sizeof_trap_frame_t else regs f ! 2)]
     in Inr (r\<lparr>xs := ys, t_sepc := sepc f, t_sstatus := sstatus f\<rparr>))"

text \<open>
  A trap taken in user mode. When the handler has switched to another process the trap has not
  returned yet: the frame of the old process stays in memory, and the result has no registers.
\<close>

definition user_trap ::
    "symbols \<Rightarrow> trap_regs \<Rightarrow> 'z kernel_scheme \<Rightarrow> (trap_regs option \<times> 'z kernel_scheme) kres" where
  "user_trap L r s =
     rbind (trap_save r (s\<lparr>csr_scause := t_scause r\<rparr>)) (\<lambda>(r1, s1).
     rbind (trap_handler L (xs r1 ! 4) (xs r1 ! 10) s1) (\<lambda>s2.
     if cpu_proc s2 = cpu_proc s
     then rbind (trap_restore (xs r1 ! 2) r1 s2) (\<lambda>r2. Inr (Some r2, s2))
     else Inr (None, s2)))"

text \<open>
  \<open>idle_trap_vector\<close>, the entry while the idle process waits. It saves nothing: \<^verbatim>\<open>trap_handler\<close> gets the
  trap cause as its argument, and \<^verbatim>\<open>sepc\<close> and \<^verbatim>\<open>sstatus\<close> are kept in \<^verbatim>\<open>a1\<close> and \<^verbatim>\<open>a2\<close>, which a C function
  may change. What the call leaves in the registers is the argument \<open>ys\<close>.
\<close>

definition idle_trap ::
    "symbols \<Rightarrow> ulong list \<Rightarrow> trap_regs \<Rightarrow> 'z kernel_scheme \<Rightarrow> (trap_regs option \<times> 'z kernel_scheme) kres" where
  "idle_trap L ys r s =
     rbind (trap_handler L (xs r ! 4) (t_scause r) (s\<lparr>csr_scause := t_scause r\<rparr>)) (\<lambda>s2.
     if cpu_proc s2 = cpu_proc s then Inr (Some (r\<lparr>xs := ys, t_sepc := ys ! 11, t_sstatus := ys ! 12\<rparr>), s2)
     else Inr (None, s2))"

section \<open>System calls from user mode\<close>

text \<open>The registers an \<^verbatim>\<open>ecall\<close> is made with, and the call itself: \<^verbatim>\<open>a0\<close> and the registers
  after it, once it has returned.\<close>

definition syscall_args :: "ulong \<Rightarrow> ulong \<Rightarrow> ulong \<Rightarrow> ulong \<Rightarrow> ulong \<Rightarrow> ulong \<Rightarrow> ulong \<Rightarrow> ulong list \<Rightarrow> ulong list" where
  "syscall_args num a0 a1 a2 a3 a4 a5 rs =
     rs[10 := a0, 11 := a1, 12 := a2, 13 := a3, 14 := a4, 15 := a5, 17 := num]"

definition ecall :: "symbols \<Rightarrow> trap_regs \<Rightarrow> 'z kernel_scheme \<Rightarrow> (trap_regs option \<times> 'z kernel_scheme) kres" where
  "ecall L r s =
     user_trap L (r\<lparr>t_scause := SCAUSE_USER_ECALL, t_stval := 0,
       t_sstatus := t_sstatus r AND NOT SSTATUS_SPP\<rparr>) s"

definition syscall ::
    "symbols \<Rightarrow> ulong \<Rightarrow> ulong \<Rightarrow> ulong \<Rightarrow> ulong \<Rightarrow> ulong \<Rightarrow> ulong \<Rightarrow> ulong \<Rightarrow> trap_regs \<Rightarrow> 'z kernel_scheme \<Rightarrow>
     ((ulong \<times> trap_regs) option \<times> 'z kernel_scheme) kres" where
  "syscall L num a0 a1 a2 a3 a4 a5 r s =
     rbind (ecall L (r\<lparr>xs := syscall_args num a0 a1 a2 a3 a4 a5 (xs r)\<rparr>) s) (\<lambda>(ro, s).
     Inr (map_option (\<lambda>r. (xs r ! 10, r)) ro, s))"

definition syscall0 where "syscall0 L num r s = syscall L num 0 0 0 0 0 0 r s"
definition syscall1 where "syscall1 L num a0 r s = syscall L num a0 0 0 0 0 0 r s"
definition syscall2 where "syscall2 L num a0 a1 r s = syscall L num a0 a1 0 0 0 0 r s"
definition syscall3 where "syscall3 L num a0 a1 a2 r s = syscall L num a0 a1 a2 0 0 0 r s"

definition user_write where
  "user_write L buf cnt r s = syscall3 L (word_of_int SYS_write) 1 buf cnt r s"
definition user_exit where
  "user_exit L status r s =
     rbind (syscall1 L (word_of_int SYS_exit) status r s) (\<lambda>(o2, s). Inr (map_option snd o2, s))"
definition user_getpid where "user_getpid L r s = syscall0 L (word_of_int SYS_getpid) r s"
definition user_yield where
  "user_yield L r s =
     rbind (syscall0 L (word_of_int SYS_yield) r s) (\<lambda>(o2, s). Inr (map_option snd o2, s))"
definition user_read where
  "user_read L buf cnt r s = syscall3 L (word_of_int SYS_read) 0 buf cnt r s"
definition user_sleep where
  "user_sleep L ms r s =
     (if ms = 0 \<or> 60 * 1000 < ms then Inr (Some (0, r), s) else syscall1 L (word_of_int SYS_sleep_ms) ms r s)"
definition user_sbrk where "user_sbrk L sz r s = syscall1 L (word_of_int SYS_sbrk) sz r s"
definition user_munmap where "user_munmap L addr sz r s = syscall2 L (word_of_int SYS_munmap) addr sz r s"

definition user_malloc where
  "user_malloc L sz r s =
     rbind (user_sbrk L sz r s) (\<lambda>(o2, s).
     Inr (map_option (\<lambda>(mem, r). (if mem = -1 then 0 else mem, r)) o2, s))"

end
