(* ===== verification/Boot.thy ===== *)
theory Boot
  imports Trap
begin

text \<open>
  \<^verbatim>\<open>start.c\<close>: the way of a hart from reset to the shell or the idle loop. \<open>start\<close> runs in machine
  mode at physical addresses; the kernel is linked at high addresses and its code is
  position-independent, so a symbol read there is the linker's address less \<^const>\<open>VA_OFFSET\<close>. \<open>mret\<close>
  continues at \<^verbatim>\<open>mepc\<close>, which is \<open>s_mode_main\<close> at its high address.
\<close>

section \<open>State\<close>

record boot = kernel +
  allocator_ready :: int
  mstatus :: ulong
  medeleg :: ulong
  mideleg :: ulong
  pmpaddr0 :: ulong
  pmpcfg0 :: ulong
  sie :: ulong
  menvcfg :: ulong
  mcounteren :: ulong
  mepc :: ulong
  csr_sepc :: ulong
  stack_ptr :: ulong

definition SIE_STIE :: ulong where "SIE_STIE = push_bit 5 1"
definition MENVCFG_FDT :: ulong where "MENVCFG_FDT = push_bit 63 1"
definition MCOUNTEREN_TIME :: ulong where "MCOUNTEREN_TIME = push_bit 1 1"
definition MSTATUS_MPP_MASK :: ulong where "MSTATUS_MPP_MASK = push_bit 11 3"
definition MSTATUS_MPP_S_MODE :: ulong where "MSTATUS_MPP_S_MODE = push_bit 11 1"

text \<open>A symbol as code at physical addresses sees it.\<close>

definition low :: "ulong \<Rightarrow> ulong" where "low a = a - VA_OFFSET"

section \<open>The first processes\<close>

definition shell_init :: "symbols \<Rightarrow> 'z kernel_scheme \<Rightarrow> 'z kernel_scheme kres" where
  "shell_init L s =
     rbind (create_proc L (sym_shell_start L) (sym_shell_end L - sym_shell_start L) s) (\<lambda>(shell, s).
     rbind (with_nodes (list_del (q_node shell)) s) (\<lambda>s.
     rbind (upd_proc shell (\<lambda>v. v\<lparr>p_state := RUNNING, bound_cpu := 0\<rparr>) s) (\<lambda>s.
     Inr (s\<lparr>cpu_proc := shell\<rparr>))))"

definition setup_idle_proc :: "symbols \<Rightarrow> 'z kernel_scheme \<Rightarrow> 'z kernel_scheme kres" where
  "setup_idle_proc L s =
     (let i = cpu_id (m_hart s); idle = idle_proc L i;
          ks = sym_stack L + ucast i * KSTACK_SIZE
      in rbind (upd_proc idle (\<lambda>v. v\<lparr>is_idle := 1, p_state := RUNNING, p_pagetable := kernel_pagetable s,
           kstack := ks, ctx := (ctx v)\<lparr>ra := sym_idle_loop L, sp := ks + KSTACK_SIZE\<rparr>\<rparr>) (new_proc idle s)) (\<lambda>s.
         Inr (if i \<noteq> 0 then s\<lparr>cpu_proc := idle\<rparr> else s)))"

text \<open>Up to \<^verbatim>\<open>sret\<close>: the hart then runs in user mode at \<^verbatim>\<open>sepc\<close> with the stack pointer in \<open>stack_ptr\<close>.\<close>

definition jump_to_user_shell :: "'z boot_scheme \<Rightarrow> 'z boot_scheme kres" where
  "jump_to_user_shell s =
     rbind (get_proc s (cpu_proc s)) (\<lambda>v.
     let s = s\<lparr>m_hart := (m_hart s)\<lparr>csr_sstatus := SSTATUS_SPIE\<rparr>\<rparr>;
         s = s\<lparr>m_hart := (m_hart s)\<lparr>csr_sstatus := clear_csr (csr_sstatus (m_hart s)) SSTATUS_SPP\<rparr>\<rparr>;
         s = s\<lparr>sscratch := p_tf v\<rparr>;
         s = load_pagetable (p_pagetable v) s;
         s = clear_sum (set_sum s)
     in Inr (s\<lparr>stack_ptr := USER_STACK_TOP\<rparr>))"

definition s_mode_main :: "symbols \<Rightarrow> 'z boot_scheme \<Rightarrow> 'z boot_scheme kres" where
  "s_mode_main L s =
     (let c = sym_cpus L + ucast (cpu_id (m_hart s)) * sizeof_cpu_t
      in rbind (with_nodes (LIST_HEAD_INIT (run_queue c)) s) (\<lambda>s.
         rbind (with_nodes (LIST_HEAD_INIT (sleep_queue c)) s) (\<lambda>s.
         rbind (setup_idle_proc L (timer_init s)) (\<lambda>s.
         if cpu_id (m_hart s) = 0 then rbind (shell_init L s) jump_to_user_shell
         else Inr (idle_loop L s)))))"

section \<open>The kernel's page table\<close>

text \<open>One iteration of the loops that map the kernel: a failed \<open>map_page\<close> ends in a halt loop.\<close>

definition map_linear ::
    "int \<Rightarrow> halt_site \<Rightarrow> ulong \<Rightarrow> 'z buddy_scheme \<Rightarrow> (bool \<times> 'z buddy_scheme) kres" where
  "map_linear perm h pa s =
     rbind (map_page (kernel_pagetable s) (pa + VA_OFFSET) pa perm s) (\<lambda>(ret, s).
     if ret = -1 then Inl (Halt h) else Inr (True, s))"

definition setup_kernel_pagetable :: "symbols \<Rightarrow> 'z buddy_scheme \<Rightarrow> 'z buddy_scheme kres" where
  "setup_kernel_pagetable L s =
     rbind (for_pages (low (sym_text_start L)) (low (sym_text_end L))
              (map_linear (c_int (PTE_R OR PTE_X)) H_map_text) s) (\<lambda>(_, s).
     rbind (for_pages (low (sym_rodata_start L)) (low (sym_rodata_end L))
              (map_linear (c_int PTE_R) H_map_rodata) s) (\<lambda>(_, s).
     rbind (for_pages (low (sym_data_start L)) KERNEL_END
              (map_linear (c_int (PTE_R OR PTE_W)) H_map_data) s) (\<lambda>(_, s).
     rbind (map_page (kernel_pagetable s) UART0 (UART0 - VA_OFFSET) (c_int (PTE_R OR PTE_W)) s) (\<lambda>(ret, s).
     if ret = -1 then Inl (Halt H_map_uart) else Inr s))))"

definition mm_init :: "symbols \<Rightarrow> 'z snub_scheme \<Rightarrow> 'z snub_scheme kres" where
  "mm_init L s =
     rbind (buddy_allocator_init (low (sym_kernel_end L)) s) (\<lambda>(_, s).
     rbind (setup_kernel_pagetable L s) (\<lambda>s.
     let s = snub_init (load_pagetable (kernel_pagetable s) s)
     in Inr (s\<lparr>va_offset := VA_OFFSET\<rparr>)))"

section \<open>Reset\<close>

text \<open>\<open>hart_id\<close> is the hart's \<^verbatim>\<open>mhartid\<close>. A hart other than 0 waits until hart 0 has set
  \<^verbatim>\<open>allocator_ready\<close>; the call is \<open>Waiting\<close> as long as that has not happened.\<close>

definition start :: "symbols \<Rightarrow> uint \<Rightarrow> 'z boot_scheme \<Rightarrow> 'z boot_scheme kres" where
  "start L hart_id s =
     (let c = low (sym_cpus L) + ucast hart_id * sizeof_cpu_t;
          s = s\<lparr>tp := c, m_hart := (m_hart s)\<lparr>cpu_id := hart_id\<rparr>\<rparr>
      in rbind (if hart_id = 0
                then rbind (mm_init L s) (\<lambda>s. Inr (s\<lparr>allocator_ready := 1\<rparr>))
                else if allocator_ready s = 0 then Inl Waiting
                else Inr (load_pagetable (kernel_pagetable s) s)) (\<lambda>s.
         Inr (s\<lparr>medeleg := 0xffff, mideleg := 0xffff, pmpaddr0 := -1, pmpcfg0 := 0x0f,
           stvec := low (sym_trap_vector L) + VA_OFFSET,
           mstatus := set_csr (clear_csr (mstatus s) MSTATUS_MPP_MASK) MSTATUS_MPP_S_MODE,
           m_hart := (m_hart s)\<lparr>csr_sstatus := set_csr (csr_sstatus (m_hart s)) SSTATUS_SIE\<rparr>,
           sie := set_csr (sie s) SIE_STIE,
           menvcfg := set_csr (menvcfg s) MENVCFG_FDT,
           mcounteren := set_csr (mcounteren s) MCOUNTEREN_TIME,
           mepc := low (sym_s_mode_main L) + VA_OFFSET,
           tp := c + VA_OFFSET,
           stack_ptr := stack_ptr s + VA_OFFSET\<rparr>)))"

end
