(* ===== verification/Pagetable_Ops.thy ===== *)
theory Pagetable_Ops
  imports Pagetable_Inv
begin

text \<open>
  The behaviour of \<open>map_page\<close>, \<open>unmap_page\<close> and \<open>free_pagetable\<close> in terms of the abstract
  mapping.
\<close>

section \<open>Writing a last-level entry\<close>

lemma same_page_iff: "same_page va vb \<longleftrightarrow> vpath va 0 = vpath vb 0 \<and> vpn_level va 0 = vpn_level vb 0"
proof -
  have "(\<forall>l < 3. f l) \<longleftrightarrow> f 0 \<and> f 1 \<and> f 2" for f :: "nat \<Rightarrow> bool"
    by (auto simp: less_Suc_eq numeral_3_eq_3 numeral_2_eq_2)
  then show ?thesis unfolding same_page_def by (auto simp: vpath_simps)
qed

definition entry_value :: "pte_t \<Rightarrow> pte_t option" where
  "entry_value e = (if e AND PTE_V = 0 then None else Some e)"

lemma leaf_of_eq:
  "leaf_of m N va = (case N (vpath va 0) of None \<Rightarrow> None | Some p \<Rightarrow> entry_value (tab m p (vpn_level va 0)))"
  by (simp add: leaf_of_def entry_value_def Let_def split: option.splits)

lemma pt_leaf_store:
  fixes v :: pte_t
  assumes wf: "pt_wf m P N" and q: "N (vpath va 0) = Some q"
  defines "m' \<equiv> mem_put64 m (pte_at q (vpn_level va 0)) v"
  shows "pt_wf m' P N"
    "leaf_of m' N vb = (if same_page va vb then entry_value v else leaf_of m N vb)"
    "\<And>r x. r \<in> P - ran N \<Longrightarrow> x \<in> page_cells r \<Longrightarrow> m' x = m x"
proof -
  have qq: "page_ok q" "q \<in> P" using pt_wf_pageD [OF wf q] by auto
  have other: "tab m' r j = tab m r j" if "page_ok r" "j < 512" "(q, vpn_level va 0) \<noteq> (r, j)" for r j
    unfolding m'_def using that qq vpn_level_less by (intro tab_put_other) auto
  have inner: "tab m' r j = tab m r j" if "N \<pi> = Some r" "length \<pi> < 2" "j < 512" for \<pi> r j
  proof (rule other)
    show "page_ok r" "j < 512" using pt_wf_pageD [OF wf that(1)] that(3) by auto
    have "\<pi> \<noteq> vpath va 0" using that(2) by auto
    then show "(q, vpn_level va 0) \<noteq> (r, j)" using pt_wf_injD [OF wf that(1), of "vpath va 0"] q by auto
  qed
  show "pt_wf m' P N"
  proof (rule pt_wfI)
    fix \<pi> p i assume a: "N \<pi> = Some p" "length \<pi> < 2" "i < (512 :: nat)"
    show "case N (\<pi> @ [i]) of None \<Rightarrow> tab m' p i AND PTE_V = 0 | Some q \<Rightarrow> tab m' p i = PA2PTE q OR PTE_V"
      using wf a unfolding inner [OF a] pt_wf_def by metis
  qed (use pt_wf_rootD [OF wf] pt_wf_okD [OF wf] pt_wf_pageD [OF wf] pt_wf_lengthD [OF wf]
         pt_wf_injD [OF wf] pt_wf_parentD [OF wf] in blast)+
  show "leaf_of m' N vb = (if same_page va vb then entry_value v else leaf_of m N vb)"
  proof (cases "N (vpath vb 0)")
    case None
    then have "\<not> same_page va vb" using q by (auto simp: same_page_iff)
    then show ?thesis using None by (simp add: leaf_of_eq)
  next
    case (Some r)
    have r: "page_ok r" using pt_wf_pageD [OF wf Some] by simp
    have "tab m' r (vpn_level vb 0) = (if same_page va vb then v else tab m r (vpn_level vb 0))"
    proof (cases "same_page va vb")
      case True
      then have "r = q" "vpn_level vb 0 = vpn_level va 0" using Some q by (auto simp: same_page_iff)
      then show ?thesis using True qq(1) by (simp add: m'_def tab_put_same vpn_level_less)
    next
      case False
      then have "(q, vpn_level va 0) \<noteq> (r, vpn_level vb 0)"
        using pt_wf_injD [OF wf q, of "vpath vb 0"] Some by (auto simp: same_page_iff)
      then show ?thesis using False other [OF r vpn_level_less] by simp
    qed
    then show ?thesis using Some by (simp add: leaf_of_eq)
  qed
  show "m' x = m x" if "r \<in> P - ran N" "x \<in> page_cells r" for r x
  proof -
    have "page_ok r" "q \<noteq> r" using that(1) pt_wf_okD [OF wf] q by (auto simp: ran_def)
    then show ?thesis unfolding m'_def using put_outside_page [OF qq(1) vpn_level_less _ _ that(2)] by simp
  qed
qed

section \<open>map_page\<close>

definition leaf_pte :: "ulong \<Rightarrow> int \<Rightarrow> pte_t" where
  "leaf_pte pa perm = PA2PTE pa OR word_of_int perm OR PTE_V OR PTE_A OR PTE_D"

lemma or_PTE_V_valid: "(a OR PTE_V OR b) AND PTE_V \<noteq> 0"
proof -
  have "bit ((a OR PTE_V OR b) AND PTE_V) 0" by (simp add: PTE_V_def bit_simps)
  then show ?thesis by (metis bit_0_eq bot_apply bot_bool_def)
qed

lemma entry_value_leaf [simp]: "entry_value (leaf_pte pa perm) = Some (leaf_pte pa perm)"
  using or_PTE_V_valid [of "PA2PTE pa OR word_of_int perm" "PTE_A OR PTE_D"]
  by (simp add: entry_value_def leaf_pte_def or.assoc)

lemma pte_at_nonzero: "page_ok p \<Longrightarrow> i < 512 \<Longrightarrow> pte_at p i \<noteq> 0"
  using unat_pte_at [of p i] by (auto simp: page_ok_def)

text \<open>The high addresses of table entries are not null either: the linear map adds 0 or
  \<^const>\<open>VA_OFFSET\<close>.\<close>

definition linear_map :: "'z machine_scheme \<Rightarrow> bool" where
  "linear_map s \<longleftrightarrow> va_offset s = 0 \<or> va_offset s = VA_OFFSET"

lemma pte_virt_nonzero:
  assumes "page_ok p" and "i < 512" and "linear_map s"
  shows "pte_at (PHYS_TO_VIRT s p) i \<noteq> 0"
proof
  assume "pte_at (PHYS_TO_VIRT s p) i = 0"
  then have "pte_at p i = - va_offset s" using pte_ram(2) [OF assms(1,2), of s] by simp
  then have "unat (pte_at p i) = 0 \<or> unat (pte_at p i) = 0x100000000"
    using assms(3) by (auto simp: linear_map_def VA_OFFSET_eq)
  then show False using unat_pte_at [OF assms(1,2)] assms(1,2) by (auto simp: page_ok_def)
qed

lemma linear_map_frame: "alloc_frame s' = alloc_frame s \<Longrightarrow> linear_map s' \<longleftrightarrow> linear_map s"
  using alloc_frame_fields(1) [of s' s] by (simp add: linear_map_def)

lemma map_page_ok:
  assumes wf: "pt_wf (m_mem s) P N" and root: "N [] = Some root" and inv: "pages_own P s"
    and lin: "linear_map s"
  shows "\<exists>ret s' P' N'. map_page root va pa perm s = Inr (ret, s') \<and>
     pt_wf (m_mem s') P' N' \<and> N' [] = Some root \<and> pages_own P' s' \<and>
     alloc_frame s' = alloc_frame s \<and> P \<subseteq> P' \<and> P' - ran N' = P - ran N \<and>
     (\<forall>q \<in> P - ran N. \<forall>x \<in> page_cells q. m_mem s' x = m_mem s x) \<and>
     (ret = -1 \<and> (\<forall>vb. leaf_of (m_mem s') N' vb = leaf_of (m_mem s) N vb) \<or>
      ret = 0 \<and> (\<forall>vb. leaf_of (m_mem s') N' vb =
        (if same_page va vb \<and> leaf_of (m_mem s) N va = None then Some (leaf_pte pa perm)
         else leaf_of (m_mem s) N vb))) \<and>
     (\<forall>k. pages_left (2 + k) s \<longrightarrow> pages_left k s' \<and> ret = 0)"
proof -
  obtain r s1 P1 N1 where w: "walk (PHYS_TO_VIRT s root) va 1 s = Inr (r, s1)"
      "pt_wf (m_mem s1) P1 N1" "pages_own P1 s1" "alloc_frame s1 = alloc_frame s"
      "pt_grows (m_mem s) P N (m_mem s1) P1 N1"
      "r = 0 \<or> (\<exists>q. N1 (vpath va 0) = Some q \<and> r = pte_at (PHYS_TO_VIRT s q) (vpn_level va 0))"
      "\<forall>k. pages_left (2 + k) s \<longrightarrow> pages_left k s1 \<and>
         (\<exists>q. N1 (vpath va 0) = Some q \<and> r = pte_at (PHYS_TO_VIRT s q) (vpn_level va 0))"
    using walk_levels_alloc [OF wf inv, of 2 va root] root unfolding walk_def vpath_simps
    by (metis order_refl)
  have P: "P \<subseteq> P1" "P1 - ran N1 = P - ran N" "N1 [] = Some root"
    and keep: "\<forall>q \<in> P - ran N. \<forall>x \<in> page_cells q. m_mem s1 x = m_mem s x"
    using w(5) pt_wf_pageD [OF wf] root map_le_ran [of N N1]
    unfolding pt_grows_def by (blast, blast, metis domI map_le_def, blast)
  note same = pt_grows_leaf [OF w(5)]
  show ?thesis
  proof (cases "r = 0")
    case True
    then have "map_page root va pa perm s = Inr (-1, s1)" using w(1) by (simp add: map_page_def)
    moreover have "\<not> pages_left (2 + k) s" for k
      using w(7) True pte_virt_nonzero [OF _ vpn_level_less lin] pt_wf_pageD [OF w(2)] by metis
    ultimately show ?thesis using w(1-6) P keep same
      by (intro exI [of _ "-1"] exI [of _ s1] exI [of _ P1] exI [of _ N1]) simp
  next
    case False
    then obtain q where q: "N1 (vpath va 0) = Some q" "r = pte_at (PHYS_TO_VIRT s q) (vpn_level va 0)"
      using w(6) by blast
    have qok: "page_ok q" using pt_wf_pageD [OF w(2) q(1)] by simp
    have off: "PHYS_TO_VIRT s x = PHYS_TO_VIRT s1 x" for x
      using alloc_frame_fields(1) [OF w(4)] by (simp add: PHYS_TO_VIRT_def)
    let ?e = "tab (m_mem s1) q (vpn_level va 0)"
    let ?m = "mem_put64 (m_mem s1) (pte_at q (vpn_level va 0)) (leaf_pte pa perm)"
    let ?s2 = "if ?e AND PTE_V = 0 then s1\<lparr>m_mem := ?m\<rparr> else s1"
    have run: "map_page root va pa perm s = Inr (0, ?s2)"
      using w(1) False load_pte [OF qok vpn_level_less, of s1 va 0] store_pte [OF qok vpn_level_less, of s1 va 0]
      by (simp add: map_page_def q(2) off tab_def leaf_pte_def)
    have ev: "leaf_of (m_mem s1) N1 va = entry_value ?e" using q(1) by (simp add: leaf_of_eq)
    note st = pt_leaf_store [OF w(2) q(1), where v = "leaf_pte pa perm"]
    have "pt_wf (m_mem ?s2) P1 N1" "pages_own P1 ?s2" "alloc_frame ?s2 = alloc_frame s"
      using st(1) w(2,3,4) by simp_all
    moreover have "\<forall>q \<in> P - ran N. \<forall>x \<in> page_cells q. m_mem ?s2 x = m_mem s x"
      using keep st(3) P(2) by simp
    moreover have "\<forall>vb. leaf_of (m_mem ?s2) N1 vb =
        (if same_page va vb \<and> leaf_of (m_mem s) N va = None then Some (leaf_pte pa perm)
         else leaf_of (m_mem s) N vb)"
    proof -
      have "leaf_of (m_mem s) N va = None \<longleftrightarrow> ?e AND PTE_V = 0"
        using ev same [of va] by (simp add: entry_value_def)
      then show ?thesis using st(2) same by simp
    qed
    moreover have "\<forall>k. pages_left (2 + k) s \<longrightarrow> pages_left k ?s2" using w(7) by simp
    ultimately show ?thesis using run P
      by (intro exI [of _ 0] exI [of _ ?s2] exI [of _ P1] exI [of _ N1]) simp
  qed
qed


section \<open>unmap_page\<close>

lemma walk_lookup:
  assumes "pt_wf (m_mem s) P N" and "N [] = Some root"
  shows "walk (PHYS_TO_VIRT s root) va 0 s =
    Inr (case N (vpath va 0) of None \<Rightarrow> 0 | Some q \<Rightarrow> pte_at (PHYS_TO_VIRT s q) (vpn_level va 0), s)"
  using walk_levels_lookup [OF assms(1), of 2 va root] assms(2) by (simp add: walk_def vpath_simps)

lemma unmap_page_unmapped:
  assumes "pt_wf (m_mem s) P N" and "N [] = Some root" and "linear_map s" and "leaf_of (m_mem s) N va = None"
  shows "unmap_page root va s = Inr (-1, s)"
proof (cases "N (vpath va 0)")
  case None
  then show ?thesis using walk_lookup [OF assms(1,2)] by (simp add: unmap_page_def)
next
  case (Some q)
  have q: "page_ok q" using pt_wf_pageD [OF assms(1) Some] by simp
  have "tab (m_mem s) q (vpn_level va 0) AND PTE_V = 0"
    using assms(4) Some by (simp add: leaf_of_eq entry_value_def split: if_splits)
  then show ?thesis
    using walk_lookup [OF assms(1,2), of va] Some pte_virt_nonzero [OF q vpn_level_less assms(3)]
      load_pte [OF q vpn_level_less, of s va 0]
    by (simp add: unmap_page_def tab_def)
qed

text \<open>A mapped page: what happens is decided by \<open>free_page\<close>.\<close>

lemma unmap_page_mapped:
  assumes wf: "pt_wf (m_mem s) P N" and root: "N [] = Some root" and lin: "linear_map s"
    and e: "leaf_of (m_mem s) N va = Some e"
  obtains q where "N (vpath va 0) = Some q" "page_ok q"
    "unmap_page root va s = rbind (free_page (PTE2PA e) s) (\<lambda>s1.
       rbind (store64 (pte_at (PHYS_TO_VIRT s q) (vpn_level va 0)) 0 s1) (\<lambda>s2. Inr (0, s2)))"
proof -
  obtain q where q: "N (vpath va 0) = Some q" using e by (auto simp: leaf_of_eq split: option.splits)
  have ok: "page_ok q" using pt_wf_pageD [OF wf q] by simp
  have "tab (m_mem s) q (vpn_level va 0) = e" "e AND PTE_V \<noteq> 0"
    using e q by (auto simp: leaf_of_eq entry_value_def split: if_splits)
  then have "unmap_page root va s = rbind (free_page (PTE2PA e) s) (\<lambda>s1.
       rbind (store64 (pte_at (PHYS_TO_VIRT s q) (vpn_level va 0)) 0 s1) (\<lambda>s2. Inr (0, s2)))"
    using walk_lookup [OF wf root, of va] q pte_virt_nonzero [OF ok vpn_level_less lin]
      load_pte [OF ok vpn_level_less, of s va 0]
    by (simp add: unmap_page_def tab_def)
  with that q ok show thesis by blast
qed

lemma unmap_page_low:
  assumes wf: "pt_wf (m_mem s) P N" and root: "N [] = Some root" and va0: "va_offset s = 0"
    and e: "leaf_of (m_mem s) N va = Some e" and pa: "PTE2PA e = page_pa s i" "(i, k) \<in> A"
    and inv: "buddy_inv A s" "lock_ready BuddyLock s" "1024 dvd unat (num_pages s)"
  shows "\<exists>s'. unmap_page root va s = Inr (0, s') \<and> pt_wf (m_mem s') P N \<and> buddy_inv (A - {(i, k)}) s' \<and>
     (\<forall>vb. leaf_of (m_mem s') N vb = (if same_page va vb then None else leaf_of (m_mem s) N vb))"
proof -
  have lin: "linear_map s" using va0 by (simp add: linear_map_def)
  obtain q where q: "N (vpath va 0) = Some q" "page_ok q"
      "unmap_page root va s = rbind (free_page (PTE2PA e) s) (\<lambda>s1.
         rbind (store64 (pte_at (PHYS_TO_VIRT s q) (vpn_level va 0)) 0 s1) (\<lambda>s2. Inr (0, s2)))"
    using unmap_page_mapped [OF wf root lin e] by blast
  obtain s1 where s1: "free_pages (page_pa s i) s = Inr s1" "buddy_inv (A - {(i, k)}) s1"
      "lists_only (s\<lparr>m_hart := settled (m_hart s)\<rparr>) s1"
    using free_pages_ok [OF inv(1,2) va0 pa(2)] buddies_in_range_dvd [OF inv(3)] by blast
  have f: "m_mem s1 = m_mem s" "va_offset s1 = va_offset s" using lists_only_fields [OF s1(3)] by simp_all
  let ?m = "mem_put64 (m_mem s) (pte_at q (vpn_level va 0)) 0" and ?s2 = "s1\<lparr>m_mem :=
      mem_put64 (m_mem s) (pte_at q (vpn_level va 0)) 0\<rparr>"
  have "store64 (pte_at (PHYS_TO_VIRT s q) (vpn_level va 0)) 0 s1 = Inr ?s2"
    using store_pte [OF q(2) vpn_level_less, of s1 va 0] f by (simp add: PHYS_TO_VIRT_def)
  then have "unmap_page root va s = Inr (0, ?s2)" using q(3) s1(1) pa(1) by (simp add: free_page_def)
  moreover have "buddy_inv (A - {(i, k)}) ?s2" using s1(2) by (simp add: buddy_inv_def buddy_static_def)
  ultimately show ?thesis using pt_leaf_store(1,2) [OF wf q(1), where v = 0] by (simp add: entry_value_def)
qed

lemma unmap_page_high:
  assumes wf: "pt_wf (m_mem s) P N" and root: "N [] = Some root" and va0: "va_offset s = VA_OFFSET"
    and e: "leaf_of (m_mem s) N va = Some e" and pa: "PTE2PA e = page_pa s i" "i < unat (num_pages s)"
    and inv: "buddy_inv A s" "lock_ready BuddyLock s"
  shows "unmap_page root va s = Inl (Fault (slot_ptr (page_array s) i))"
proof -
  have lin: "linear_map s" using va0 by (simp add: linear_map_def)
  obtain q where "unmap_page root va s = rbind (free_page (PTE2PA e) s) (\<lambda>s1.
         rbind (store64 (pte_at (PHYS_TO_VIRT s q) (vpn_level va 0)) 0 s1) (\<lambda>s2. Inr (0, s2)))"
    using unmap_page_mapped [OF wf root lin e] by blast
  then show ?thesis using free_pages_high_page [OF inv va0 pa(2)] pa(1) by (simp add: free_page_def)
qed

section \<open>free_pagetable\<close>

text \<open>At high addresses \<open>free_pagetable\<close> hands a virtual address to \<open>free_page\<close>, whose
  \<open>get_page_struct\<close> takes it for a page number far beyond the last one.\<close>

lemma free_page_virtual_halts:
  assumes st: "buddy_static s" and lk: "lock_ready BuddyLock s" and off: "va_offset s = VA_OFFSET"
    and p: "page_ok p"
  shows "free_page (PHYS_TO_VIRT s p) s = Inl (Halt H_get_page_struct)"
proof -
  note b = static_bounds [OF st]
  let ?a = "p + VA_OFFSET"
  have a: "unat ?a = unat p + 0xffffffff00000000"
    using p by (simp add: VA_OFFSET_eq unat_add64 page_ok_def)
  then have "?a \<noteq> 0" by auto
  moreover have "unat (?a - buddy_base_phys s) = unat p + 0xffffffff00000000 - unat (buddy_base_phys s)"
    using a b by (subst unat_sub64) (simp_all add: word_le_nat_alt)
  then have "num_pages s \<le> (?a - buddy_base_phys s) div PAGE_SIZE"
    using b p by (simp add: word_le_nat_alt unat_div page_ok_def)
  then have "get_page_struct s ?a = Inl (Halt H_get_page_struct)" by (simp add: get_page_struct_def Let_def)
  moreover have "spin_lock BuddyLock s =
      Inr (s\<lparr>m_hart := irq_save (m_hart s), m_locks := (m_locks s)(BuddyLock := 1)\<rparr>)"
    using lk by (simp add: lock_ready_def spin_lock_free)
  ultimately show ?thesis using off by (simp add: free_page_def free_pages_def PHYS_TO_VIRT_def)
qed

lemma free_entries_cases:
  assumes p: "page_ok p" and child: "\<And>i. i < 512 \<Longrightarrow> tab (m_mem s) p i AND PTE_V \<noteq> 0 \<Longrightarrow>
      tab (m_mem s) p i AND (PTE_R OR PTE_W OR PTE_X) = 0 \<Longrightarrow>
      free_table d (PTE2PA (tab (m_mem s) p i)) s = Inl (Halt H_get_page_struct)"
  shows "n \<le> 512 \<Longrightarrow> free_entries d n (PHYS_TO_VIRT s p) s \<in> {Inr s, Inl (Halt H_get_page_struct)}"
proof (induction n)
  case (Suc n)
  have i: "PTE_COUNT - Suc n < 512" by (simp add: PTE_COUNT_def)
  show ?case
    using Suc child [OF i] load_pte [OF p i, of s]
    by (simp add: free_entries.simps tab_def)
qed (simp add: free_entries.simps)

lemma free_table_halts:
  assumes wf: "pt_wf (m_mem s) P N" and st: "buddy_static s" and lk: "lock_ready BuddyLock s"
    and off: "va_offset s = VA_OFFSET"
    and leaves: "\<And>\<pi> q j. \<lbrakk>N \<pi> = Some q; length \<pi> = 2; j < 512; tab (m_mem s) q j AND PTE_V \<noteq> 0\<rbrakk> \<Longrightarrow>
      tab (m_mem s) q j AND (PTE_R OR PTE_W OR PTE_X) \<noteq> 0"
  shows "\<lbrakk>N \<pi> = Some p; 2 - length \<pi> \<le> d\<rbrakk> \<Longrightarrow> free_table (Suc d) p s = Inl (Halt H_get_page_struct)"
proof (induction d arbitrary: \<pi> p)
  case 0
  have p: "page_ok p" using pt_wf_pageD [OF wf 0(1)] by simp
  have "length \<pi> = 2" using 0(2) pt_wf_lengthD [OF wf 0(1)] by simp
  then have "free_entries 0 512 (PHYS_TO_VIRT s p) s \<in> {Inr s, Inl (Halt H_get_page_struct)}"
    using leaves [OF 0(1)] by (intro free_entries_cases [OF p]) auto
  then show ?case using free_page_virtual_halts [OF st lk off p]
    by (auto simp: free_table.simps PTE_COUNT_def)
next
  case (Suc d)
  have p: "page_ok p" using pt_wf_pageD [OF wf Suc.prems(1)] by simp
  have child: "free_table (Suc d) (PTE2PA (tab (m_mem s) p i)) s = Inl (Halt H_get_page_struct)"
    if i: "i < 512" and v: "tab (m_mem s) p i AND PTE_V \<noteq> 0"
      "tab (m_mem s) p i AND (PTE_R OR PTE_W OR PTE_X) = 0" for i
  proof -
    have l: "length \<pi> < 2"
      using leaves [OF Suc.prems(1) _ i v(1)] v(2) pt_wf_lengthD [OF wf Suc.prems(1)] by (cases "length \<pi> = 2") auto
    obtain q where q: "N (\<pi> @ [i]) = Some q"
      using pt_wf_invalidD [OF wf Suc.prems(1) l i] v(1) by (cases "N (\<pi> @ [i])") auto
    have "PTE2PA (tab (m_mem s) p i) = q"
      using pt_wf_validD [OF wf Suc.prems(1) l i q] inner_entry(1) [of q] pt_wf_pageD [OF wf q] by simp
    then show ?thesis using Suc.IH [OF q] Suc.prems(2) by simp
  qed
  have "free_entries (Suc d) 512 (PHYS_TO_VIRT s p) s \<in> {Inr s, Inl (Halt H_get_page_struct)}"
    by (rule free_entries_cases [OF p child]) auto
  then show ?case using free_page_virtual_halts [OF st lk off p]
    by (auto simp: free_table.simps(2) PTE_COUNT_def)
qed

end
