(* ===== verification/Map_Range.thy ===== *)
theory Map_Range
  imports Pagetable_Ops Page_Loop
begin

text \<open>
  Mapping a range of pages one after the other. Two addresses are on the same page for the walk
  when they agree in the 27 bits above the offset; the pages of a range that is not longer than the
  address space of the table are different.
\<close>

section \<open>Page numbers\<close>

lemma vpn_level_div: "vpn_level va l = unat va div 2 ^ (12 + 9 * l) mod 512"
proof -
  have "drop_bit (PAGE_SHIFT + 9 * l) va AND 0x1FF = take_bit 9 (drop_bit (PAGE_SHIFT + 9 * l) va)"
    by (simp add: take_bit_eq_mask mask_eq_exp_minus_1)
  then have "vpn_level va l = take_bit 9 (drop_bit (12 + 9 * l) (unat va))"
    unfolding vpn_level_def by (simp only: unsigned_take_bit_eq unat_drop_bit_eq PAGE_SHIFT_def)
  then show ?thesis by (simp only: take_bit_eq_mod drop_bit_eq_div) simp
qed

lemma digit_split:
  fixes a n m :: nat
  assumes "a < n"
  shows "(a + n * m) mod n = a" "(a + n * m) div n = m"
  using assms by simp_all

lemma mod_digits:
  fixes x y :: nat
  shows "x mod 2 ^ 27 = y mod 2 ^ 27 \<longleftrightarrow>
     x mod 512 = y mod 512 \<and> x div 512 mod 512 = y div 512 mod 512 \<and> x div 262144 mod 512 = y div 262144 mod 512"
proof -
  have d: "z mod 2 ^ 27 = z mod 512 + 512 * (z div 512 mod 512) + 262144 * (z div 262144 mod 512)" for z :: nat
    using mod_mult2_eq [of z 512 "512 * 512"] mod_mult2_eq [of "z div 512" 512 512]
    by (simp add: div_mult2_eq [symmetric] algebra_simps)
  show ?thesis
  proof
    assume e: "x mod 2 ^ 27 = y mod 2 ^ 27"
    have "(a + 512 * b + 262144 * c) mod 512 = a" "(a + 512 * b + 262144 * c) div 512 mod 512 = b"
        "(a + 512 * b + 262144 * c) div 262144 = c" if "a < 512" "b < 512" for a b c :: nat
    proof -
      have s: "a + 512 * b + 262144 * c = a + 512 * (b + 512 * c)" by simp
      have e: "(a + 512 * b + 262144 * c) mod 512 = a" "(a + 512 * b + 262144 * c) div 512 = b + 512 * c"
        unfolding s by (rule digit_split [OF that(1)])+
      then show "(a + 512 * b + 262144 * c) mod 512 = a" "(a + 512 * b + 262144 * c) div 512 mod 512 = b"
        using that(2) by simp_all
      have "(a + 512 * b + 262144 * c) div (512 * 512) = c" unfolding div_mult2_eq e using that(2) by simp
      then show "(a + 512 * b + 262144 * c) div 262144 = c" by simp
    qed
    from this [of "z mod 512" "z div 512 mod 512" for z]
    have "z mod 2 ^ 27 mod 512 = z mod 512" "z mod 2 ^ 27 div 512 mod 512 = z div 512 mod 512"
        "z mod 2 ^ 27 div 262144 = z div 262144 mod 512" for z :: nat
      unfolding d by simp_all
    then show "x mod 512 = y mod 512 \<and> x div 512 mod 512 = y div 512 mod 512 \<and> x div 262144 mod 512 = y div 262144 mod 512"
      using e by metis
  qed (simp only: d)
qed

lemma same_page_div: "same_page va vb \<longleftrightarrow> unat va div 4096 mod 2 ^ 27 = unat vb div 4096 mod 2 ^ 27"
proof -
  have "(\<forall>l < 3. f l) \<longleftrightarrow> f 0 \<and> f 1 \<and> f 2" for f :: "nat \<Rightarrow> bool"
    by (auto simp: less_Suc_eq numeral_3_eq_3 numeral_2_eq_2)
  then show ?thesis
    unfolding same_page_def mod_digits by (simp add: vpn_level_div div_mult2_eq [symmetric])
qed

lemma page_at_same:
  assumes "unat start + 4096 * j < 2 ^ 64" "unat start + 4096 * k < 2 ^ 64" and "j < 2 ^ 27" "k < 2 ^ 27"
  shows "same_page (page_at start j) (page_at start k) \<longleftrightarrow> j = k"
proof -
  have le: "(x + j) mod n = (x + k) mod n \<Longrightarrow> j \<le> k \<Longrightarrow> k < n \<Longrightarrow> j = k" for x n j k :: nat
    using mod_eq_dvd_iff_nat [of "x + j" "x + k" n] dvd_imp_le [of n "k - j"] by fastforce
  have "(j + x) mod 2 ^ 27 = (k + x) mod 2 ^ 27 \<longleftrightarrow> j = k" for x :: nat
    using le [of x j "2 ^ 27" k] le [of x k "2 ^ 27" j] assms(3,4)
    by (cases "j \<le> k") (auto simp: add.commute)
  then show ?thesis using assms(1,2) by (simp add: same_page_div unat_page_at)
qed

lemma same_page_refl [simp]: "same_page va va"
  by (simp add: same_page_def)

lemma same_page_sym: "same_page va vb \<longleftrightarrow> same_page vb va"
  by (auto simp: same_page_def)

lemma same_page_trans: "same_page va vb \<Longrightarrow> same_page va vc \<longleftrightarrow> same_page vb vc"
  by (auto simp: same_page_def)

section \<open>An address space\<close>

text \<open>A tree of tables with its root, in a state in which its owner may allocate.\<close>

definition pt_space :: "ulong \<Rightarrow> 'z buddy_scheme \<Rightarrow> ulong set \<Rightarrow> (nat list \<rightharpoonup> ulong) \<Rightarrow> bool" where
  "pt_space root s P N \<longleftrightarrow> pt_wf (m_mem s) P N \<and> N [] = Some root \<and> pages_own P s \<and> linear_map s"

abbreviation look :: "ulong \<Rightarrow> 'z buddy_scheme \<Rightarrow> ulong \<Rightarrow> pte_t option" where
  "look root s \<equiv> pt_lookup (m_mem s) root"

lemma look_tree: "pt_space root s P N \<Longrightarrow> look root s va = leaf_of (m_mem s) N va"
  unfolding pt_space_def by (rule pt_lookup_tree) auto

lemma leaf_of_same_page: "same_page va vb \<Longrightarrow> leaf_of m N va = leaf_of m N vb"
  by (auto simp: leaf_of_def same_page_iff split: option.splits)

lemma look_same_page: "pt_space root s P N \<Longrightarrow> same_page va vb \<Longrightarrow> look root s va = look root s vb"
  using leaf_of_same_page by (simp add: look_tree)

text \<open>Memory outside the tables does not matter to them.\<close>

lemma tab_cong:
  assumes "page_ok p" "i < 512" and "\<And>x. x \<in> page_cells p \<Longrightarrow> m' x = m x"
  shows "tab m' p i = tab m p i"
  unfolding tab_def mem_get64_def
  by (rule arg_cong [where f = of_le_bytes], rule get_bytes_cong) (use assms pte_cell_in_page in auto)

lemma pt_wf_outside:
  assumes wf: "pt_wf m P N" and same: "\<And>q x. q \<in> ran N \<Longrightarrow> x \<in> page_cells q \<Longrightarrow> m' x = m x"
  shows "pt_wf m' P N" "leaf_of m' N va = leaf_of m N va"
proof -
  have t: "tab m' r i = tab m r i" if "N \<pi> = Some r" "i < 512" for \<pi> r i
    using pt_wf_pageD [OF wf that(1)] that by (intro tab_cong same) (auto intro: ranI)
  show "pt_wf m' P N"
  proof (rule pt_wfI)
    fix \<pi> p i assume a: "N \<pi> = Some p" "length \<pi> < 2" "i < (512 :: nat)"
    show "case N (\<pi> @ [i]) of None \<Rightarrow> tab m' p i AND PTE_V = 0 | Some r \<Rightarrow> tab m' p i = PA2PTE r OR PTE_V"
      using wf a unfolding t [OF a(1,3)] pt_wf_def by metis
  qed (use pt_wf_rootD [OF wf] pt_wf_okD [OF wf] pt_wf_pageD [OF wf] pt_wf_lengthD [OF wf]
         pt_wf_injD [OF wf] pt_wf_parentD [OF wf] in blast)+
  show "leaf_of m' N va = leaf_of m N va"
    using t [OF _ vpn_level_less] by (simp add: leaf_of_def split: option.splits)
qed

text \<open>A fresh page does not disturb the tables.\<close>

lemma pt_wf_fresh:
  assumes wf: "pt_wf m P N" and q: "q \<notin> P" "page_ok q"
  shows "pt_wf (fill m q 0 4096) (insert q P) N" "leaf_of (fill m q 0 4096) N va = leaf_of m N va"
proof -
  have t: "tab (fill m q 0 4096) r i = tab m r i" if "N \<pi> = Some r" "i < 512" for \<pi> r i
    using pt_wf_pageD [OF wf that(1)] q that(2) unfolding tab_def by (intro pte_fill_other) auto
  show "pt_wf (fill m q 0 4096) (insert q P) N"
  proof (rule pt_wfI)
    fix \<pi> p i assume a: "N \<pi> = Some p" "length \<pi> < 2" "i < (512 :: nat)"
    show "case N (\<pi> @ [i]) of None \<Rightarrow> tab (fill m q 0 4096) p i AND PTE_V = 0
        | Some r \<Rightarrow> tab (fill m q 0 4096) p i = PA2PTE r OR PTE_V"
      using wf a unfolding t [OF a(1,3)] pt_wf_def by metis
  qed (use pt_wf_rootD [OF wf] pt_wf_okD [OF wf] pt_wf_pageD [OF wf] pt_wf_lengthD [OF wf]
         pt_wf_injD [OF wf] pt_wf_parentD [OF wf] q in blast)+
  show "leaf_of (fill m q 0 4096) N va = leaf_of m N va"
    using t [OF _ vpn_level_less] by (simp add: leaf_of_def split: option.splits)
qed

text \<open>The pages of the owner that are not tables: their contents survive.\<close>

definition keeps_pages ::
    "'z buddy_scheme \<Rightarrow> ulong set \<Rightarrow> (nat list \<rightharpoonup> ulong) \<Rightarrow> 'z buddy_scheme \<Rightarrow> ulong set \<Rightarrow> (nat list \<rightharpoonup> ulong) \<Rightarrow> bool" where
  "keeps_pages s P N s' P' N' \<longleftrightarrow> P \<subseteq> P' \<and>
     (\<forall>q \<in> P - ran N. q \<notin> ran N' \<and> (\<forall>x \<in> page_cells q. m_mem s' x = m_mem s x))"

lemma keeps_pages_refl: "keeps_pages s P N s P N"
  by (simp add: keeps_pages_def)

lemma keeps_pages_trans:
  assumes "keeps_pages s P N t Q M" and "keeps_pages t Q M u R K"
  shows "keeps_pages s P N u R K"
proof -
  have "q \<notin> ran K \<and> (\<forall>x \<in> page_cells q. m_mem u x = m_mem s x)" if "q \<in> P - ran N" for q
  proof -
    have a: "q \<in> Q - ran M" "\<forall>x \<in> page_cells q. m_mem t x = m_mem s x"
      using assms(1) that unfolding keeps_pages_def by blast+
    then have "q \<notin> ran K" "\<forall>x \<in> page_cells q. m_mem u x = m_mem t x"
      using assms(2) unfolding keeps_pages_def by blast+
    then show ?thesis using a(2) by simp
  qed
  then show ?thesis using assms unfolding keeps_pages_def by blast
qed

lemma pt_space_alloc:
  assumes sp: "pt_space root s P N" and a: "alloc_page s = Inr (q, s')"
  shows "alloc_frame s' = alloc_frame s" "look root s' = look root s"
    "q = 0 \<Longrightarrow> pt_space root s' P N \<and> keeps_pages s P N s' P N"
    "q \<noteq> 0 \<Longrightarrow> q \<notin> P \<and> page_ok q \<and> pt_space root s' (insert q P) N \<and> keeps_pages s P N s' (insert q P) N \<and>
       q \<notin> ran N \<and> (\<forall>x \<in> page_cells q. m_mem s' x = 0)"
    "pages_left (Suc n) s \<Longrightarrow> q \<noteq> 0 \<and> pages_left n s'"
proof -
  have s: "pt_wf (m_mem s) P N" "N [] = Some root" "pages_own P s" "linear_map s" using sp by (simp_all add: pt_space_def)
  show fr: "alloc_frame s' = alloc_frame s" by (rule own_pages.alloc_rest [OF s(3) a])
  have lin: "linear_map s'" using linear_map_frame [OF fr] s(4) by simp
  show none: "pt_space root s' P N \<and> keeps_pages s P N s' P N" if "q = 0"
    using own_pages.alloc_page_none [OF s(3)] a that s lin by (simp add: pt_space_def keeps_pages_def)
  show new: "q \<notin> P \<and> page_ok q \<and> pt_space root s' (insert q P) N \<and> keeps_pages s P N s' (insert q P) N \<and>
       q \<notin> ran N \<and> (\<forall>x \<in> page_cells q. m_mem s' x = 0)" if "q \<noteq> 0"
  proof -
    note n = own_pages.alloc_page_new [OF s(3) a that]
    have ok: "page_ok q" using own_pages.handed_out [of "insert q P" s' q] n by simp
    have "q \<notin> ran N" using n pt_wf_pageD [OF s(1)] by (auto simp: ran_def)
    moreover have "keeps_pages s P N s' (insert q P) N"
      using own_pages.alloc_keeps_pages [OF s(3) a] by (auto simp: keeps_pages_def)
    moreover have "pt_space root s' (insert q P) N"
      unfolding pt_space_def using pt_wf_fresh(1) [OF s(1) _ ok] n s(2) lin by simp
    moreover have "\<forall>x \<in> page_cells q. m_mem s' x = 0" using own_pages.alloc_zeroed [OF s(3) a that] by simp
    ultimately show ?thesis using n ok by blast
  qed
  show "look root s' = look root s"
  proof (cases "q = 0")
    case True
    then show ?thesis using own_pages.alloc_page_none [OF s(3)] a by simp
  next
    case False
    note n = own_pages.alloc_page_new [OF s(3) a False]
    show ?thesis
      using new [OF False] look_tree [OF sp] look_tree [of root s' "insert q P" N] pt_wf_fresh(2) [OF s(1)] n
      by (intro ext) simp
  qed
  show "pages_left (Suc n) s \<Longrightarrow> q \<noteq> 0 \<and> pages_left n s'"
    using alloc_page_left [OF _ pages_own_ready [OF s(3)] a] by blast
qed

lemma pt_space_map:
  assumes sp: "pt_space root s P N" and none: "look root s va = None"
  obtains ret s' P' N' where "map_page root va pa perm s = Inr (ret, s')" "pt_space root s' P' N'"
    "alloc_frame s' = alloc_frame s" "keeps_pages s P N s' P' N'" "P' - ran N' = P - ran N"
    "ret = -1 \<and> look root s' = look root s \<or>
     ret = 0 \<and> (\<forall>vb. look root s' vb = (if same_page va vb then Some (leaf_pte pa perm) else look root s vb))"
    "\<And>k. pages_left (2 + k) s \<Longrightarrow> pages_left k s' \<and> ret = 0"
proof -
  have s: "pt_wf (m_mem s) P N" "N [] = Some root" "pages_own P s" "linear_map s" using sp by (simp_all add: pt_space_def)
  obtain ret s' P' N' where r: "map_page root va pa perm s = Inr (ret, s')"
      "pt_wf (m_mem s') P' N'" "N' [] = Some root" "pages_own P' s'" "alloc_frame s' = alloc_frame s"
      "P \<subseteq> P'" "P' - ran N' = P - ran N" "\<forall>q \<in> P - ran N. \<forall>x \<in> page_cells q. m_mem s' x = m_mem s x"
      "ret = -1 \<and> (\<forall>vb. leaf_of (m_mem s') N' vb = leaf_of (m_mem s) N vb) \<or>
       ret = 0 \<and> (\<forall>vb. leaf_of (m_mem s') N' vb =
         (if same_page va vb \<and> leaf_of (m_mem s) N va = None then Some (leaf_pte pa perm)
          else leaf_of (m_mem s) N vb))"
      "\<forall>k. pages_left (2 + k) s \<longrightarrow> pages_left k s' \<and> ret = 0"
    using map_page_ok [OF s, of va pa perm] by blast
  have sp': "pt_space root s' P' N'" using r linear_map_frame [OF r(5)] s(4) by (simp add: pt_space_def)
  have none': "leaf_of (m_mem s) N va = None" using none look_tree [OF sp] by simp
  show thesis
  proof (rule that [OF r(1) sp' r(5) _ r(7)])
    show "keeps_pages s P N s' P' N'" using r(6-8) unfolding keeps_pages_def by blast
    show "ret = -1 \<and> look root s' = look root s \<or>
       ret = 0 \<and> (\<forall>vb. look root s' vb = (if same_page va vb then Some (leaf_pte pa perm) else look root s vb))"
      using r(9) none' unfolding look_tree [OF sp] look_tree [OF sp'] fun_eq_iff by simp
  qed (use r(10) in blast)
qed

end
