(* ===== verification/Fresh_Page.thy ===== *)
theory Fresh_Page
  imports Sched Map_Range
begin

text \<open>
  Mapping a page that has just been allocated into a page table, as the loops that fill the memory of a
  process do, and the state that allocation leaves alone.
\<close>

text \<open>Allocation leaves the kernel's other state alone.\<close>

lemma alloc_frame_kernel:
  fixes s s' :: "'z kernel_scheme"
  assumes "alloc_frame s' = alloc_frame s"
  shows "procs s' = procs s" "nodes s' = nodes s" "frames s' = frames s" "tp s' = tp s" "cpu_proc s' = cpu_proc s"
    "satp s' = satp s" "caches s' = caches s" "next_pid s' = next_pid s" "needs_sched s' = needs_sched s"
    "sscratch s' = sscratch s" "hart_ctx s' = hart_ctx s"
  using arg_cong [OF assms, of procs] arg_cong [OF assms, of nodes] arg_cong [OF assms, of frames]
    arg_cong [OF assms, of tp] arg_cong [OF assms, of cpu_proc] arg_cong [OF assms, of satp]
    arg_cong [OF assms, of caches] arg_cong [OF assms, of next_pid] arg_cong [OF assms, of needs_sched]
    arg_cong [OF assms, of sscratch] arg_cong [OF assms, of hart_ctx]
  by (simp_all add: alloc_frame_def)

definition heap_perm :: int where "heap_perm = 0x16"

lemma heap_perm_eq: "c_int (PTE_R OR PTE_W OR PTE_U) = heap_perm"
  by (simp add: c_int_def heap_perm_def PTE_R_def PTE_W_def PTE_U_def)

section \<open>Mapping a page just allocated\<close>

lemma pt_space_map_fresh:
  assumes sp: "pt_space root t (insert q P) N" and keep: "keeps_pages s P N t (insert q P) N"
    and q: "q \<notin> P" "q \<notin> ran N" and none: "look root t va = None"
  obtains ret s2 P2 N2 where "map_page root va q perm t = Inr (ret, s2)" and "pt_space root s2 P2 N2"
    and "alloc_frame s2 = alloc_frame t" and "keeps_pages s P N s2 P2 N2" and "q \<in> P2 - P - ran N2"
    and "\<forall>x \<in> page_cells q. m_mem s2 x = m_mem t x"
    and "\<forall>vb. \<not> same_page va vb \<longrightarrow> look root s2 vb = look root t vb"
    and "ret \<noteq> -1 \<longrightarrow> look root s2 va = Some (leaf_pte q perm)"
    and "\<forall>k. pages_left (2 + k) t \<longrightarrow> pages_left k s2 \<and> ret \<noteq> -1"
proof -
  obtain ret s2 P2 N2 where r: "map_page root va q perm t = Inr (ret, s2)" "pt_space root s2 P2 N2"
      "alloc_frame s2 = alloc_frame t" "keeps_pages t (insert q P) N s2 P2 N2" "P2 - ran N2 = insert q P - ran N"
      "ret = -1 \<and> look root s2 = look root t \<or>
       ret = 0 \<and> (\<forall>vb. look root s2 vb = (if same_page va vb then Some (leaf_pte q perm) else look root t vb))"
      "\<And>k. pages_left (2 + k) t \<Longrightarrow> pages_left k s2 \<and> ret = 0"
    using pt_space_map [OF sp none] by metis
  show thesis
  proof (rule that [OF r(1-3)])
    show "keeps_pages s P N s2 P2 N2" by (rule keeps_pages_trans [OF keep r(4)])
    show "q \<in> P2 - P - ran N2" using r(5) q by blast
    show "\<forall>x \<in> page_cells q. m_mem s2 x = m_mem t x"
      using r(4) q(2) unfolding keeps_pages_def by blast
  qed (use r(6,7) in auto)
qed

end
