(* ===== verification/Paging_Props.thy ===== *)
theory Paging_Props
  imports Pagetable_Ops Buddy_Props
begin

text \<open>
  The properties of the page-table code: \<open>alloc_pagetable\<close> makes an empty table, \<open>map_page\<close> adds
  exactly the translation asked for, \<open>unmap_page\<close> removes exactly one. The translations are read
  by \<open>pt_lookup\<close>, which follows the tables the way the hardware does.
\<close>

section \<open>Tables in the small allocator state\<close>

lemma sample_pages: "pages_inv {} (sample_with z off)"
  unfolding pages_inv_def using sample_ready [of BuddyLock z off] sample_inv [of z off] by blast

lemma sample_alloc:
  obtains p s1 where "alloc_page (sample_with z off) = Inr (p, s1)" "p \<noteq> 0" "page_ok p" "pages_inv {p} s1"
    "m_mem s1 = fill (m_mem (sample_with z off)) p 0 4096" "alloc_frame s1 = alloc_frame (sample_with z off)"
proof -
  let ?s = "sample_with z off"
  obtain p s1 where a: "alloc_page ?s = Inr (p, s1)"
    using buddy_pages.alloc_total [OF sample_pages [of z off]] by blast
  have "free_lists ?s ! 9 \<noteq> 0" by (simp add: sample_with_def)
  then have "\<not> (\<forall>l. 0 \<le> l \<longrightarrow> l \<le> 10 \<longrightarrow> free_lists ?s ! l = 0)" by (auto intro!: exI [of _ 9])
  then obtain i where i: "p = page_pa ?s i" "buddy_inv (insert (i, 0) {(0, 9)}) s1"
    using alloc_pages_ok [OF sample_inv sample_ready, of 0 z off] a by (auto simp: alloc_page_def)
  have "page_ok (page_pa s1 i)" using page_pa_ok [OF i(2), of i 0] by simp
  then have "page_ok p" using page_pa_frame [of s1 ?s i] alloc_page_cases [OF sample_pages a] i(1) by simp
  then have "p \<noteq> 0" by (auto simp: page_ok_def)
  then show thesis
    using that [OF a] alloc_page_cases [OF sample_pages a] buddy_pages.handed_out [of "{p}" s1 p] by simp
qed

text \<open>A page that reads as zero is an empty table.\<close>

lemma empty_table_wf:
  assumes "page_ok p" and "\<And>i. i < 512 \<Longrightarrow> tab m p i = 0"
  shows "pt_wf m {p} [[] \<mapsto> p]" "leaf_of m [[] \<mapsto> p] va = None"
proof -
  show "pt_wf m {p} [[] \<mapsto> p]" by (rule pt_wfI) (use assms in \<open>auto split: if_splits\<close>)
  show "leaf_of m [[] \<mapsto> p] va = None" by (simp add: leaf_of_def vpath_simps)
qed

section \<open>alloc_pagetable\<close>

text \<open>\<open>alloc_pagetable\<close> returns, and gives either the null address, when no page is left, or a
  page not handed out before that is a well-formed table without any translation.\<close>

theorem alloc_pagetable_empty:
  assumes "pages_inv P s"
  shows "\<exists>p s'. alloc_pagetable s = Inr (p, s') \<and>
     (p = 0 \<and> pages_inv P s' \<and> m_mem s' = m_mem s \<or>
      p \<noteq> 0 \<and> p \<notin> P \<and> pages_inv (insert p P) s' \<and> pt_wf (m_mem s') {p} [[] \<mapsto> p] \<and>
      (\<forall>va. pt_lookup (m_mem s') p va = None))"
proof -
  obtain p s' where a: "alloc_page s = Inr (p, s')" using buddy_pages.alloc_total [OF assms] by blast
  have "pt_wf (m_mem s') {p} [[] \<mapsto> p] \<and> (\<forall>va. pt_lookup (m_mem s') p va = None)" if "p \<noteq> 0"
  proof -
    have n: "pages_inv (insert p P) s'" "m_mem s' = fill (m_mem s) p 0 4096"
      using alloc_page_cases [OF assms a] that by auto
    have ok: "page_ok p" using buddy_pages.handed_out [OF n(1)] by simp
    then have z: "tab (m_mem s') p i = 0" if "i < 512" for i
      using that by (simp add: tab_def n(2) pte_fill_same)
    show ?thesis
      using empty_table_wf [OF ok z] pt_lookup_tree [OF empty_table_wf(1) [OF ok z]] by simp
  qed
  then show ?thesis using alloc_page_cases [OF assms a] a unfolding alloc_pagetable_def by blast
qed

theorem alloc_pagetable_empty_witness:
  "\<exists>p s'. alloc_pagetable (sample VA_OFFSET) = Inr (p, s') \<and> p \<noteq> 0 \<and> pt_lookup (m_mem s') p 0 = None"
proof -
  obtain p s1 where "alloc_page (sample VA_OFFSET) = Inr (p, s1)" "p \<noteq> 0"
    using sample_alloc [of "()" VA_OFFSET] by blast
  then have "alloc_pagetable (sample VA_OFFSET) = Inr (p, s1)" "p \<noteq> 0" by (simp_all add: alloc_pagetable_def)
  then show ?thesis using alloc_pagetable_empty [OF sample_pages [of "()" VA_OFFSET]] by fastforce
qed

section \<open>map_page\<close>

text \<open>C12. \<open>map_page\<close> always returns, keeps the tree of tables well formed and the pages that are not
  tables untouched, and changes the translation as asked: on result 0 the page of \<open>va\<close>
  translates to the new entry if it had no translation, and every other address translates as
  before; on result -1 every address translates as before. With two free pages the result is 0.\<close>

theorem map_page_correct:
  assumes "pt_wf (m_mem s) P N" and "N [] = Some root" and "pages_own P s" and "linear_map s"
  shows "\<exists>ret s' P' N'. map_page root va pa perm s = Inr (ret, s') \<and> ret \<in> {0, -1} \<and> (pages_left 2 s \<longrightarrow> ret = 0) \<and>
     pt_wf (m_mem s') P' N' \<and> N' [] = Some root \<and> pages_own P' s' \<and> alloc_frame s' = alloc_frame s \<and>
     (\<forall>q \<in> P - ran N. \<forall>x \<in> page_cells q. m_mem s' x = m_mem s x) \<and>
     (\<forall>vb. pt_lookup (m_mem s') root vb =
        (if ret = 0 \<and> same_page va vb \<and> pt_lookup (m_mem s) root va = None
         then Some (leaf_pte pa perm) else pt_lookup (m_mem s) root vb))"
proof -
  obtain ret s' P' N' where r: "map_page root va pa perm s = Inr (ret, s')"
      "pt_wf (m_mem s') P' N'" "N' [] = Some root" "pages_own P' s'" "alloc_frame s' = alloc_frame s"
      "\<forall>q \<in> P - ran N. \<forall>x \<in> page_cells q. m_mem s' x = m_mem s x"
      "ret = -1 \<and> (\<forall>vb. leaf_of (m_mem s') N' vb = leaf_of (m_mem s) N vb) \<or>
       ret = 0 \<and> (\<forall>vb. leaf_of (m_mem s') N' vb =
         (if same_page va vb \<and> leaf_of (m_mem s) N va = None then Some (leaf_pte pa perm)
          else leaf_of (m_mem s) N vb))"
      "pages_left (2 + 0) s \<longrightarrow> ret = 0"
    using map_page_ok [OF assms, of va pa perm] by blast
  then show ?thesis
    using pt_lookup_tree [OF assms(1,2)] pt_lookup_tree [OF r(2,3)]
    by (intro exI [of _ ret] exI [of _ s'] exI [of _ P'] exI [of _ N']) auto
qed

theorem map_page_correct_witness:
  "\<exists>p s1 ret s2. alloc_pagetable (sample VA_OFFSET) = Inr (p, s1) \<and> p \<noteq> 0 \<and>
     map_page p 0x1000 0x80200000 0xE s1 = Inr (ret, s2) \<and> (ret = 0 \<or> ret = -1) \<and>
     pt_lookup (m_mem s2) p 0x1000 = (if ret = 0 then Some (leaf_pte 0x80200000 0xE) else None)"
proof -
  obtain p s1 where a: "alloc_page (sample VA_OFFSET) = Inr (p, s1)" "p \<noteq> 0" "page_ok p" "pages_inv {p} s1"
      "m_mem s1 = fill (m_mem (sample VA_OFFSET)) p 0 4096" "alloc_frame s1 = alloc_frame (sample VA_OFFSET)"
    using sample_alloc [of "()" VA_OFFSET] by blast
  have z: "tab (m_mem s1) p i = 0" if "i < 512" for i using that a(3,5) by (simp add: tab_def pte_fill_same)
  note w = empty_table_wf [OF a(3) z]
  have "linear_map s1" using linear_map_frame [OF a(6)] by (simp add: linear_map_def sample_fields)
  then obtain ret s2 where m: "map_page p 0x1000 0x80200000 0xE s1 = Inr (ret, s2)" "ret \<in> {0, -1}"
      "\<forall>vb. pt_lookup (m_mem s2) p vb =
        (if ret = 0 \<and> same_page 0x1000 vb \<and> pt_lookup (m_mem s1) p 0x1000 = None
         then Some (leaf_pte 0x80200000 0xE) else pt_lookup (m_mem s1) p vb)"
    using map_page_correct [OF w(1) _ pages_inv_own [OF a(4)], of p "0x1000" "0x80200000" "0xE"] by auto
  have "pt_lookup (m_mem s1) p 0x1000 = None" using pt_lookup_tree [OF w(1), of p "0x1000"] w(2) by simp
  moreover have "same_page 0x1000 0x1000" by (simp add: same_page_def)
  ultimately show ?thesis using a(1,2) m by (intro exI [of _ p] exI [of _ s1] exI [of _ ret] exI [of _ s2])
    (simp add: alloc_pagetable_def)
qed

lemma bit_leaf_low:
  assumes "n < 10"
  shows "bit (leaf_pte pa perm) n \<longleftrightarrow> bit perm n \<or> n = 0 \<or> n = 6 \<or> n = 7"
proof -
  have "n = 0 \<or> n = 1 \<or> n = 2 \<or> n = 3 \<or> n = 4 \<or> n = 5 \<or> n = 6 \<or> n = 7 \<or> n = 8 \<or> n = 9"
    using assms by presburger
  then show ?thesis using PA2PTE_low [OF assms, of pa]
    by (elim disjE) (simp_all add: leaf_pte_def bit_or_iff bit_word_of_int_iff PTE_V_def PTE_A_def PTE_D_def)
qed

text \<open>The entry written by \<open>map_page\<close> for a page-aligned physical address and permission bits
  below bit 10 gives the address back, is valid, accessed and dirty, and has exactly the
  permissions asked for besides.\<close>

theorem leaf_pte_roundtrip:
  assumes "4096 dvd unat pa" and "0 \<le> perm" and "perm < 1024"
  shows "PTE2PA (leaf_pte pa perm) = pa \<and>
    (\<forall>n < 10. bit (leaf_pte pa perm) n \<longleftrightarrow> bit perm n \<or> n \<in> {0, 6, 7})"
proof -
  have "drop_bit 10 (word_of_int perm :: ulong) = 0"
  proof -
    have "unat (word_of_int perm :: ulong) < 1024" using assms(2,3) by (simp add: unat_eq_nat_uint uint_word_of_int)
    then show ?thesis by (simp add: drop_bit_eq_div word_unat_eq_iff unat_div)
  qed
  then have "drop_bit 10 (word_of_int perm OR PTE_V OR PTE_A OR PTE_D) = 0"
    by (simp add: drop_bit_or PTE_V_def PTE_A_def PTE_D_def)
  then have "PTE2PA (PA2PTE pa OR (word_of_int perm OR PTE_V OR PTE_A OR PTE_D)) = pa"
    by (rule PTE2PA_PA2PTE [OF assms(1)])
  then have "PTE2PA (leaf_pte pa perm) = pa" by (simp add: leaf_pte_def or.assoc)
  then show ?thesis by (simp add: bit_leaf_low)
qed

theorem leaf_pte_roundtrip_witness:
  "PTE2PA (leaf_pte 0x80200000 0xE) = 0x80200000 \<and> bit (leaf_pte 0x80200000 0xE) 3"
  using leaf_pte_roundtrip [of "0x80200000" "0xE"] by (auto simp: bit_numeral_rec dest!: spec [of _ "3 :: nat"])

section \<open>unmap_page and free_pagetable\<close>

text \<open>Three tables outside the allocator's pages that map the page at 0 to the first managed page.\<close>

definition sample_mem :: "ulong \<Rightarrow> byte" where
  "sample_mem = mem_put64
     (mem_put64 (fill (mem_put64 (fill (\<lambda>_. 0) 0x80201000 0 4096) (pte_at 0x80200000 0) (PA2PTE 0x80201000 OR PTE_V))
        0x80202000 0 4096) (pte_at 0x80201000 0) (PA2PTE 0x80202000 OR PTE_V))
     (pte_at 0x80202000 0) (leaf_pte 0x87C00000 6)"

definition sample_tree :: "nat list \<rightharpoonup> ulong" where
  "sample_tree = [[] \<mapsto> 0x80200000, [0] \<mapsto> 0x80201000, [0, 0] \<mapsto> 0x80202000]"

lemma sample_tables:
  "pt_wf sample_mem {0x80202000, 0x80201000, 0x80200000} sample_tree"
  "leaf_of sample_mem sample_tree 0 = Some (leaf_pte 0x87C00000 6)" "sample_tree [] = Some 0x80200000"
proof -
  have v: "vpn_level 0 l = 0" for l by (simp add: vpn_level_def)
  have ok: "page_ok 0x80200000" "page_ok 0x80201000" "page_ok 0x80202000" by (simp_all add: page_ok_def)
  have "tab (\<lambda>_. 0) p i = 0" for p i by (simp add: tab_def mem_get64_zero)
  note w0 = empty_table_wf(1) [OF ok(1), of "\<lambda>_. 0", OF this]
  note w1 = pt_extend(1) [OF w0, of "[]" "0x80200000" 0 "0x80201000"]
  note w2 = pt_extend(1) [OF w1, of "[0]" "0x80201000" 0 "0x80202000"]
  have w: "pt_wf (mem_put64 (fill (mem_put64 (fill (\<lambda>_. 0) 0x80201000 0 4096) (pte_at 0x80200000 0)
        (PA2PTE 0x80201000 OR PTE_V)) 0x80202000 0 4096) (pte_at 0x80201000 0) (PA2PTE 0x80202000 OR PTE_V))
      {0x80202000, 0x80201000, 0x80200000} sample_tree"
    using w2 ok by (simp add: sample_tree_def)
  have q: "sample_tree (vpath 0 0) = Some 0x80202000" by (simp add: sample_tree_def vpath_simps v)
  show "pt_wf sample_mem {0x80202000, 0x80201000, 0x80200000} sample_tree"
    "leaf_of sample_mem sample_tree 0 = Some (leaf_pte 0x87C00000 6)"
    using pt_leaf_store(1,2) [OF w q, of "leaf_pte 0x87C00000 6"]
    by (simp_all add: sample_mem_def v same_page_def)
  show "sample_tree [] = Some 0x80200000" by (simp add: sample_tree_def)
qed

definition sample_paged :: "ulong \<Rightarrow> buddy" where
  "sample_paged off = (sample off)\<lparr>m_mem := sample_mem\<rparr>"

lemma sample_paged_facts:
  "m_mem (sample_paged off) = sample_mem" "va_offset (sample_paged off) = off"
  "num_pages (sample_paged off) = 1024" "buddy_inv {(0, 9)} (sample_paged off)"
  "lock_ready l (sample_paged off)" "page_pa (sample_paged off) 0 = 0x87C00000"
  "buddy_static (sample_paged off)"
  using sample_inv [of "()" off] sample_ready [of l "()" off] sample_static [of "()" off]
  by (simp_all add: sample_paged_def buddy_inv_def buddy_static_def lock_ready_def sample_fields page_pa_def
      , simp_all add: sample_with_def)

lemma sample_leaf:
  "pt_lookup sample_mem 0x80200000 0 = Some (leaf_pte 0x87C00000 6)"
  "PTE2PA (leaf_pte 0x87C00000 6) = 0x87C00000"
  using pt_lookup_tree [OF sample_tables(1,3), of 0] sample_tables(2)
    PTE2PA_PA2PTE [of "0x87C00000" "6 OR PTE_V OR PTE_A OR PTE_D"]
  by (simp_all add: leaf_pte_def or.assoc drop_bit_or pte_flag_defs)

text \<open>C14. With the identity map (before the switch to high addresses) and a number of managed pages
  divisible by 1024, unmapping a page whose frame is a block handed out by the allocator returns 0,
  releases the block, removes the translation of that page and no other.\<close>

theorem unmap_page_correct:
  assumes "pt_wf (m_mem s) P N" and "N [] = Some root" and "va_offset s = 0"
    and "pt_lookup (m_mem s) root va = Some e" and "PTE2PA e = page_pa s i" and "(i, k) \<in> A"
    and "buddy_inv A s" and "lock_ready BuddyLock s" and "1024 dvd unat (num_pages s)"
  shows "\<exists>s'. unmap_page root va s = Inr (0, s') \<and> pt_wf (m_mem s') P N \<and> buddy_inv (A - {(i, k)}) s' \<and>
     (\<forall>vb. pt_lookup (m_mem s') root vb = (if same_page va vb then None else pt_lookup (m_mem s) root vb))"
proof -
  note l = pt_lookup_tree [OF assms(1,2)]
  obtain s' where s': "unmap_page root va s = Inr (0, s')" "pt_wf (m_mem s') P N" "buddy_inv (A - {(i, k)}) s'"
      "\<forall>vb. leaf_of (m_mem s') N vb = (if same_page va vb then None else leaf_of (m_mem s) N vb)"
    using unmap_page_low [OF assms(1-3) _ assms(5-9)] assms(4) unfolding l by blast
  then show ?thesis unfolding l using pt_lookup_tree [OF s'(2) assms(2)] by auto
qed

theorem unmap_page_correct_witness:
  "\<exists>s'. unmap_page 0x80200000 0 (sample_paged 0) = Inr (0, s') \<and> buddy_inv {} s' \<and>
     pt_lookup (m_mem s') 0x80200000 0 = None"
proof -
  have "\<exists>s'. unmap_page 0x80200000 0 (sample_paged 0) = Inr (0, s') \<and>
      pt_wf (m_mem s') {0x80202000, 0x80201000, 0x80200000} sample_tree \<and> buddy_inv ({(0, 9)} - {(0, 9)}) s' \<and>
     (\<forall>vb. pt_lookup (m_mem s') 0x80200000 vb =
        (if same_page 0 vb then None else pt_lookup (m_mem (sample_paged 0)) 0x80200000 vb))"
    by (rule unmap_page_correct [of _ _ _ _ _ "leaf_pte 0x87C00000 6"])
      (simp_all add: sample_paged_facts sample_tables sample_leaf)
  moreover have "same_page 0 0" by (simp add: same_page_def)
  ultimately show ?thesis by auto
qed

text \<open>At high addresses unmapping a page whose frame is managed by the allocator faults: the
  release reads the page structures at their physical address.\<close>

theorem unmap_page_faults_at_high_addresses:
  assumes "pt_wf (m_mem s) P N" and "N [] = Some root" and "va_offset s = VA_OFFSET"
    and "pt_lookup (m_mem s) root va = Some e" and "PTE2PA e = page_pa s i" and "i < unat (num_pages s)"
    and "buddy_inv A s" and "lock_ready BuddyLock s"
  shows "unmap_page root va s = Inl (Fault (slot_ptr (page_array s) i))"
  using unmap_page_high [OF assms(1-3) _ assms(5-8)] assms(4) unfolding pt_lookup_tree [OF assms(1,2)] .

theorem unmap_page_faults_witness:
  "unmap_page 0x80200000 0 (sample_paged VA_OFFSET) =
     Inl (Fault (slot_ptr (page_array (sample_paged VA_OFFSET)) 0))"
  by (rule unmap_page_faults_at_high_addresses [of _ "{0x80202000, 0x80201000, 0x80200000}" sample_tree
        _ _ "leaf_pte 0x87C00000 6" _ "{(0, 9)}"])
    (simp_all add: sample_paged_facts sample_tables sample_leaf)

text \<open>At high addresses releasing a page table halts the machine: \<open>free_page\<close> is given the
  virtual address of a table.\<close>

theorem free_pagetable_halts_at_high_addresses:
  assumes "pt_wf (m_mem s) P N" and "N [] = Some root" and "buddy_static s" and "lock_ready BuddyLock s"
    and "va_offset s = VA_OFFSET"
    and "\<And>\<pi> q j. N \<pi> = Some q \<Longrightarrow> length \<pi> = 2 \<Longrightarrow> j < 512 \<Longrightarrow> tab (m_mem s) q j AND PTE_V \<noteq> 0 \<Longrightarrow>
      tab (m_mem s) q j AND (PTE_R OR PTE_W OR PTE_X) \<noteq> 0"
  shows "free_pagetable root s = Inl (Halt H_get_page_struct)"
proof -
  have "free_table (Suc 0x8001) root s = Inl (Halt H_get_page_struct)"
    by (rule free_table_halts [OF assms(1,3-6), where \<pi> = "[]"]) (use assms(2) in simp_all)
  then show ?thesis by (simp add: free_pagetable_def)
qed

theorem free_pagetable_halts_witness:
  "free_pagetable 0x80200000 (sample VA_OFFSET) = Inl (Halt H_get_page_struct)"
proof -
  have ok: "page_ok 0x80200000" by (simp add: page_ok_def)
  have z: "tab (m_mem (sample VA_OFFSET)) 0x80200000 i = 0" for i
    by (simp add: tab_def sample_with_def mem_get64_zero)
  show ?thesis
    by (rule free_pagetable_halts_at_high_addresses [OF empty_table_wf(1) [OF ok z]])
      (simp_all add: sample_static sample_ready sample_fields split: if_splits)
qed

end
