(* ===== verification/Sched_Inv.thy ===== *)
theory Sched_Inv
  imports Sched
begin

text \<open>
  The queues of a hart as sequences of processes, and the behaviour of \<open>schedule\<close>,
  \<open>timer_handle\<close> and \<open>sys_sleep_ms\<close> on them. The list operations are used through the laws of
  the interface \<open>node_queue\<close>.
\<close>

section \<open>Queues of processes\<close>

definition in_state :: "'z kernel_scheme \<Rightarrow> proc_state \<Rightarrow> ulong \<Rightarrow> bool" where
  "in_state s st p \<longleftrightarrow> (\<exists>v. procs s p = Some v \<and> is_idle v = 0 \<and> p_state v = st)"

definition run_nodes :: "'z kernel_scheme \<Rightarrow> ulong list \<Rightarrow> ulong set" where
  "run_nodes s run = set (run_queue (tp s) # map q_node run)"

definition sleep_nodes :: "'z kernel_scheme \<Rightarrow> ulong list \<Rightarrow> ulong set" where
  "sleep_nodes s slp = set (sleep_queue (tp s) # map q_node slp)"

definition queues :: "'z kernel_scheme \<Rightarrow> ulong list \<Rightarrow> ulong list \<Rightarrow> bool" where
  "queues s run slp \<longleftrightarrow>
     dll (nodes s) (run_queue (tp s)) (map q_node run) \<and>
     dll (nodes s) (sleep_queue (tp s)) (map q_node slp) \<and>
     run_nodes s run \<inter> sleep_nodes s slp = {} \<and>
     (\<forall>p \<in> set run. in_state s RUNNABLE p) \<and> (\<forall>p \<in> set slp. in_state s SLEEPING p)"

text \<open>A process whose node is in neither queue.\<close>

definition off_queues :: "'z kernel_scheme \<Rightarrow> ulong list \<Rightarrow> ulong list \<Rightarrow> ulong \<Rightarrow> bool" where
  "off_queues s run slp p \<longleftrightarrow>
     q_node p \<in> dom (nodes s) \<and> q_node p \<notin> run_nodes s run \<and> q_node p \<notin> sleep_nodes s slp"

lemma q_node_inj [simp]: "q_node p = q_node r \<longleftrightarrow> p = r"
  by (simp add: q_node_def)

lemmas node_sets = run_nodes_def sleep_nodes_def

lemma queuesD:
  assumes "queues s run slp"
  shows "dll (nodes s) (run_queue (tp s)) (map q_node run)"
    "dll (nodes s) (sleep_queue (tp s)) (map q_node slp)"
    "run_nodes s run \<inter> sleep_nodes s slp = {}"
    "\<And>p. p \<in> set run \<Longrightarrow> in_state s RUNNABLE p" "\<And>p. p \<in> set slp \<Longrightarrow> in_state s SLEEPING p"
    "distinct run" "distinct slp" "set run \<inter> set slp = {}"
proof -
  show a: "dll (nodes s) (run_queue (tp s)) (map q_node run)"
    "dll (nodes s) (sleep_queue (tp s)) (map q_node slp)"
    "run_nodes s run \<inter> sleep_nodes s slp = {}"
    "\<And>p. p \<in> set run \<Longrightarrow> in_state s RUNNABLE p" "\<And>p. p \<in> set slp \<Longrightarrow> in_state s SLEEPING p"
    using assms by (auto simp: queues_def)
  show "distinct run" "distinct slp"
    using kq.queue_distinct [OF a(1)] kq.queue_distinct [OF a(2)] by (auto simp: distinct_map)
  show "set run \<inter> set slp = {}" using a(3) by (auto simp: node_sets)
qed

lemma queues_cong:
  assumes "queues s run slp" and "nodes t = nodes s" "tp t = tp s"
    and "\<And>p. p \<in> set run \<union> set slp \<Longrightarrow> procs t p = procs s p"
  shows "queues t run slp"
  using assms unfolding queues_def in_state_def node_sets by auto

lemma off_queues_cong:
  "off_queues s run slp p \<Longrightarrow> nodes t = nodes s \<Longrightarrow> tp t = tp s \<Longrightarrow> off_queues t run slp p"
  by (simp add: off_queues_def node_sets)

text \<open>Processes in different states are different.\<close>

lemma in_state_unique: "in_state s st p \<Longrightarrow> in_state s st' p \<Longrightarrow> st = st'"
  by (auto simp: in_state_def)

section \<open>Moving a process between queues\<close>

text \<open>The state with a node heap and the fields of one process replaced.\<close>

abbreviation moved :: "node_heap \<Rightarrow> ulong \<Rightarrow> proc \<Rightarrow> 'z kernel_scheme \<Rightarrow> 'z kernel_scheme" where
  "moved h p v s \<equiv> s\<lparr>nodes := h, procs := (procs s)(p \<mapsto> v)\<rparr>"

lemma in_state_moved [simp]:
  "in_state (moved h p w s) st r \<longleftrightarrow> (if r = p then is_idle w = 0 \<and> p_state w = st else in_state s st r)"
  by (auto simp: in_state_def)

lemma node_sets_moved [simp]:
  "run_nodes (moved h p w s) run = run_nodes s run" "sleep_nodes (moved h p w s) slp = sleep_nodes s slp"
  by (simp_all add: node_sets)

lemma nodes_moved: "nodes (moved h p w s) = h"
  by simp

lemma remove1_q_nodes: "remove1 (q_node p) (map q_node xs) = map q_node (remove1 p xs)"
  by (induction xs) auto

lemma run_pop:
  assumes Q: "queues s (n # run) slp" and v: "procs s n = Some v"
  shows "\<exists>h. list_del (q_node n) (nodes s) = Inr h \<and> dom h = dom (nodes s) \<and>
     (\<forall>w. queues (moved h n w s) run slp \<and> off_queues (moved h n w s) run slp n)"
proof -
  note q = queuesD [OF Q]
  have x: "q_node n \<in> set (map q_node (n # run))" by simp
  obtain h where h: "list_del (q_node n) (nodes s) = Inr h"
      "dll h (run_queue (tp s)) (remove1 (q_node n) (map q_node (n # run)))"
    using kq.remove_ok [OF q(1) x] by blast
  have sl: "dll h (sleep_queue (tp s)) (map q_node slp)"
    by (rule kq.remove_other [OF q(1) x h(1) q(2)]) (use q(3) in \<open>simp add: node_sets\<close>)
  have dom: "dom h = dom (nodes s)" by (rule list_del_dom [OF h(1)])
  have nn: "n \<notin> set run" "n \<notin> set slp" using q(6,8) by auto
  have rq: "run_queue (tp s) \<notin> set (map q_node (n # run))" "distinct (map q_node (n # run))"
    using kq.queue_distinct [OF q(1)] by auto
  have "queues (moved h n w s) run slp" for w
    unfolding queues_def using h(2) sl q(3,4,5) nn by (auto simp: node_sets)
  moreover have "off_queues (moved h n w s) run slp n" for w
    using kq.queue_node [OF q(1), of "q_node n"] dom q(3) rq nn
    by (auto simp: off_queues_def node_sets)
  ultimately show ?thesis using h(1) dom by blast
qed

lemma run_push:
  assumes Q: "queues s run slp" and off: "off_queues s run slp p"
    and w: "is_idle w = 0" "p_state w = RUNNABLE"
  shows "\<exists>h. list_add_tail (q_node p) (run_queue (tp s)) (nodes s) = Inr h \<and> dom h = dom (nodes s) \<and>
     queues (moved h p w s) (run @ [p]) slp"
proof -
  note q = queuesD [OF Q]
  have p: "q_node p \<in> dom (nodes s)" "q_node p \<notin> set (run_queue (tp s) # map q_node run)"
    "q_node p \<notin> set (sleep_queue (tp s) # map q_node slp)"
    using off by (simp_all add: off_queues_def node_sets)
  obtain h where h: "list_add_tail (q_node p) (run_queue (tp s)) (nodes s) = Inr h"
      "dll h (run_queue (tp s)) (map q_node run @ [q_node p])"
    using kq.enqueue_ok [OF q(1) p(1,2)] by blast
  have sl: "dll h (sleep_queue (tp s)) (map q_node slp)"
    by (rule kq.enqueue_other [OF q(1) p(1,2) h(1) q(2)]) (use q(3) p(3) in \<open>auto simp: node_sets\<close>)
  have dom: "dom h = dom (nodes s)" by (rule list_add_tail_dom [OF h(1)])
  have np: "p \<notin> set run" "p \<notin> set slp" using p(2,3) by auto
  have "queues (moved h p w s) (run @ [p]) slp"
    unfolding queues_def using h(2) sl q(3,4,5) np p(3) w by (auto simp: node_sets)
  then show ?thesis using h(1) dom by blast
qed

lemma sleep_push:
  assumes Q: "queues s run slp" and off: "off_queues s run slp p"
    and w: "is_idle w = 0" "p_state w = SLEEPING"
  shows "\<exists>h. list_add_tail (q_node p) (sleep_queue (tp s)) (nodes s) = Inr h \<and> dom h = dom (nodes s) \<and>
     queues (moved h p w s) run (slp @ [p])"
proof -
  note q = queuesD [OF Q]
  have p: "q_node p \<in> dom (nodes s)" "q_node p \<notin> set (sleep_queue (tp s) # map q_node slp)"
    "q_node p \<notin> set (run_queue (tp s) # map q_node run)"
    using off by (simp_all add: off_queues_def node_sets)
  obtain h where h: "list_add_tail (q_node p) (sleep_queue (tp s)) (nodes s) = Inr h"
      "dll h (sleep_queue (tp s)) (map q_node slp @ [q_node p])"
    using kq.enqueue_ok [OF q(2) p(1,2)] by blast
  have rn: "dll h (run_queue (tp s)) (map q_node run)"
    by (rule kq.enqueue_other [OF q(2) p(1,2) h(1) q(1)]) (use q(3) p(3) in \<open>auto simp: node_sets\<close>)
  have dom: "dom h = dom (nodes s)" by (rule list_add_tail_dom [OF h(1)])
  have np: "p \<notin> set run" "p \<notin> set slp" using p(2,3) by auto
  have "queues (moved h p w s) run (slp @ [p])"
    unfolding queues_def using h(2) rn q(3,4,5) np p(3) w by (auto simp: node_sets)
  then show ?thesis using h(1) dom by blast
qed

lemma sleep_remove:
  assumes Q: "queues s run slp" and x: "p \<in> set slp" and v: "procs s p = Some v"
  shows "\<exists>h. list_del (q_node p) (nodes s) = Inr h \<and> dom h = dom (nodes s) \<and>
     (\<forall>w. queues (moved h p w s) run (remove1 p slp) \<and> off_queues (moved h p w s) run (remove1 p slp) p)"
proof -
  note q = queuesD [OF Q]
  have x': "q_node p \<in> set (map q_node slp)" using x by simp
  obtain h where h: "list_del (q_node p) (nodes s) = Inr h"
      "dll h (sleep_queue (tp s)) (map q_node (remove1 p slp))"
    using kq.remove_ok [OF q(2) x'] by (auto simp: remove1_q_nodes)
  have rn: "dll h (run_queue (tp s)) (map q_node run)"
    by (rule kq.remove_other [OF q(2) x' h(1) q(1)]) (use q(3) in \<open>auto simp: node_sets\<close>)
  have dom: "dom h = dom (nodes s)" by (rule list_del_dom [OF h(1)])
  have np: "p \<notin> set run" "p \<notin> set (remove1 p slp)" using q(7,8) x by auto
  have sub: "set (remove1 p slp) \<subseteq> set slp" by (rule set_remove1_subset)
  have "queues (moved h p w s) run (remove1 p slp)" for w
    unfolding queues_def using h(2) rn q(3,4,5,8) np sub by (auto simp: node_sets)
  moreover have "off_queues (moved h p w s) run (remove1 p slp) p" for w
    using kq.queue_node [OF q(2), of "q_node p"] dom q(3) x' np kq.queue_distinct [OF q(2)]
    by (auto simp: off_queues_def node_sets)
  ultimately show ?thesis using h(1) dom by blast
qed

section \<open>schedule\<close>

lemma upd_proc_Some: "procs s p = Some v \<Longrightarrow> upd_proc p f s = Inr (s\<lparr>procs := (procs s)(p \<mapsto> f v)\<rparr>)"
  by (simp add: upd_proc_def get_proc_def)

lemma get_proc_Some: "procs s p = Some v \<Longrightarrow> get_proc s p = Inr v"
  by (simp add: get_proc_def)

lemmas heap_access = upd_proc_Some get_proc_Some with_nodes_def

text \<open>The switch to the first process of the run queue.\<close>

definition switched ::
    "symbols \<Rightarrow> ulong \<Rightarrow> proc \<Rightarrow> ulong \<Rightarrow> proc \<Rightarrow> node_heap \<Rightarrow> 'z kernel_scheme \<Rightarrow> 'z kernel_scheme" where
  "switched L n v old ov h s =
     s\<lparr>nodes := h, procs := (procs s)(n \<mapsto> v\<lparr>p_state := RUNNING\<rparr>,
         old \<mapsto> ov\<lparr>p_state := (if is_idle ov = 0 then RUNNABLE else p_state ov), ctx := hart_ctx s\<rparr>),
       cpu_proc := n, stvec := sym_trap_vector L, satp := MAKE_SATP (p_pagetable v), sscratch := p_tf v,
       hart_ctx := ctx v\<rparr>"

lemma schedule_next:
  assumes Q: "queues s (n # run) slp" and v: "procs s n = Some v"
    and ov: "procs s (cpu_proc s) = Some ov" and ne: "cpu_proc s \<noteq> n"
    and off: "is_idle ov = 0 \<Longrightarrow> off_queues s (n # run) slp (cpu_proc s)"
  shows "\<exists>h. schedule L s = Inr (switched L n v (cpu_proc s) ov h s) \<and> dom h = dom (nodes s) \<and>
     (is_idle ov = 0 \<longrightarrow> kq.turn (run_queue (tp s)) (q_node (cpu_proc s)) (nodes s) = Inr (q_node n, h)) \<and>
     queues (switched L n v (cpu_proc s) ov h s) (run @ (if is_idle ov = 0 then [cpu_proc s] else [])) slp \<and>
     off_queues (switched L n v (cpu_proc s) ov h s) (run @ (if is_idle ov = 0 then [cpu_proc s] else [])) slp n"
proof -
  let ?old = "cpu_proc s" and ?v = "v\<lparr>p_state := RUNNING\<rparr>"
  note q = queuesD [OF Q]
  have first: "get_next (nodes s) (run_queue (tp s)) = Inr (q_node n)" "q_node n \<noteq> run_queue (tp s)"
    using kq.front_cons [of "nodes s" "run_queue (tp s)" "q_node n"] kq.queue_distinct [OF q(1)] q(1) by auto
  obtain h where h: "list_del (q_node n) (nodes s) = Inr h" "dom h = dom (nodes s)"
      "queues (moved h n ?v s) run slp" "off_queues (moved h n ?v s) run slp n"
    using run_pop [OF Q v] by blast
  let ?s1 = "moved h n ?v s"
  have start: "schedule L s = rbind (if is_idle ov = 0
        then rbind (upd_proc ?old (\<lambda>v. v\<lparr>p_state := RUNNABLE\<rparr>) ?s1)
               (with_nodes (list_add_tail (q_node ?old) (run_queue (tp s)))) else Inr ?s1) (\<lambda>s.
       let s = s\<lparr>cpu_proc := n, stvec := sym_trap_vector L\<rparr>
       in rbind (get_proc s n) (\<lambda>w. swtch ?old n ((load_pagetable (p_pagetable w) s)\<lparr>sscratch := p_tf w\<rparr>)))"
    using first h(1) v ov ne by (simp add: schedule_def heap_access Let_def)
  show ?thesis
  proof (cases "is_idle ov = 0")
    case False
    have "schedule L s = Inr (switched L n v ?old ov h s)"
      using start False ov ne by (simp add: heap_access swtch_def load_pagetable_def switched_def fun_upd_twist)
    moreover have "queues (switched L n v ?old ov h s) run slp" "off_queues (switched L n v ?old ov h s) run slp n"
    proof -
      have "?old \<notin> set run \<union> set slp" using q(4) [of ?old] q(5) [of ?old] ov False by (auto simp: in_state_def)
      then show "queues (switched L n v ?old ov h s) run slp"
        by (intro queues_cong [OF h(3)]) (auto simp: switched_def)
      show "off_queues (switched L n v ?old ov h s) run slp n"
        by (rule off_queues_cong [OF h(4)]) (simp_all add: switched_def)
    qed
    ultimately show ?thesis using False h(2) by auto
  next
    case True
    let ?w = "ov\<lparr>p_state := RUNNABLE\<rparr>"
    have off1: "off_queues ?s1 run slp ?old"
      using off [OF True] h(2) by (auto simp: off_queues_def node_sets)
    obtain h' where h': "list_add_tail (q_node ?old) (run_queue (tp ?s1)) (nodes ?s1) = Inr h'"
        "dom h' = dom (nodes ?s1)" "queues (moved h' ?old ?w ?s1) (run @ [?old]) slp"
      using run_push [OF h(3) off1, of ?w] True by auto
    have "schedule L s = Inr (switched L n v ?old ov h' s)"
      using start True ov ne h'(1)
      by (simp add: heap_access swtch_def load_pagetable_def switched_def fun_upd_twist)
    moreover have "queues (switched L n v ?old ov h' s) (run @ [?old]) slp"
      using h'(3) True ne unfolding queues_def switched_def in_state_def node_sets by (auto split: if_splits)
    moreover have "off_queues (switched L n v ?old ov h' s) (run @ [?old]) slp n"
      using h(4) h'(2) ne by (auto simp: off_queues_def switched_def node_sets)
    moreover have "kq.turn (run_queue (tp s)) (q_node ?old) (nodes s) = Inr (q_node n, h')"
      using first h(1) h'(1) by (simp add: kq.turn_def)
    ultimately show ?thesis using True h(2) h'(2) by auto
  qed
qed

text \<open>With an empty run queue the hart goes to its idle process; the old process is in no queue
  unless it was put in one before.\<close>

definition to_idle :: "symbols \<Rightarrow> proc \<Rightarrow> ulong \<Rightarrow> proc \<Rightarrow> 'z kernel_scheme \<Rightarrow> 'z kernel_scheme" where
  "to_idle L iv old ov s =
     (let c = (ctx iv)\<lparr>ra := sym_idle_loop L, sp := kstack iv + KSTACK_SIZE\<rparr>
      in s\<lparr>procs := (procs s)(idle_proc L (cpu_id (m_hart s)) \<mapsto> iv\<lparr>ctx := c\<rparr>, old \<mapsto> ov\<lparr>ctx := hart_ctx s\<rparr>),
         cpu_proc := idle_proc L (cpu_id (m_hart s)), satp := MAKE_SATP (kernel_pagetable s), hart_ctx := c\<rparr>)"

lemma schedule_none:
  assumes Q: "queues s [] slp" and ov: "procs s (cpu_proc s) = Some ov" "is_idle ov = 0"
    and iv: "procs s (idle_proc L (cpu_id (m_hart s))) = Some iv" "is_idle iv \<noteq> 0"
  shows "schedule L s = Inr (to_idle L iv (cpu_proc s) ov s)" "queues (to_idle L iv (cpu_proc s) ov s) [] slp"
proof -
  have first: "get_next (nodes s) (run_queue (tp s)) = Inr (run_queue (tp s))"
    using kq.front_empty [of "nodes s" "run_queue (tp s)"] queuesD(1) [OF Q] by simp
  have ne: "cpu_proc s \<noteq> idle_proc L (cpu_id (m_hart s))" using ov iv by auto
  show "schedule L s = Inr (to_idle L iv (cpu_proc s) ov s)"
    using first ov iv ne
    by (simp add: schedule_def heap_access Let_def swtch_def load_pagetable_def to_idle_def fun_upd_twist)
  show "queues (to_idle L iv (cpu_proc s) ov s) [] slp"
    using Q ov iv ne unfolding queues_def in_state_def node_sets to_idle_def Let_def by auto
qed

lemma schedule_idle_stays:
  assumes Q: "queues s [] slp" and ov: "procs s (cpu_proc s) = Some ov" "is_idle ov \<noteq> 0"
  shows "schedule L s = Inr s"
  using kq.front_empty [of "nodes s" "run_queue (tp s)"] queuesD(1) [OF Q] ov
  by (simp add: schedule_def get_proc_Some Let_def)

section \<open>sys_sleep_ms\<close>

lemma sys_sleep_ms_ok:
  assumes Q: "queues s run slp" and off: "off_queues s run slp p" and v: "procs s p = Some v" "is_idle v = 0"
    and ms: "ms \<noteq> 0" "ms \<le> MAX_SLEEP_MS"
  shows "\<exists>h. sys_sleep_ms (tp s) p ms s = Inr (0, (moved h p (v\<lparr>p_state := SLEEPING,
       sleep_until := time_at s (time_reads s) + MS_TO_TIME ms\<rparr>) s)\<lparr>time_reads := Suc (time_reads s)\<rparr>) \<and>
     dom h = dom (nodes s) \<and>
     queues ((moved h p (v\<lparr>p_state := SLEEPING,
       sleep_until := time_at s (time_reads s) + MS_TO_TIME ms\<rparr>) s)\<lparr>time_reads := Suc (time_reads s)\<rparr>) run (slp @ [p])"
proof -
  let ?w = "v\<lparr>p_state := SLEEPING, sleep_until := time_at s (time_reads s) + MS_TO_TIME ms\<rparr>"
  obtain h where h: "list_add_tail (q_node p) (sleep_queue (tp s)) (nodes s) = Inr h" "dom h = dom (nodes s)"
      "queues (moved h p ?w s) run (slp @ [p])"
    using sleep_push [OF Q off, of ?w] v by auto
  have "sys_sleep_ms (tp s) p ms s = Inr (0, (moved h p ?w s)\<lparr>time_reads := Suc (time_reads s)\<rparr>)"
    using ms h(1) v by (simp add: sys_sleep_ms_def heap_access read_time_def Let_def not_less)
  moreover have "queues ((moved h p ?w s)\<lparr>time_reads := Suc (time_reads s)\<rparr>) run (slp @ [p])"
    by (rule queues_cong [OF h(3)]) simp_all
  ultimately show ?thesis using h(2) by blast
qed

section \<open>timer_handle\<close>

lemma dll_next: "dll h q (ys @ x # zs) \<Longrightarrow> get_next h x = Inr (hd (zs @ [q]))"
  using seg_first [of h x zs q] by (auto simp: dll_def seg_append get_next_def split: option.splits)

lemma dll_first: "dll h q xs \<Longrightarrow> get_next h q = Inr (hd (xs @ [q]))"
  using seg_first [of h q xs q] by (auto simp: dll_def get_next_def split: option.splits)

definition due :: "'z kernel_scheme \<Rightarrow> ulong \<Rightarrow> ulong \<Rightarrow> bool" where
  "due s now p \<longleftrightarrow> (case procs s p of None \<Rightarrow> False | Some v \<Rightarrow> sleep_until v \<le> now)"

text \<open>The state after the processes of a list that are due have been made runnable.\<close>

definition woken :: "'z kernel_scheme \<Rightarrow> ulong \<Rightarrow> ulong list \<Rightarrow> ulong \<rightharpoonup> proc" where
  "woken s now ps = (\<lambda>p. if p \<in> set ps \<and> due s now p
     then map_option (\<lambda>v. v\<lparr>p_state := RUNNABLE\<rparr>) (procs s p) else procs s p)"

lemma wake_one_due:
  assumes Q: "queues s run (kept @ p # rest)" and v: "procs s p = Some v" "sleep_until v \<le> now"
  shows "\<exists>h. wake_one now (q_node p) need s = Inr (1, moved h p (v\<lparr>p_state := RUNNABLE\<rparr>) s) \<and>
     dom h = dom (nodes s) \<and> queues (moved h p (v\<lparr>p_state := RUNNABLE\<rparr>) s) (run @ [p]) (kept @ rest)"
proof -
  let ?w = "v\<lparr>p_state := RUNNABLE\<rparr>"
  note q = queuesD [OF Q]
  have rm: "remove1 p (kept @ p # rest) = kept @ rest" using q(7) by (auto simp: remove1_append)
  have idle: "is_idle v = 0" using q(5) [of p] v(1) by (simp add: in_state_def)
  obtain h where h: "list_del (q_node p) (nodes s) = Inr h" "dom h = dom (nodes s)"
      "queues (moved h p ?w s) run (kept @ rest)" "off_queues (moved h p ?w s) run (kept @ rest) p"
    using sleep_remove [OF Q _ v(1)] rm by auto
  obtain h' where h': "list_add_tail (q_node p) (run_queue (tp s)) h = Inr h'" "dom h' = dom h"
      "queues (moved h' p ?w (moved h p ?w s)) (run @ [p]) (kept @ rest)"
    using run_push [OF h(3,4), of ?w] idle by auto
  have "wake_one now (q_node p) need s = Inr (1, moved h' p ?w s)"
    using v h(1) h'(1) by (simp add: wake_one_def heap_access Let_def)
  then show ?thesis using h(2) h'(2,3) by auto
qed

lemma wake_loop_end: "wake_loop now q q tmp need s = Some (Inr (need, s))"
  by (subst wake_loop.simps) simp

lemma wake_loop_ok:
  assumes "queues s run (kept @ rest)" and "\<And>p. p \<in> set rest \<Longrightarrow> procs s p \<noteq> None"
    and "pos = hd (map q_node rest @ [sleep_queue (tp s)])"
    and "rest \<noteq> [] \<Longrightarrow> tmp = hd (tl (map q_node rest @ [sleep_queue (tp s)]))"
  shows "\<exists>h. wake_loop now (sleep_queue (tp s)) pos tmp need s =
      Some (Inr (if \<exists>p \<in> set rest. due s now p then 1 else need, s\<lparr>nodes := h, procs := woken s now rest\<rparr>)) \<and>
      dom h = dom (nodes s) \<and>
      queues (s\<lparr>nodes := h, procs := woken s now rest\<rparr>) (run @ filter (due s now) rest)
        (kept @ filter (\<lambda>p. \<not> due s now p) rest)"
  using assms
proof (induction rest arbitrary: s run kept pos tmp need)
  case Nil
  have "woken s now [] = procs s" by (simp add: woken_def)
  then show ?case using Nil(1,3) by (intro exI [of _ "nodes s"]) (simp add: wake_loop_end)
next
  case (Cons p rest)
  note Q = Cons.prems(1)
  note q = queuesD [OF Q]
  obtain v where v: "procs s p = Some v" using Cons.prems(2) by auto
  have pos: "pos = q_node p" "pos \<noteq> sleep_queue (tp s)" "tmp = hd (map q_node rest @ [sleep_queue (tp s)])"
    using Cons.prems(3,4) kq.queue_distinct [OF q(2)] by auto
  have np: "p \<notin> set rest" "p \<notin> set kept" using q(7) by auto
  have next_tmp: "\<exists>n. get_next h tmp = Inr n \<and>
      (rest \<noteq> [] \<longrightarrow> n = hd (tl (map q_node rest @ [sleep_queue (tp s)])))"
    if "dll h (sleep_queue (tp s)) (map q_node (ks @ rest))" for h ks
  proof (cases rest)
    case Nil
    then show ?thesis using dll_first [OF that] pos(3) by simp
  next
    case (Cons r rest')
    then show ?thesis using dll_next [of h "sleep_queue (tp s)" "map q_node ks" "q_node r" "map q_node rest'"] that pos(3)
      by simp
  qed
  show ?case
  proof (cases "sleep_until v \<le> now")
    case True
    let ?w = "v\<lparr>p_state := RUNNABLE\<rparr>"
    obtain h where h: "wake_one now pos need s = Inr (1, moved h p ?w s)" "dom h = dom (nodes s)"
        "queues (moved h p ?w s) (run @ [p]) (kept @ rest)"
      using wake_one_due [OF Q v True] pos(1) by blast
    let ?s = "moved h p ?w s"
    obtain n where n: "get_next h tmp = Inr n" "rest \<noteq> [] \<longrightarrow> n = hd (tl (map q_node rest @ [sleep_queue (tp s)]))"
      using next_tmp [of h kept] queuesD(2) [OF h(3)] by auto
    have d: "due ?s now = due s now" using v by (auto simp: due_def fun_eq_iff)
    have dp: "due s now p" using v True by (simp add: due_def)
    have w: "woken ?s now rest = woken s now (p # rest)"
      using np(1) v dp d by (auto simp: woken_def fun_eq_iff)
    have some: "procs ?s r \<noteq> None" if "r \<in> set rest" for r using Cons.prems(2) that by auto
    have t: "tmp = hd (map q_node rest @ [sleep_queue (tp ?s)])"
      "rest \<noteq> [] \<Longrightarrow> n = hd (tl (map q_node rest @ [sleep_queue (tp ?s)]))" using pos(3) n(2) by simp_all
    obtain h' where h': "wake_loop now (sleep_queue (tp ?s)) tmp n 1 ?s =
        Some (Inr (1, ?s\<lparr>nodes := h', procs := woken ?s now rest\<rparr>))" "dom h' = dom h"
        "queues (?s\<lparr>nodes := h', procs := woken ?s now rest\<rparr>) ((run @ [p]) @ filter (due ?s now) rest)
           (kept @ filter (\<lambda>p. \<not> due ?s now p) rest)"
      using Cons.IH [OF h(3) some t, of 1] unfolding if_cancel nodes_moved by blast
    have "wake_loop now (sleep_queue (tp s)) pos tmp need s =
        Some (Inr (1, s\<lparr>nodes := h', procs := woken s now (p # rest)\<rparr>))"
      using h(1) n(1) h'(1) pos(2) w by (subst wake_loop.simps) simp
    then show ?thesis using h'(2,3) h(2) dp d w by (intro exI [of _ h']) simp
  next
    case False
    have dp: "\<not> due s now p" using v False by (simp add: due_def)
    have one: "wake_one now pos need s = Inr (need, s)"
      using v False pos(1) by (simp add: wake_one_def get_proc_Some Let_def)
    obtain n where n: "get_next (nodes s) tmp = Inr n" "rest \<noteq> [] \<longrightarrow> n = hd (tl (map q_node rest @ [sleep_queue (tp s)]))"
      using next_tmp [of "nodes s" "kept @ [p]"] q(2) by auto
    have w: "woken s now rest = woken s now (p # rest)" using dp by (auto simp: woken_def fun_eq_iff)
    have Q': "queues s run ((kept @ [p]) @ rest)" using Q by simp
    have some: "procs s r \<noteq> None" if "r \<in> set rest" for r using Cons.prems(2) that by auto
    have t: "rest \<noteq> [] \<Longrightarrow> n = hd (tl (map q_node rest @ [sleep_queue (tp s)]))" using n(2) by simp
    obtain h' where h': "wake_loop now (sleep_queue (tp s)) tmp n need s =
        Some (Inr (if \<exists>p \<in> set rest. due s now p then 1 else need, s\<lparr>nodes := h', procs := woken s now rest\<rparr>))"
        "dom h' = dom (nodes s)" "queues (s\<lparr>nodes := h', procs := woken s now rest\<rparr>) (run @ filter (due s now) rest)
           ((kept @ [p]) @ filter (\<lambda>p. \<not> due s now p) rest)"
      using Cons.IH [OF Q' some pos(3) t, of need] by blast
    have "wake_loop now (sleep_queue (tp s)) pos tmp need s = wake_loop now (sleep_queue (tp s)) tmp n need s"
      using one n(1) pos(2) by (subst wake_loop.simps) simp
    then show ?thesis using h' dp w by (intro exI [of _ h']) simp
  qed
qed

lemma timer_handle_ok:
  assumes Q: "queues s run slp"
  defines "now \<equiv> time_at s (Suc (time_reads s))"
  shows "\<exists>h. timer_handle s = Inr (s\<lparr>time_reads := Suc (Suc (time_reads s)),
       stimecmp := time_at s (time_reads s) + TIMER_INTERVAL, nodes := h, procs := woken s now slp,
       needs_sched := (if \<exists>p \<in> set slp. due s now p then 1 else needs_sched s)\<rparr>) \<and>
     dom h = dom (nodes s) \<and>
     queues (s\<lparr>nodes := h, procs := woken s now slp\<rparr>) (run @ filter (due s now) slp) (filter (\<lambda>p. \<not> due s now p) slp)"
proof -
  let ?s = "s\<lparr>stimecmp := time_at s (time_reads s) + TIMER_INTERVAL, time_reads := Suc (Suc (time_reads s))\<rparr>"
  let ?q = "sleep_queue (tp s)"
  have Q': "queues ?s run ([] @ slp)" by (simp, rule queues_cong [OF Q]) simp_all
  note q = queuesD [OF Q]
  have some: "procs ?s p \<noteq> None" if "p \<in> set slp" for p using q(5) [OF that] by (auto simp: in_state_def)
  have pos: "get_next (nodes s) ?q = Inr (hd (map q_node slp @ [?q]))" by (rule dll_first [OF q(2)])
  obtain tmp where tmp: "get_next (nodes s) (hd (map q_node slp @ [?q])) = Inr tmp"
      "slp \<noteq> [] \<longrightarrow> tmp = hd (tl (map q_node slp @ [?q]))"
    using pos dll_next [of "nodes s" ?q "[]"] q(2) by (cases slp) auto
  have d: "due ?s = due s" "woken ?s = woken s" by (simp_all add: due_def woken_def fun_eq_iff)
  obtain h where h: "wake_loop now ?q (hd (map q_node slp @ [?q])) tmp 0 ?s =
      Some (Inr (if \<exists>p \<in> set slp. due s now p then 1 else 0, ?s\<lparr>nodes := h, procs := woken s now slp\<rparr>))"
      "dom h = dom (nodes s)"
      "queues (?s\<lparr>nodes := h, procs := woken s now slp\<rparr>) (run @ filter (due s now) slp)
        (filter (\<lambda>p. \<not> due s now p) slp)"
    using wake_loop_ok [OF Q' some, of "hd (map q_node slp @ [?q])" tmp now 0] tmp(2) unfolding d by auto
  have "timer_handle s = Inr (s\<lparr>time_reads := Suc (Suc (time_reads s)),
       stimecmp := time_at s (time_reads s) + TIMER_INTERVAL, nodes := h, procs := woken s now slp,
       needs_sched := (if \<exists>p \<in> set slp. due s now p then 1 else needs_sched s)\<rparr>)"
    using h(1) pos tmp(1) by (simp add: timer_handle_def read_time_def now_def Let_def)
  moreover have "queues (s\<lparr>nodes := h, procs := woken s now slp\<rparr>) (run @ filter (due s now) slp)
      (filter (\<lambda>p. \<not> due s now p) slp)"
    by (rule queues_cong [OF h(3)]) simp_all
  ultimately show ?thesis using h(2) by blast
qed

end
