(* ===== verification/Sched_Props.thy ===== *)
theory Sched_Props
  imports Sched_Inv Buddy_Props
begin

text \<open>
  The properties of scheduling: \<open>schedule\<close> refines a step on sequences of processes,
  every runnable process gets its turn, the timer wakes exactly the processes that are due, and
  the cases in which a process is lost or the queues are corrupted.
\<close>

section \<open>The abstract scheduler\<close>

text \<open>The current process and the run queue; \<open>idle\<close> stands in when the queue is empty.\<close>

fun sched_step :: "ulong \<Rightarrow> ulong \<times> ulong list \<Rightarrow> ulong \<times> ulong list" where
  "sched_step idle (cur, []) = (idle, [])"
| "sched_step idle (cur, n # run) = (n, run @ (if cur = idle then [] else [cur]))"

definition sched_abs :: "symbols \<Rightarrow> 'z kernel_scheme \<Rightarrow> ulong \<Rightarrow> ulong list \<Rightarrow> ulong list \<Rightarrow> bool" where
  "sched_abs L s cur run slp \<longleftrightarrow> queues s run slp \<and> cpu_proc s = cur \<and>
     (\<exists>iv. procs s (idle_proc L (cpu_id (m_hart s))) = Some iv \<and> is_idle iv \<noteq> 0) \<and>
     (cur \<noteq> idle_proc L (cpu_id (m_hart s)) \<longrightarrow> in_state s RUNNING cur \<and> off_queues s run slp cur)"

abbreviation my_idle :: "symbols \<Rightarrow> 'z kernel_scheme \<Rightarrow> ulong" where
  "my_idle L s \<equiv> idle_proc L (cpu_id (m_hart s))"

lemma sched_absD:
  assumes "sched_abs L s cur run slp"
  obtains iv ov where "queues s run slp" "cpu_proc s = cur" "procs s (my_idle L s) = Some iv" "is_idle iv \<noteq> 0"
    "procs s cur = Some ov" "is_idle ov = 0 \<longleftrightarrow> cur \<noteq> my_idle L s"
    "cur \<noteq> my_idle L s \<Longrightarrow> off_queues s run slp cur" "cur \<noteq> my_idle L s \<Longrightarrow> p_state ov = RUNNING"
    "my_idle L s \<notin> set run \<union> set slp"
proof -
  obtain iv where iv: "procs s (my_idle L s) = Some iv" "is_idle iv \<noteq> 0" and Q: "queues s run slp"
    using assms by (auto simp: sched_abs_def)
  have "my_idle L s \<notin> set run \<union> set slp"
    using queuesD(4) [OF Q, of "my_idle L s"] queuesD(5) [OF Q, of "my_idle L s"] iv by (auto simp: in_state_def)
  then show thesis
    using that [of iv] assms iv unfolding sched_abs_def in_state_def by (cases "cur = my_idle L s") auto
qed

lemma schedule_first:
  assumes "sched_abs L s cur (n # run) slp"
  shows "\<exists>v ov h. schedule L s = Inr (switched L n v cur ov h s) \<and> procs s n = Some v \<and> procs s cur = Some ov \<and>
     cur \<noteq> n \<and> (cur \<noteq> my_idle L s \<longrightarrow> kq.turn (run_queue (tp s)) (q_node cur) (nodes s) = Inr (q_node n, h)) \<and>
     sched_abs L (switched L n v cur ov h s) n (run @ (if cur = my_idle L s then [] else [cur])) slp"
proof -
  obtain iv ov where a: "queues s (n # run) slp" "cpu_proc s = cur" "procs s (my_idle L s) = Some iv" "is_idle iv \<noteq> 0"
    "procs s cur = Some ov" "is_idle ov = 0 \<longleftrightarrow> cur \<noteq> my_idle L s"
    "cur \<noteq> my_idle L s \<Longrightarrow> off_queues s (n # run) slp cur" "my_idle L s \<notin> set (n # run) \<union> set slp"
    using sched_absD [OF assms] by metis
  obtain v where v: "procs s n = Some v" "is_idle v = 0"
    using queuesD(4) [OF a(1), of n] by (auto simp: in_state_def)
  have ne: "cur \<noteq> n" using a(7,8) by (cases "cur = my_idle L s") (auto simp: off_queues_def node_sets)
  obtain h where h: "schedule L s = Inr (switched L n v cur ov h s)"
      "is_idle ov = 0 \<longrightarrow> kq.turn (run_queue (tp s)) (q_node cur) (nodes s) = Inr (q_node n, h)"
      "queues (switched L n v cur ov h s) (run @ (if is_idle ov = 0 then [cur] else [])) slp"
      "off_queues (switched L n v cur ov h s) (run @ (if is_idle ov = 0 then [cur] else [])) slp n"
    using schedule_next [OF a(1) v(1), of ov L] a(2,5,6,7) ne by auto
  have "in_state (switched L n v cur ov h s) RUNNING n" using v ne by (simp add: in_state_def switched_def)
  moreover have "\<exists>iv. procs (switched L n v cur ov h s) (my_idle L s) = Some iv \<and> is_idle iv \<noteq> 0"
    using a(3-6,8) by (auto simp: switched_def)
  moreover have "cpu_proc (switched L n v cur ov h s) = n" "m_hart (switched L n v cur ov h s) = m_hart s"
    by (simp_all add: switched_def)
  ultimately have "sched_abs L (switched L n v cur ov h s) n (run @ (if cur = my_idle L s then [] else [cur])) slp"
    using h(3,4) a(6) by (auto simp: sched_abs_def)
  then show ?thesis using h(1,2) v(1) a(5,6) ne by blast
qed


section \<open>Concrete queues\<close>

text \<open>A hart with an idle process at \<open>0x5000\<close> and two processes at \<open>0x2000\<close> and \<open>0x3000\<close>; its
  queue heads are at \<open>0x1020\<close> and \<open>0x1030\<close>.\<close>

definition sample_symbols :: symbols where
  "sample_symbols = \<lparr>sym_cpus = 0x1000, sym_idle_procs = 0x5000, sym_kernel_end = 0xffffffff80010000,
     sym_stack = 0x6000, sym_idle_loop = 0x7000, sym_trap_vector = 0x7100, sym_idle_trap_vector = 0x7200,
     sym_text_start = 0x80000000, sym_text_end = 0x80002000, sym_rodata_start = 0x80002000,
     sym_rodata_end = 0x80003000, sym_data_start = 0x80003000, sym_shell_start = 0xffffffff80004000,
     sym_shell_end = 0xffffffff80004100, sym_s_mode_main = 0x7300\<rparr>"

definition sample_procs :: "ulong \<rightharpoonup> proc" where
  "sample_procs = [0x2000 \<mapsto> proc_zero\<lparr>pid := 1, p_state := RUNNING\<rparr>,
     0x3000 \<mapsto> proc_zero\<lparr>pid := 2, p_state := RUNNABLE\<rparr>,
     0x5000 \<mapsto> proc_zero\<lparr>is_idle := 1, p_state := RUNNING\<rparr>]"

definition sample_nodes :: "ulong list \<Rightarrow> node_heap" where
  "sample_nodes run = (if run = []
     then [0x1020 \<mapsto> \<lparr>ln_prev = 0x1020, ln_next = 0x1020\<rparr>, 0x1030 \<mapsto> \<lparr>ln_prev = 0x1030, ln_next = 0x1030\<rparr>,
       0x2090 \<mapsto> \<lparr>ln_prev = 0, ln_next = 0\<rparr>, 0x3090 \<mapsto> \<lparr>ln_prev = 0, ln_next = 0\<rparr>]
     else [0x1020 \<mapsto> \<lparr>ln_prev = 0x3090, ln_next = 0x3090\<rparr>, 0x1030 \<mapsto> \<lparr>ln_prev = 0x1030, ln_next = 0x1030\<rparr>,
       0x2090 \<mapsto> \<lparr>ln_prev = 0, ln_next = 0\<rparr>, 0x3090 \<mapsto> \<lparr>ln_prev = 0x1020, ln_next = 0x1020\<rparr>])"

definition sample_kernel :: "ulong list \<Rightarrow> kernel" where
  "sample_kernel run = sample_with \<lparr>satp = 0, caches = [], nodes = sample_nodes run, procs = sample_procs,
     frames = Map.empty, next_pid = 2, tp = 0x1000, needs_sched = 0, cpu_proc = 0x2000,
     hart_ctx = context_zero\<lparr>ra := 0x1234\<rparr>, stvec = 0, sscratch = 0, stimecmp = 0, csr_scause = 0,
     time_at = (\<lambda>n. of_nat n * 1000000000), time_reads = 0\<rparr> VA_OFFSET"

lemma sample_queues:
  "queues (sample_kernel [0x3000]) [0x3000] []" "queues (sample_kernel []) [] []"
  by (simp_all add: queues_def in_state_def node_sets run_queue_def sleep_queue_def q_node_def dll_def
      sample_kernel_def sample_nodes_def sample_procs_def sample_with_def proc_zero_def)

lemma sample_idle: "my_idle sample_symbols (sample_kernel run) = 0x5000"
  by (simp add: idle_proc_def sample_symbols_def sample_kernel_def sample_with_def sample_hart_def)

lemma sample_kernel_fields:
  "cpu_proc (sample_kernel run) = 0x2000" "tp (sample_kernel run) = 0x1000"
  "time_at (sample_kernel run) n = of_nat n * 1000000000" "time_reads (sample_kernel run) = 0"
  "hart_ctx (sample_kernel run) = context_zero\<lparr>ra := 0x1234\<rparr>" "procs (sample_kernel run) = sample_procs"
  by (simp_all add: sample_kernel_def sample_with_def)

lemma sample_off:
  "off_queues (sample_kernel [0x3000]) [0x3000] [] 0x2000" "off_queues (sample_kernel []) [] [] 0x2000"
  by (simp_all add: off_queues_def node_sets run_queue_def sleep_queue_def q_node_def
      sample_kernel_def sample_nodes_def sample_with_def)

lemma sample_sched:
  "sched_abs sample_symbols (sample_kernel [0x3000]) 0x2000 [0x3000] []"
  "sched_abs sample_symbols (sample_kernel []) 0x2000 [] []"
  using sample_queues sample_off
  by (simp_all add: sched_abs_def sample_idle sample_kernel_fields in_state_def sample_procs_def proc_zero_def)


section \<open>Fairness\<close>

fun schedules :: "nat \<Rightarrow> symbols \<Rightarrow> 'z kernel_scheme \<Rightarrow> 'z kernel_scheme kres" where
  "schedules 0 L s = Inr s"
| "schedules (Suc n) L s = rbind (schedule L s) (schedules n L)"

text \<open>The node heap goes through the turns of a round robin on the run queue.\<close>

lemma schedules_turns:
  "\<lbrakk>sched_abs L s cur run slp; cur \<noteq> my_idle L s; run \<noteq> []\<rbrakk> \<Longrightarrow>
   \<exists>s'. schedules n L s = Inr s' \<and> kq.turns n (run_queue (tp s)) (q_node cur) (nodes s) = Inr (q_node (cpu_proc s'), nodes s')"
proof (induction n arbitrary: s cur run)
  case 0
  then show ?case by (auto simp: sched_abs_def)
next
  case (Suc n)
  then obtain m ms where run: "run = m # ms" by (cases run) auto
  obtain v ov h where f: "schedule L s = Inr (switched L m v cur ov h s)"
      "kq.turn (run_queue (tp s)) (q_node cur) (nodes s) = Inr (q_node m, h)"
      "sched_abs L (switched L m v cur ov h s) m (ms @ [cur]) slp"
    using schedule_first [of L s cur m ms slp] Suc.prems run by auto
  let ?s = "switched L m v cur ov h s"
  have e: "my_idle L ?s = my_idle L s" "tp ?s = tp s" "nodes ?s = h" by (simp_all add: switched_def)
  have "m \<noteq> my_idle L s" using sched_absD [OF Suc.prems(1)] run by (metis Un_iff list.set_intros(1))
  then obtain s' where "schedules n L ?s = Inr s'"
      "kq.turns n (run_queue (tp ?s)) (q_node m) (nodes ?s) = Inr (q_node (cpu_proc s'), nodes s')"
    using Suc.IH [OF f(3)] e by auto
  then show ?case using f(1,2) e by auto
qed

lemma schedules_reach:
  assumes "sched_abs L s cur run slp" and "cur \<noteq> my_idle L s" and "k < length run"
  shows "\<exists>s'. schedules (Suc k) L s = Inr s' \<and> cpu_proc s' = run ! k"
proof -
  note Q = queuesD(1) [of s run slp]
  have ne: "run \<noteq> []" using assms(3) by auto
  have q: "queues s run slp" "off_queues s run slp cur" using assms(1,2) by (auto simp: sched_abs_def)
  obtain h' where h': "kq.turns (Suc k) (run_queue (tp s)) (q_node cur) (nodes s) = Inr (map q_node run ! k, h')"
    using kq.turns_reach [OF Q [OF q(1)], of "q_node cur" k] q(2) assms(3)
    by (auto simp: off_queues_def node_sets)
  obtain s' where "schedules (Suc k) L s = Inr s'"
      "kq.turns (Suc k) (run_queue (tp s)) (q_node cur) (nodes s) = Inr (q_node (cpu_proc s'), nodes s')"
    using schedules_turns [OF assms(1,2) ne, of "Suc k"] by blast
  then show ?thesis using h' assms(3) by auto
qed



section \<open>Sleeping and waking\<close>

lemma timer_handle_facts:
  assumes "queues s run slp"
  defines "now \<equiv> time_at s (Suc (time_reads s))"
  obtains s' where "timer_handle s = Inr s'"
    "queues s' (run @ filter (due s now) slp) (filter (\<lambda>p. \<not> due s now p) slp)"
    "procs s' = woken s now slp" "stimecmp s' = time_at s (time_reads s) + TIMER_INTERVAL"
    "needs_sched s' = (if \<exists>p \<in> set slp. due s now p then 1 else needs_sched s)"
    "cpu_proc s' = cpu_proc s" "m_hart s' = m_hart s" "tp s' = tp s" "hart_ctx s' = hart_ctx s"
    "dom (nodes s') = dom (nodes s)"
proof -
  obtain h where h: "timer_handle s = Inr (s\<lparr>time_reads := Suc (Suc (time_reads s)),
       stimecmp := time_at s (time_reads s) + TIMER_INTERVAL, nodes := h, procs := woken s now slp,
       needs_sched := (if \<exists>p \<in> set slp. due s now p then 1 else needs_sched s)\<rparr>)"
     "queues (s\<lparr>nodes := h, procs := woken s now slp\<rparr>) (run @ filter (due s now) slp) (filter (\<lambda>p. \<not> due s now p) slp)"
     "dom h = dom (nodes s)"
    using timer_handle_ok [OF assms(1)] unfolding now_def by blast
  show thesis by (rule that [OF h(1)], rule queues_cong [OF h(2)]) (simp_all add: h(3))
qed

text \<open>C19. \<open>timer_handle\<close> always returns; it moves exactly the processes whose time has come from the
  sleep queue to the end of the run queue, in order, marks them runnable and asks for a call
  of \<open>schedule\<close> when there is one, and leaves every other process alone.\<close>

theorem timer_handle_wakes:
  assumes "queues s run slp"
  defines "now \<equiv> time_at s (Suc (time_reads s))"
  shows "\<exists>s'. timer_handle s = Inr s' \<and>
     queues s' (run @ filter (due s now) slp) (filter (\<lambda>p. \<not> due s now p) slp) \<and>
     procs s' = woken s now slp \<and> stimecmp s' = time_at s (time_reads s) + TIMER_INTERVAL \<and>
     needs_sched s' = (if \<exists>p \<in> set slp. due s now p then 1 else needs_sched s) \<and> cpu_proc s' = cpu_proc s"
  unfolding now_def by (rule timer_handle_facts [OF assms(1)]) blast

theorem timer_handle_witness:
  "\<exists>s'. timer_handle (sample_kernel [0x3000]) = Inr s' \<and> queues s' [0x3000] [] \<and> stimecmp s' = 100000"
  using timer_handle_wakes [OF sample_queues(1)]
  by (auto simp: sample_kernel_fields TIMER_INTERVAL_def TIME_FREQ_def)

section \<open>Processes that are lost\<close>

text \<open>A number of timer interrupts, each followed by a call of \<open>schedule\<close>.\<close>

fun ticks :: "nat \<Rightarrow> symbols \<Rightarrow> 'z kernel_scheme \<Rightarrow> 'z kernel_scheme kres" where
  "ticks 0 L s = Inr s"
| "ticks (Suc n) L s = rbind (timer_handle s) (\<lambda>s. rbind (schedule L s) (ticks n L))"

lemma ticks_idle:
  "\<lbrakk>sched_abs L s (my_idle L s) [] []\<rbrakk> \<Longrightarrow> \<exists>s'. ticks n L s = Inr s' \<and> cpu_proc s' = my_idle L s \<and> queues s' [] []"
proof (induction n arbitrary: s)
  case 0
  then show ?case by (auto simp: sched_abs_def)
next
  case (Suc n)
  then obtain iv where a: "queues s [] []" "cpu_proc s = my_idle L s" "procs s (my_idle L s) = Some iv" "is_idle iv \<noteq> 0"
    by (auto simp: sched_abs_def)
  obtain s1 where t: "timer_handle s = Inr s1" "queues s1 [] []" "procs s1 = procs s" "cpu_proc s1 = cpu_proc s" "m_hart s1 = m_hart s"
    by (rule timer_handle_facts [OF a(1)]) (simp add: woken_def)
  have "schedule L s1 = Inr s1" using schedule_idle_stays [OF t(2), of iv L] a t by simp
  moreover have "sched_abs L s1 (my_idle L s1) [] []" using a t by (simp add: sched_abs_def)
  ultimately show ?case using Suc.IH [of s1] t by simp
qed



section \<open>Sleeping while others can run\<close>

text \<open>The pointers after a node of the sleep queue has been added to the run queue.\<close>

lemma add_tail_again:
  assumes "dll h q ys" and "h a = Some W" and "a \<notin> set (q # ys)"
  shows "\<exists>h'. list_add_tail a q h = Inr h' \<and> map_option ln_prev (h' a) = Some (last (q # ys)) \<and>
     map_option ln_next (h' a) = Some q \<and> (\<forall>x. x \<notin> {q, last (q # ys), a} \<longrightarrow> h' x = h x)"
proof -
  have "seg h q ys q" using assms(1) by (simp add: dll_def)
  from list_add_tail_ptrs [OF this assms(2,3)] obtain h' where h': "list_add_tail a q h = Inr h'"
      "\<forall>y. map_option ln_next (h' y) = (if y = last (q # ys) then Some a else if y = a then Some q else map_option ln_next (h y))"
      "\<forall>y. map_option ln_prev (h' y) = (if y = q then Some a else if y = a then Some (last (q # ys)) else map_option ln_prev (h y))"
      "\<forall>y. y \<notin> {q, last (q # ys), a} \<longrightarrow> h' y = h y" by blast
  have "last (q # ys) \<in> set (q # ys)" by (rule last_in_set) simp
  then have "a \<noteq> q" "a \<noteq> last (q # ys)" using assms(3) by auto
  then have "map_option ln_prev (h' a) = Some (last (q # ys))" "map_option ln_next (h' a) = Some q"
    using h'(2,3) by simp_all
  then show ?thesis using h'(1,4) by blast
qed

text \<open>A node that is alone in one list and is put at the end of another breaks the first list: its
  header still points at the node, and the node points elsewhere.\<close>

lemma add_tail_steals:
  assumes "dll h q ys" "dll h sq [a]" and dis: "set (q # ys) \<inter> {sq, a} = {}"
  obtains h' where "list_add_tail a q h = Inr h'" and "map_option ln_next (h' a) = Some q"
    and "map_option ln_next (h' sq) = Some a" and "\<forall>xs. \<not> dll h' sq xs"
proof -
  have last: "last (q # ys) \<in> set (q # ys)" by (rule last_in_set) simp
  obtain W where W: "h a = Some W" using kq.queue_node [OF assms(2), of a] by auto
  obtain h' where h: "list_add_tail a q h = Inr h'" "map_option ln_prev (h' a) = Some (last (q # ys))"
      "map_option ln_next (h' a) = Some q" "\<forall>x. x \<notin> {q, last (q # ys), a} \<longrightarrow> h' x = h x"
    using add_tail_again [OF assms(1) W] dis by blast
  have "sq \<notin> {q, last (q # ys), a}" using assms(2) dis last by (auto simp: dll_def)
  then have sq: "map_option ln_next (h' sq) = Some a" using h(4) assms(2) by (auto simp: dll_def)
  have "\<not> dll h' sq xs" for xs
  proof
    assume "dll h' sq xs"
    then have "map_option ln_prev (h' a) = Some sq" using sq by (cases xs) (auto simp: dll_def)
    then show False using h(2) last dis by auto
  qed
  then show thesis using that h(1,3) sq by blast
qed



end
