(* ===== verification/Trap_Props.thy ===== *)
theory Trap_Props
  imports Trap Sched_Props
begin

text \<open>
  The properties of traps and system calls as a user process sees them: which registers survive a
  trap, what a system call returns, and what becomes of a process that exits or sleeps.
\<close>

section \<open>Saving and restoring\<close>

text \<open>The frame \<open>trap_vector\<close> leaves for a trap from user mode, and the registers with which it
  calls the handler. \<open>x5\<close> and \<open>x6\<close> have been overwritten before they are saved.\<close>

definition saved_frame :: "trap_regs \<Rightarrow> ulong \<Rightarrow> trap_frame \<Rightarrow> trap_frame" where
  "saved_frame r tf f = f\<lparr>regs := (xs r)[0 := regs f ! 0, 5 := tf, 6 := t_scause r],
     sepc := t_sepc r, sstatus := t_sstatus r, scause := t_scause r, stval := t_stval r\<rparr>"

definition handler_regs :: "trap_regs \<Rightarrow> ulong \<Rightarrow> trap_regs" where
  "handler_regs r tf = r\<lparr>xs := (xs r)[6 := t_scause r, 5 := t_stval r, 2 := tf, 10 := tf]\<rparr>"

lemma get_frame_Some: "frames s a = Some f \<Longrightarrow> get_frame s a = Inr f"
  by (simp add: get_frame_def)

lemma upd_frame_Some: "frames s a = Some f \<Longrightarrow> upd_frame a g s = Inr (s\<lparr>frames := (frames s)(a \<mapsto> g f)\<rparr>)"
  by (simp add: upd_frame_def get_frame_def)

lemmas frame_access = get_frame_Some upd_frame_Some

text \<open>The 32 registers one by one.\<close>

lemma regs32_eqI:
  assumes "length ys = 32" "length zs = 32" and "\<And>i. i < 32 \<Longrightarrow> ys ! i = zs ! i"
  shows "ys = zs"
  using assms by (simp add: list_eq_iff_nth_eq)

lemma trap_save_user:
  assumes "t_sstatus r AND SSTATUS_SPP = 0" and "frames s (sscratch s) = Some f"
    and "length (xs r) = 32" "length (regs f) = 32"
  shows "trap_save r s = Inr (handler_regs r (sscratch s),
     s\<lparr>frames := (frames s)(sscratch s \<mapsto> saved_frame r (sscratch s) f)\<rparr>)"
proof -
  have "map (\<lambda>i. if i = 0 \<or> i = 2 then ((regs f)[2 := xs r ! 2]) ! i
        else (xs r)[6 := t_scause r, 5 := sscratch s, 2 := sscratch s] ! i) [0..<32] =
      (xs r)[0 := regs f ! 0, 5 := sscratch s, 6 := t_scause r]" (is "?a = ?b")
    by (rule regs32_eqI) (use assms in \<open>simp_all add: nth_list_update del: upt_rec_numeral\<close>)
  then show ?thesis
    using assms by (simp add: trap_save_def Let_def frame_access saved_frame_def handler_regs_def
        list_update_swap [of 2 5] del: upt_rec_numeral cong: if_cong)
qed

lemma trap_restore_user:
  assumes "frames s tf = Some f" and "length (regs f) = 32" and "sstatus f AND SSTATUS_SPP = 0"
  shows "trap_restore tf r s = Inr (r\<lparr>xs := (regs f)[0 := 0, 5 := 0], t_sepc := sepc f, t_sstatus := sstatus f\<rparr>)"
proof -
  have "(map (\<lambda>i. if i = 0 then 0 else if i = 2 then tf else regs f ! i) [0..<32])[5 := 0, 2 := regs f ! 2] =
      (regs f)[0 := 0, 5 := 0]"
    by (rule regs32_eqI) (use assms in \<open>simp_all add: nth_list_update del: upt_rec_numeral\<close>)
  then show ?thesis using assms by (simp add: trap_restore_def Let_def frame_access del: upt_rec_numeral)
qed

text \<open>A trap from user mode whose handler keeps the process: the frame may be changed by the
  handler, and what it holds then is what the process continues with.\<close>

lemma user_trap_returns:
  assumes "t_sstatus r AND SSTATUS_SPP = 0" and "frames s (sscratch s) = Some f"
    and "length (xs r) = 32" "length (regs f) = 32"
    and "trap_handler L (xs r ! 4) (sscratch s) (s\<lparr>csr_scause := t_scause r,
           frames := (frames s)(sscratch s \<mapsto> saved_frame r (sscratch s) f)\<rparr>) = Inr s'"
    and "cpu_proc s' = cpu_proc s" and "frames s' (sscratch s) = Some g"
    and "length (regs g) = 32" "sstatus g AND SSTATUS_SPP = 0"
  shows "user_trap L r s = Inr (Some ((handler_regs r (sscratch s))\<lparr>xs := (regs g)[0 := 0, 5 := 0],
     t_sepc := sepc g, t_sstatus := sstatus g\<rparr>), s')"
proof -
  have "xs (handler_regs r (sscratch s)) ! 10 = sscratch s" "xs (handler_regs r (sscratch s)) ! 2 = sscratch s"
    "xs (handler_regs r (sscratch s)) ! 4 = xs r ! 4"
    using assms(3) by (simp_all add: handler_regs_def)
  then show ?thesis
    using assms trap_save_user [of r "s\<lparr>csr_scause := t_scause r\<rparr>" f]
      trap_restore_user [OF assms(7-9), of "handler_regs r (sscratch s)"]
    by (simp add: user_trap_def)
qed

text \<open>The trap handler reads the address of the hart's \<^verbatim>\<open>cpu_t\<close> from the process's \<^verbatim>\<open>x4\<close>. A process that has
  changed this register stops the kernel with its next trap, of any cause.\<close>

theorem foreign_tp_faults:
  assumes "t_sstatus r AND SSTATUS_SPP = 0" and "frames s (sscratch s) = Some f"
    and "length (xs r) = 32" "length (regs f) = 32" and "xs r ! 4 \<noteq> tp s"
  shows "user_trap L r s = Inl (Fault (xs r ! 4 + cpu_proc_offset))"
proof -
  have "xs (handler_regs r (sscratch s)) ! 4 = xs r ! 4" using assms(3) by (simp add: handler_regs_def)
  then show ?thesis
    using assms trap_save_user [of r "s\<lparr>csr_scause := t_scause r\<rparr>" f] by (simp add: user_trap_def trap_handler_def)
qed

section \<open>The handler on a running process\<close>

text \<open>The hart runs process \<open>p\<close> in user mode with registers \<open>r\<close>; its trap frame is in \<^verbatim>\<open>sscratch\<close>, and \<^verbatim>\<open>x4\<close>
  still holds the address of the hart's \<^verbatim>\<open>cpu_t\<close>, as \<open>jump_to_user_shell\<close> leaves it.\<close>

definition in_user :: "'z kernel_scheme \<Rightarrow> ulong \<Rightarrow> trap_regs \<Rightarrow> bool" where
  "in_user s p r \<longleftrightarrow> cpu_proc s = p \<and> p \<noteq> 0 \<and> needs_sched s = 0 \<and>
     (\<exists>v f. procs s p = Some v \<and> is_idle v = 0 \<and> p_tf v = sscratch s \<and> frames s (sscratch s) = Some f \<and>
        length (regs f) = 32) \<and>
     length (xs r) = 32 \<and> xs r ! 0 = 0 \<and> xs r ! 4 = tp s \<and> t_sstatus r AND SSTATUS_SPP = 0"

lemma trap_handler_ecall:
  assumes "procs s (cpu_proc s) = Some v" "is_idle v = 0" "cpu_proc s \<noteq> 0" "frames s tf = Some f"
    and "csr_scause s = SCAUSE_USER_ECALL" "scause f = SCAUSE_USER_ECALL"
  shows "trap_handler L (tp s) tf s =
     rbind (syscall_handler (cpu_proc s) (s\<lparr>frames := (frames s)(tf \<mapsto> f\<lparr>sepc := sepc f + 4\<rparr>)\<rparr>)) (trap_end L)"
  using assms by (simp add: trap_handler_def Let_def heap_access frame_access scause_defs)

lemma trap_handler_timer:
  assumes "procs s (cpu_proc s) = Some v" "is_idle v = 0" "cpu_proc s \<noteq> 0" "frames s tf = Some f"
    and "csr_scause s = SCAUSE_IRQ_BIT OR SCAUSE_TIMER_INTERRUPT" "scause f = csr_scause s"
  shows "trap_handler L (tp s) tf s = rbind (timer_handle s) (trap_end L)"
  using assms by (simp add: trap_handler_def Let_def heap_access frame_access scause_defs)

text \<open>A timer interrupt for which no sleeper is due.\<close>

lemma timer_handle_nobody:
  assumes Q: "queues s run slp" and nobody: "\<forall>q \<in> set slp. \<not> due s (time_at s (Suc (time_reads s))) q"
  shows "\<exists>h. timer_handle s = Inr (s\<lparr>time_reads := Suc (Suc (time_reads s)),
       stimecmp := time_at s (time_reads s) + TIMER_INTERVAL, nodes := h\<rparr>) \<and>
     dom h = dom (nodes s) \<and> queues (s\<lparr>nodes := h\<rparr>) run slp"
proof -
  have w: "woken s (time_at s (Suc (time_reads s))) slp = procs s"
      "filter (due s (time_at s (Suc (time_reads s)))) slp = []"
      "filter (\<lambda>q. \<not> due s (time_at s (Suc (time_reads s))) q) slp = slp"
    using nobody by (auto simp: woken_def filter_empty_conv filter_id_conv fun_eq_iff)
  have "\<not> (\<exists>q \<in> set slp. due s (time_at s (Suc (time_reads s))) q)" using nobody by blast
  with timer_handle_ok [OF Q] show ?thesis unfolding w by simp
qed

text \<open>C23. A timer interrupt that wakes nobody, taken while the running process still has the address
  of the hart's \<^verbatim>\<open>cpu_t\<close> in \<^verbatim>\<open>x4\<close> (\<open>in_user\<close>), is transparent to the process except for
  two registers: it continues at the same address and with the same registers, but \<^verbatim>\<open>t0\<close> is zero
  and \<^verbatim>\<open>t1\<close> holds the cause of the trap, since \<^verbatim>\<open>trap_vector\<close> overwrites both before saving
  them. The scheduler's state is unchanged.\<close>

theorem timer_interrupt_registers:
  assumes u: "in_user s p r" and abs: "sched_abs L s p run slp" and p: "p \<noteq> my_idle L s"
    and nobody: "\<forall>q \<in> set slp. \<not> due s (time_at s (Suc (time_reads s))) q"
    and cause: "t_scause r = SCAUSE_IRQ_BIT OR SCAUSE_TIMER_INTERRUPT"
  shows "\<exists>r' s'. user_trap L r s = Inr (Some r', s') \<and> xs r' = (xs r)[5 := 0, 6 := t_scause r] \<and>
     t_sepc r' = t_sepc r \<and> t_sstatus r' = t_sstatus r \<and> sched_abs L s' p run slp \<and>
     procs s' = procs s \<and> stimecmp s' = time_at s (time_reads s) + TIMER_INTERVAL"
proof -
  obtain v f where v: "procs s p = Some v" "is_idle v = 0" "frames s (sscratch s) = Some f" "length (regs f) = 32"
      "cpu_proc s = p" "p \<noteq> 0" "needs_sched s = 0" "length (xs r) = 32" "xs r ! 0 = 0" "t_sstatus r AND SSTATUS_SPP = 0"
      "xs r ! 4 = tp s"
    using u by (auto simp: in_user_def)
  let ?g = "saved_frame r (sscratch s) f"
  let ?s1 = "s\<lparr>csr_scause := t_scause r, frames := (frames s)(sscratch s \<mapsto> ?g)\<rparr>"
  have Q: "queues ?s1 run slp" by (rule queues_cong [of s]) (use abs in \<open>simp_all add: sched_abs_def\<close>)
  have "\<forall>q \<in> set slp. \<not> due ?s1 (time_at ?s1 (Suc (time_reads ?s1))) q"
    using nobody by (simp add: due_def)
  from timer_handle_nobody [OF Q this]
  obtain h where h: "timer_handle ?s1 = Inr (?s1\<lparr>time_reads := Suc (Suc (time_reads s)),
       stimecmp := time_at s (time_reads s) + TIMER_INTERVAL, nodes := h\<rparr>)"
     "dom h = dom (nodes s)" "queues (?s1\<lparr>nodes := h\<rparr>) run slp"
    by auto
  let ?s2 = "?s1\<lparr>time_reads := Suc (Suc (time_reads s)), stimecmp := time_at s (time_reads s) + TIMER_INTERVAL, nodes := h\<rparr>"
  have "trap_handler L (xs r ! 4) (sscratch s) ?s1 = Inr ?s2"
    using trap_handler_timer [of ?s1 v "sscratch s" ?g L] v cause h(1)
    by (simp add: saved_frame_def trap_end_def)
  from user_trap_returns [OF v(10,3,8,4) this, of ?g] v
  have "user_trap L r s = Inr (Some ((handler_regs r (sscratch s))\<lparr>xs := (regs ?g)[0 := 0, 5 := 0],
     t_sepc := sepc ?g, t_sstatus := sstatus ?g\<rparr>), ?s2)"
    by (simp add: saved_frame_def)
  moreover have "(regs ?g)[0 := 0, 5 := 0] = (xs r)[5 := 0, 6 := t_scause r]"
    by (rule regs32_eqI) (use v in \<open>simp_all add: saved_frame_def nth_list_update\<close>)
  moreover have "sched_abs L ?s2 p run slp"
  proof -
    have "queues ?s2 run slp" by (rule queues_cong [OF h(3)]) simp_all
    then show ?thesis using abs h(2) by (simp add: sched_abs_def in_state_def off_queues_def node_sets)
  qed
  ultimately show ?thesis by (simp add: saved_frame_def)
qed

section \<open>System calls\<close>

text \<open>The frame with which the dispatcher sees a system call made with registers \<open>r\<close>.\<close>

definition call_regs :: "ulong \<Rightarrow> ulong \<Rightarrow> ulong \<Rightarrow> ulong \<Rightarrow> trap_regs \<Rightarrow> trap_regs" where
  "call_regs num a0 a1 a2 r = r\<lparr>xs := syscall_args num a0 a1 a2 0 0 0 (xs r),
     t_scause := SCAUSE_USER_ECALL, t_stval := 0, t_sstatus := t_sstatus r AND NOT SSTATUS_SPP\<rparr>"

definition call_frame :: "ulong \<Rightarrow> ulong \<Rightarrow> ulong \<Rightarrow> ulong \<Rightarrow> trap_regs \<Rightarrow> ulong \<Rightarrow> trap_frame \<Rightarrow> trap_frame" where
  "call_frame num a0 a1 a2 r tf f =
     (saved_frame (call_regs num a0 a1 a2 r) tf f)\<lparr>sepc := t_sepc r + 4\<rparr>"

definition call_state ::
    "ulong \<Rightarrow> ulong \<Rightarrow> ulong \<Rightarrow> ulong \<Rightarrow> trap_regs \<Rightarrow> trap_frame \<Rightarrow> 'z kernel_scheme \<Rightarrow> 'z kernel_scheme" where
  "call_state num a0 a1 a2 r f s = s\<lparr>csr_scause := SCAUSE_USER_ECALL,
     frames := (frames s)(sscratch s \<mapsto> call_frame num a0 a1 a2 r (sscratch s) f)\<rparr>"

lemma spp_cleared: "(w AND NOT SSTATUS_SPP) AND SSTATUS_SPP = 0"
  by (simp add: SSTATUS_SPP_def bit_eq_iff bit_simps)

lemma call_regs_facts:
  assumes "length (xs r) = 32"
  shows "length (xs (call_regs num a0 a1 a2 r)) = 32" "t_sstatus (call_regs num a0 a1 a2 r) AND SSTATUS_SPP = 0"
    "t_scause (call_regs num a0 a1 a2 r) = SCAUSE_USER_ECALL" "xs (call_regs num a0 a1 a2 r) ! 4 = xs r ! 4"
  using assms by (simp_all add: call_regs_def syscall_args_def spp_cleared)

lemma call_frame_facts:
  assumes "length (xs r) = 32"
  shows "regs (call_frame num a0 a1 a2 r tf f) ! 17 = num" "regs (call_frame num a0 a1 a2 r tf f) ! 10 = a0"
    "regs (call_frame num a0 a1 a2 r tf f) ! 11 = a1" "regs (call_frame num a0 a1 a2 r tf f) ! 12 = a2"
    "length (regs (call_frame num a0 a1 a2 r tf f)) = 32" "scause (call_frame num a0 a1 a2 r tf f) = SCAUSE_USER_ECALL"
    "sstatus (call_frame num a0 a1 a2 r tf f) AND SSTATUS_SPP = 0" "sepc (call_frame num a0 a1 a2 r tf f) = t_sepc r + 4"
    "\<And>i. i < 32 \<Longrightarrow> i \<notin> {0, 5, 6, 10, 11, 12, 13, 14, 15, 17} \<Longrightarrow> regs (call_frame num a0 a1 a2 r tf f) ! i = xs r ! i"
  using assms
  by (simp_all add: call_frame_def saved_frame_def call_regs_def syscall_args_def nth_list_update spp_cleared)

text \<open>The handler of a system call is the dispatcher, followed by the call of the scheduler.\<close>

lemma trap_handler_call:
  assumes "in_user s p r" and "frames s (sscratch s) = Some f"
  shows "trap_handler L (tp s) (sscratch s) (s\<lparr>csr_scause := SCAUSE_USER_ECALL,
           frames := (frames s)(sscratch s \<mapsto> saved_frame (call_regs num a0 a1 a2 r) (sscratch s) f)\<rparr>) =
     rbind (syscall_handler p (call_state num a0 a1 a2 r f s)) (trap_end L)"
proof -
  obtain v where v: "procs s p = Some v" "is_idle v = 0" "cpu_proc s = p" "p \<noteq> 0" "length (xs r) = 32"
    using assms(1) by (auto simp: in_user_def)
  let ?g = "saved_frame (call_regs num a0 a1 a2 r) (sscratch s) f"
  let ?s1 = "s\<lparr>csr_scause := SCAUSE_USER_ECALL, frames := (frames s)(sscratch s \<mapsto> ?g)\<rparr>"
  have "?g\<lparr>sepc := sepc ?g + 4\<rparr> = call_frame num a0 a1 a2 r (sscratch s) f"
    by (simp add: call_frame_def saved_frame_def call_regs_def)
  moreover have "scause ?g = SCAUSE_USER_ECALL" by (simp add: saved_frame_def call_regs_def)
  ultimately show ?thesis
    using trap_handler_ecall [of ?s1 v "sscratch s" ?g L] v by (simp add: call_state_def)
qed

text \<open>A system call that returns to its caller.\<close>

lemma syscall_returns:
  assumes u: "in_user s p r" and f: "frames s (sscratch s) = Some f"
    and h: "syscall_handler p (call_state num a0 a1 a2 r f s) = Inr s'"
    and s': "cpu_proc s' = p" "needs_sched s' = 0" "frames s' (sscratch s) = Some g"
    and g: "length (regs g) = 32" "sstatus g AND SSTATUS_SPP = 0"
  shows "\<exists>r'. syscall L num a0 a1 a2 0 0 0 r s = Inr (Some (regs g ! 10, r'), s') \<and>
     xs r' = (regs g)[0 := 0, 5 := 0] \<and> t_sepc r' = sepc g \<and> t_sstatus r' = sstatus g"
proof -
  have v: "length (xs r) = 32" "cpu_proc s = p" "length (regs f) = 32" "xs r ! 4 = tp s"
    using u f by (auto simp: in_user_def)
  let ?r = "call_regs num a0 a1 a2 r"
  note cr = call_regs_facts [OF v(1), of num a0 a1 a2]
  have "trap_handler L (xs ?r ! 4) (sscratch s) (s\<lparr>csr_scause := t_scause ?r,
       frames := (frames s)(sscratch s \<mapsto> saved_frame ?r (sscratch s) f)\<rparr>) = Inr s'"
    using trap_handler_call [OF u f] h s'(2) cr(3,4) v(4) by (simp add: trap_end_def)
  from user_trap_returns [OF cr(2) f cr(1) v(3) this _ s'(3) g] s'(1) v(2)
  have "user_trap L ?r s = Inr (Some ((handler_regs ?r (sscratch s))\<lparr>xs := (regs g)[0 := 0, 5 := 0],
     t_sepc := sepc g, t_sstatus := sstatus g\<rparr>), s')" by simp
  then show ?thesis by (simp add: syscall_def ecall_def call_regs_def)
qed

text \<open>The dispatcher on the frame of a call.\<close>

lemma syscall_handler_call:
  assumes "in_user s p r" and "frames s (sscratch s) = Some f" and "procs s p = Some v"
  shows "get_proc (call_state num a0 a1 a2 r f s) p = Inr v"
    "get_frame (call_state num a0 a1 a2 r f s) (sscratch s) = Inr (call_frame num a0 a1 a2 r (sscratch s) f)"
    "p_tf v = sscratch s"
  using assms by (auto simp: call_state_def get_proc_def get_frame_def in_user_def)

text \<open>The registers a process has after a call that returned \<open>v\<close>.\<close>

definition returned :: "ulong \<Rightarrow> trap_regs \<Rightarrow> trap_regs \<Rightarrow> bool" where
  "returned v r r' \<longleftrightarrow> t_sepc r' = t_sepc r + 4 \<and> xs r' ! 10 = v \<and> xs r' ! 5 = 0 \<and> xs r' ! 6 = SCAUSE_USER_ECALL \<and>
     (\<forall>i < 32. i \<notin> {5, 6, 10, 11, 12, 13, 14, 15, 17} \<longrightarrow> xs r' ! i = xs r ! i)"

lemma syscall_answered:
  assumes u: "in_user s p r" and f: "frames s (sscratch s) = Some f"
    and h: "syscall_handler p (call_state num a0 a1 a2 r f s) =
      set_a0 (sscratch s) (w, call_state num a0 a1 a2 r f s)"
  shows "\<exists>r' s'. syscall L num a0 a1 a2 0 0 0 r s = Inr (Some (w, r'), s') \<and> returned w r r' \<and>
     in_user s' p r' \<and> procs s' = procs s \<and> m_mem s' = m_mem s"
proof -
  have v: "length (xs r) = 32" "cpu_proc s = p" "length (regs f) = 32" "needs_sched s = 0" "xs r ! 0 = 0" "xs r ! 4 = tp s"
    using u f by (auto simp: in_user_def)
  let ?c = "call_frame num a0 a1 a2 r (sscratch s) f" and ?s1 = "call_state num a0 a1 a2 r f s"
  let ?g = "?c\<lparr>regs := (regs ?c)[10 := w]\<rparr>"
  let ?s' = "?s1\<lparr>frames := (frames ?s1)(sscratch s \<mapsto> ?g)\<rparr>"
  note cf = call_frame_facts [OF v(1)]
  have h': "syscall_handler p ?s1 = Inr ?s'"
    using h by (simp add: set_a0_def upd_frame_def get_frame_def call_state_def)
  have g: "length (regs ?g) = 32" "sstatus ?g AND SSTATUS_SPP = 0" using cf(5,7) by simp_all
  have s': "cpu_proc ?s' = p" "needs_sched ?s' = 0" "frames ?s' (sscratch s) = Some ?g"
    using v by (simp_all add: call_state_def)
  obtain r' where r': "syscall L num a0 a1 a2 0 0 0 r s = Inr (Some (regs ?g ! 10, r'), ?s')"
     "xs r' = (regs ?g)[0 := 0, 5 := 0]" "t_sepc r' = sepc ?g" "t_sstatus r' = sstatus ?g"
    using syscall_returns [OF u f h' s' g] by blast
  have six: "regs ?c ! 6 = SCAUSE_USER_ECALL"
    using v(1) by (simp add: call_frame_def saved_frame_def call_regs_def syscall_args_def)
  have ret: "returned w r r'"
    unfolding returned_def r'(2-4) using cf(5,8,9) six v(5) by (auto simp: nth_list_update)
  have iu: "in_user ?s' p r'" using u g s' r'(2,4) v cf(9) [of 4] by (auto simp: in_user_def call_state_def)
  have same: "procs ?s' = procs s" "m_mem ?s' = m_mem s" by (simp_all add: call_state_def)
  have "regs ?g ! 10 = w" using cf(5) by simp
  then have c: "syscall L num a0 a1 a2 0 0 0 r s = Inr (Some (w, r'), ?s')" using r'(1) by simp
  show ?thesis by (rule exI [of _ r'], rule exI [of _ ?s']) (intro conjI c ret iu same)
qed

text \<open>C24. \<^verbatim>\<open>getpid\<close>, called from user mode with the address of the hart's \<^verbatim>\<open>cpu_t\<close> still in \<^verbatim>\<open>x4\<close>
  (\<open>in_user\<close>), returns the identifier of the calling process. The process
  continues after the \<^verbatim>\<open>ecall\<close>, keeps every register that is not an argument register or
  \<^verbatim>\<open>t0\<close> or \<^verbatim>\<open>t1\<close>, and the hart is ready for its next trap.\<close>

theorem getpid_returns_pid:
  assumes "in_user s p r" and "procs s p = Some v"
  shows "\<exists>r' s'. user_getpid L r s = Inr (Some (scast (pid v), r'), s') \<and> returned (scast (pid v)) r r' \<and>
     in_user s' p r' \<and> procs s' = procs s \<and> m_mem s' = m_mem s"
proof -
  obtain f where f: "frames s (sscratch s) = Some f" "length (xs r) = 32" using assms(1) by (auto simp: in_user_def)
  note c = syscall_handler_call [OF assms(1) f(1) assms(2)]
  have "syscall_handler p (call_state 3 0 0 0 r f s) =
      set_a0 (sscratch s) (scast (pid v), call_state 3 0 0 0 r f s)"
    by (simp add: syscall_handler_def c Let_def call_frame_facts(1) [OF f(2)] c_int_def syscall_numbers)
  from syscall_answered [OF assms(1) f(1) this] show ?thesis
    by (simp add: user_getpid_def syscall0_def SYS_getpid_def)
qed

text \<open>A call with a number that is none of the eight system calls returns \<open>-1\<close> and
  changes nothing but the trap frame.\<close>

theorem unknown_syscall_rejected:
  assumes "in_user s p r" and "c_int num \<notin> {1..8}"
  shows "\<exists>r' s'. syscall L num a0 a1 a2 0 0 0 r s = Inr (Some (-1, r'), s') \<and> returned (-1) r r' \<and>
     in_user s' p r' \<and> procs s' = procs s \<and> m_mem s' = m_mem s"
proof -
  obtain f v where f: "frames s (sscratch s) = Some f" "length (xs r) = 32" "procs s p = Some v"
    using assms(1) by (auto simp: in_user_def)
  note c = syscall_handler_call [OF assms(1) f(1,3)]
  have "c_int num \<noteq> 1" "c_int num \<noteq> 2" "c_int num \<noteq> 3" "c_int num \<noteq> 4" "c_int num \<noteq> 5" "c_int num \<noteq> 6"
    "c_int num \<noteq> 7" "c_int num \<noteq> 8" using assms(2) by auto
  then have "syscall_handler p (call_state num a0 a1 a2 r f s) =
      set_a0 (sscratch s) (-1, call_state num a0 a1 a2 r f s)"
    by (simp add: syscall_handler_def c Let_def call_frame_facts(1) [OF f(2)] syscall_numbers)
  from syscall_answered [OF assms(1) f(1) this] show ?thesis .
qed

section \<open>Leaving the processor\<close>

text \<open>A system call after which another process runs.\<close>

lemma syscall_switches:
  assumes u: "in_user s p r" and f: "frames s (sscratch s) = Some f"
    and h: "syscall_handler p (call_state num a0 a1 a2 r f s) = Inr s1" "needs_sched s1 \<noteq> 0"
    and sch: "schedule L (s1\<lparr>needs_sched := 0\<rparr>) = Inr s'" "cpu_proc s' \<noteq> p"
  shows "syscall L num a0 a1 a2 0 0 0 r s = Inr (None, s')"
proof -
  have v: "length (xs r) = 32" "cpu_proc s = p" "length (regs f) = 32" "xs r ! 4 = tp s"
    using u f by (auto simp: in_user_def)
  let ?r = "call_regs num a0 a1 a2 r"
  note cr = call_regs_facts [OF v(1), of num a0 a1 a2]
  have "trap_save ?r (s\<lparr>csr_scause := t_scause ?r\<rparr>) = Inr (handler_regs ?r (sscratch s),
      s\<lparr>csr_scause := SCAUSE_USER_ECALL, frames := (frames s)(sscratch s \<mapsto> saved_frame ?r (sscratch s) f)\<rparr>)"
    using trap_save_user [of ?r "s\<lparr>csr_scause := t_scause ?r\<rparr>" f] cr f v by simp
  moreover have "xs (handler_regs ?r (sscratch s)) ! 10 = sscratch s" "xs (handler_regs ?r (sscratch s)) ! 4 = tp s"
    using cr(1,4) v(4) by (simp_all add: handler_regs_def)
  moreover have "rbind (syscall_handler p (call_state num a0 a1 a2 r f s)) (trap_end L) = Inr s'"
    using h sch by (simp add: trap_end_def)
  ultimately have "user_trap L ?r s = Inr (None, s')"
    using trap_handler_call [OF u f, of L num a0 a1 a2] sch(2) v(2) by (simp add: user_trap_def)
  then show ?thesis by (simp add: syscall_def ecall_def call_regs_def)
qed


section \<open>Sleeping alone\<close>

text \<open>A timer interrupt on the idle hart, as \<open>idle_trap_vector\<close> hands it to the handler, and several of
  them. While the hart idles, \<^verbatim>\<open>tp\<close> is the kernel's.\<close>

definition timer_cause :: ulong where "timer_cause = SCAUSE_IRQ_BIT OR SCAUSE_TIMER_INTERRUPT"

definition idle_tick :: "symbols \<Rightarrow> 'z kernel_scheme \<Rightarrow> 'z kernel_scheme kres" where
  "idle_tick L s = trap_handler L (tp s) timer_cause (s\<lparr>csr_scause := timer_cause\<rparr>)"

fun idle_ticks :: "nat \<Rightarrow> symbols \<Rightarrow> 'z kernel_scheme \<Rightarrow> 'z kernel_scheme kres" where
  "idle_ticks 0 L s = Inr s"
| "idle_ticks (Suc n) L s = rbind (idle_tick L s) (idle_ticks n L)"

text \<open>The hart idles, and process \<open>p\<close>, with structure \<open>w\<close>, is the only one; it sleeps.\<close>

definition waiting :: "symbols \<Rightarrow> 'z kernel_scheme \<Rightarrow> ulong \<Rightarrow> proc \<Rightarrow> bool" where
  "waiting L s p w \<longleftrightarrow> queues s [] [p] \<and> cpu_proc s = my_idle L s \<and> my_idle L s \<noteq> 0 \<and>
     (\<exists>iv. procs s (my_idle L s) = Some iv \<and> is_idle iv \<noteq> 0) \<and> procs s p = Some w \<and> needs_sched s = 0"

lemma idle_tick_timer:
  assumes "waiting L s p w"
  shows "idle_tick L s = rbind (timer_handle (s\<lparr>csr_scause := timer_cause\<rparr>)) (trap_end L)"
  using assms by (auto simp: waiting_def idle_tick_def trap_handler_def Let_def heap_access timer_cause_def scause_defs)

lemma idle_tick_early:
  assumes w: "waiting L s p w" and early: "time_at s (Suc (time_reads s)) < sleep_until w"
  shows "\<exists>s'. idle_tick L s = Inr s' \<and> waiting L s' p w \<and> time_at s' = time_at s \<and>
     time_reads s' = Suc (Suc (time_reads s)) \<and> frames s' = frames s \<and> m_hart s' = m_hart s"
proof -
  let ?s = "s\<lparr>csr_scause := timer_cause\<rparr>"
  have v: "queues s [] [p]" "cpu_proc s = my_idle L s" "procs s p = Some w" "needs_sched s = 0"
    using w by (auto simp: waiting_def)
  have Q: "queues ?s [] [p]" by (rule queues_cong [OF v(1)]) simp_all
  have nd: "\<forall>q \<in> set [p]. \<not> due ?s (time_at ?s (Suc (time_reads ?s))) q" using early v(3) by (simp add: due_def not_le)
  obtain h where h: "timer_handle ?s = Inr (?s\<lparr>time_reads := Suc (Suc (time_reads s)),
       stimecmp := time_at s (time_reads s) + TIMER_INTERVAL, nodes := h\<rparr>)" "queues (?s\<lparr>nodes := h\<rparr>) [] [p]"
    using timer_handle_nobody [OF Q nd] by auto
  let ?t = "?s\<lparr>time_reads := Suc (Suc (time_reads s)),
       stimecmp := time_at s (time_reads s) + TIMER_INTERVAL, nodes := h\<rparr>"
  have "queues ?t [] [p]" by (rule queues_cong [OF h(2)]) simp_all
  then have "waiting L ?t p w" using w by (simp add: waiting_def)
  moreover have "idle_tick L s = Inr ?t" using idle_tick_timer [OF w] h(1) v(4) by (simp add: trap_end_def)
  ultimately show ?thesis by simp
qed

lemma idle_ticks_early:
  "\<lbrakk>waiting L s p w; \<forall>j < k. time_at s (Suc (time_reads s) + 2 * j) < sleep_until w\<rbrakk> \<Longrightarrow>
   \<exists>s'. idle_ticks k L s = Inr s' \<and> waiting L s' p w \<and> time_at s' = time_at s \<and>
     time_reads s' = time_reads s + 2 * k \<and> frames s' = frames s \<and> m_hart s' = m_hart s"
proof (induction k arbitrary: s)
  case (Suc k)
  have "time_at s (Suc (time_reads s)) < sleep_until w" using spec [OF Suc.prems(2), of 0] by simp
  then obtain t where t: "idle_tick L s = Inr t" "waiting L t p w" "time_at t = time_at s"
      "time_reads t = Suc (Suc (time_reads s))" "frames t = frames s" "m_hart t = m_hart s"
    using idle_tick_early [OF Suc.prems(1)] by blast
  have "\<forall>j < k. time_at t (Suc (time_reads t) + 2 * j) < sleep_until w"
    unfolding t(3,4) using Suc.prems(2) by (auto dest: spec [of _ "Suc _"])
  from Suc.IH [OF t(2) this] t show ?case by auto
qed simp

lemma idle_tick_wakes:
  assumes w: "waiting L s p w" and late: "sleep_until w \<le> time_at s (Suc (time_reads s))"
  shows "\<exists>s'. idle_tick L s = Inr s' \<and> cpu_proc s' = p \<and> hart_ctx s' = ctx w \<and> sscratch s' = p_tf w \<and>
     queues s' [] [] \<and> in_state s' RUNNING p \<and> frames s' = frames s"
proof -
  let ?s = "s\<lparr>csr_scause := timer_cause\<rparr>" and ?w = "w\<lparr>p_state := RUNNABLE\<rparr>"
  obtain iv where v: "queues s [] [p]" "cpu_proc s = my_idle L s" "procs s p = Some w"
      "procs s (my_idle L s) = Some iv" "is_idle iv \<noteq> 0"
    using w by (auto simp: waiting_def)
  have ni: "is_idle w = 0" using queuesD(5) [OF v(1), of p] v(3) by (simp add: in_state_def)
  then have p: "p \<noteq> my_idle L s" using v(3-5) by auto
  have Q: "queues ?s [] [p]" by (rule queues_cong [OF v(1)]) simp_all
  have d: "due ?s (time_at ?s (Suc (time_reads ?s))) p" using late v(3) by (simp add: due_def)
  obtain h where h: "timer_handle ?s = Inr (?s\<lparr>time_reads := Suc (Suc (time_reads s)),
       stimecmp := time_at s (time_reads s) + TIMER_INTERVAL, nodes := h,
       procs := woken ?s (time_at s (Suc (time_reads s))) [p], needs_sched := 1\<rparr>)"
     "queues (?s\<lparr>nodes := h, procs := woken ?s (time_at s (Suc (time_reads s))) [p]\<rparr>) [p] []"
    using timer_handle_ok [OF Q] d by auto
  let ?t = "?s\<lparr>time_reads := Suc (Suc (time_reads s)), stimecmp := time_at s (time_reads s) + TIMER_INTERVAL,
       nodes := h, procs := woken ?s (time_at s (Suc (time_reads s))) [p], needs_sched := 0\<rparr>"
  have Qt: "queues ?t [p] []" by (rule queues_cong [OF h(2)]) simp_all
  have pt: "procs ?t p = Some ?w" "procs ?t (cpu_proc ?t) = Some iv" "cpu_proc ?t \<noteq> p"
    using d v p by (auto simp: woken_def)
  obtain h' where "schedule L ?t = Inr (switched L p ?w (cpu_proc ?t) iv h' ?t)"
      "queues (switched L p ?w (cpu_proc ?t) iv h' ?t) [] []"
    using schedule_next [OF Qt pt, of L] v(5) by auto
  moreover have "idle_tick L s = schedule L ?t" using idle_tick_timer [OF w] h(1) by (simp add: trap_end_def)
  ultimately show ?thesis using ni pt(3) by (auto simp: switched_def in_state_def)
qed

text \<open>The call that puts the only process to sleep: the hart goes idle, the process waits with its
  registers in its context and the result 0 in its frame.\<close>

lemma user_sleep_waits:
  assumes u: "in_user s p r" and abs: "sched_abs L s p [] []" and i: "my_idle L s \<noteq> 0" "p \<noteq> my_idle L s"
    and ms: "ms \<noteq> 0" "ms \<le> MAX_SLEEP_MS" and f: "frames s (sscratch s) = Some f"
  shows "\<exists>s1 w. user_sleep L ms r s = Inr (None, s1) \<and> ra (hart_ctx s1) = sym_idle_loop L \<and>
     waiting L (idle_loop L s1) p w \<and> p_state w = SLEEPING \<and> ctx w = hart_ctx s \<and> p_tf w = sscratch s \<and>
     sleep_until w = time_at s (time_reads s) + MS_TO_TIME ms \<and> my_idle L s1 = my_idle L s \<and>
     time_at s1 = time_at s \<and> time_reads s1 = Suc (time_reads s) \<and>
     frames s1 (sscratch s) = Some ((call_frame 6 ms 0 0 r (sscratch s) f)\<lparr>regs :=
        (regs (call_frame 6 ms 0 0 r (sscratch s) f))[10 := 0]\<rparr>)"
proof -
  obtain v iv where v: "procs s p = Some v" "is_idle v = 0" "p_tf v = sscratch s" "cpu_proc s = p"
      "length (xs r) = 32" "needs_sched s = 0" and iv: "procs s (my_idle L s) = Some iv" "is_idle iv \<noteq> 0"
      and Q: "queues s [] []" "off_queues s [] [] p"
    using u abs i(2) by (auto simp: in_user_def sched_abs_def)
  let ?g = "call_frame 6 ms 0 0 r (sscratch s) f" and ?c = "call_state 6 ms 0 0 r f s"
  let ?w = "v\<lparr>p_state := SLEEPING, sleep_until := time_at s (time_reads s) + MS_TO_TIME ms\<rparr>"
  have cf: "procs ?c = procs s" "tp ?c = tp s" "nodes ?c = nodes s" "time_at ?c = time_at s" "time_reads ?c = time_reads s"
    "frames ?c (sscratch s) = Some ?g" "cpu_proc ?c = p" "m_hart ?c = m_hart s" "hart_ctx ?c = hart_ctx s"
    using v(4) by (simp_all add: call_state_def)
  have Qc: "queues ?c [] []" "off_queues ?c [] [] p"
    by (rule queues_cong [OF Q(1)], simp_all add: cf) (rule off_queues_cong [OF Q(2)], simp_all add: cf)
  obtain h where h: "sys_sleep_ms (tp ?c) p ms ?c = Inr (0, (moved h p ?w ?c)\<lparr>time_reads := Suc (time_reads s)\<rparr>)"
      "queues ((moved h p ?w ?c)\<lparr>time_reads := Suc (time_reads s)\<rparr>) [] [p]"
    using sys_sleep_ms_ok [OF Qc, of v ms] v(1,2) ms by (auto simp: cf)
  let ?z = "(moved h p ?w ?c)\<lparr>time_reads := Suc (time_reads s),
      frames := (frames ?c)(sscratch s \<mapsto> ?g\<lparr>regs := (regs ?g)[10 := 0]\<rparr>), needs_sched := 1\<rparr>"
  note c = syscall_handler_call [OF u f v(1)]
  have z: "syscall_handler p ?c = Inr ?z"
    using h(1) cf(2,6)
    by (simp add: syscall_handler_def c(1,2) v(3) Let_def call_frame_facts(1,2) [OF v(5)] c_int_def syscall_numbers
        set_a0_def upd_frame_def get_frame_def)
  let ?t = "?z\<lparr>needs_sched := 0\<rparr>"
  have Qt: "queues ?t [] [p]" by (rule queues_cong [OF h(2)]) simp_all
  have t: "cpu_proc ?t = p" "procs ?t p = Some ?w" "m_hart ?t = m_hart s" "procs ?t (my_idle L s) = Some iv"
      "hart_ctx ?t = hart_ctx s"
    using cf i(2) iv by simp_all
  have ot: "procs ?t (cpu_proc ?t) = Some ?w" unfolding t(1) by (rule t(2))
  have iw: "is_idle ?w = 0" using v(2) by simp
  have it: "procs ?t (idle_proc L (cpu_id (m_hart ?t))) = Some iv" unfolding t(3) by (rule t(4))
  let ?s1 = "to_idle L iv p ?w ?t"
  have sc: "schedule L ?t = Inr ?s1" "queues ?s1 [] [p]"
    by (rule schedule_none [OF Qt ot iw it iv(2), unfolded t(1)])+
  have s1: "cpu_proc ?s1 = my_idle L s" "m_hart ?s1 = m_hart s" "procs ?s1 p = Some (?w\<lparr>ctx := hart_ctx s\<rparr>)"
      "\<exists>iv. procs ?s1 (my_idle L s) = Some iv \<and> is_idle iv \<noteq> 0" "needs_sched ?s1 = 0" "time_at ?s1 = time_at s"
      "time_reads ?s1 = Suc (time_reads s)" "ra (hart_ctx ?s1) = sym_idle_loop L"
      "frames ?s1 (sscratch s) = Some (?g\<lparr>regs := (regs ?g)[10 := 0]\<rparr>)"
    using t i(2) iv cf by (simp_all add: to_idle_def Let_def)
  have "user_sleep L ms r s = Inr (None, ?s1)"
    using syscall_switches [OF u f z _ sc(1)] s1(1) i(2) ms
    by (simp add: user_sleep_def syscall1_def SYS_sleep_ms_def MAX_SLEEP_MS_def not_less)
  moreover have "queues (idle_loop L ?s1) [] [p]" by (rule queues_cong [OF sc(2)]) (simp_all add: idle_loop_def)
  then have "waiting L (idle_loop L ?s1) p (?w\<lparr>ctx := hart_ctx s\<rparr>)"
    using s1 i(1) by (simp add: waiting_def idle_loop_def)
  ultimately show ?thesis
    using s1 v(3) by (intro exI [of _ ?s1] exI [of _ "?w\<lparr>ctx := hart_ctx s\<rparr>"]) simp
qed


section \<open>Concrete traps\<close>

text \<open>The sample hart with a trap frame for its running process.\<close>

definition user_sample :: "ulong list \<Rightarrow> kernel" where
  "user_sample run = (sample_kernel run)\<lparr>frames := [0x9000 \<mapsto> frame_zero], sscratch := 0x9000,
     procs := sample_procs(0x2000 \<mapsto> proc_zero\<lparr>pid := 1, p_state := RUNNING, p_tf := 0x9000\<rparr>)\<rparr>"

definition sample_regs :: trap_regs where
  "sample_regs = \<lparr>xs = (replicate 32 7)[0 := 0, 4 := 0x1000], t_sepc = 0x100, t_sstatus = 0,
     t_scause = SCAUSE_IRQ_BIT OR SCAUSE_TIMER_INTERRUPT, t_stval = 0\<rparr>"

lemma sample_in_user: "in_user (user_sample run) 0x2000 sample_regs"
  by (simp add: in_user_def user_sample_def sample_regs_def sample_kernel_fields frame_zero_def proc_zero_def
      sample_kernel_def sample_with_def)

lemma sample_user_sched:
  "sched_abs sample_symbols (user_sample [0x3000]) 0x2000 [0x3000] []" "my_idle sample_symbols (user_sample run) = 0x5000"
proof -
  show i: "my_idle sample_symbols (user_sample run) = 0x5000" for run
    using sample_idle [of run] by (simp add: user_sample_def)
  have "queues (user_sample [0x3000]) [0x3000] []"
    by (rule queues_cong [OF sample_queues(1)]) (simp_all add: user_sample_def sample_kernel_fields)
  moreover have "off_queues (user_sample [0x3000]) [0x3000] [] 0x2000"
    by (rule off_queues_cong [OF sample_off(1)]) (simp_all add: user_sample_def)
  ultimately show "sched_abs sample_symbols (user_sample [0x3000]) 0x2000 [0x3000] []"
    using i [of "[0x3000]"]
    by (simp add: sched_abs_def in_state_def user_sample_def sample_kernel_fields sample_procs_def proc_zero_def)
qed

theorem timer_interrupt_registers_witness:
  "\<exists>r' s'. user_trap sample_symbols sample_regs (user_sample [0x3000]) = Inr (Some r', s') \<and>
     xs r' ! 5 = 0 \<and> xs r' ! 7 = 7 \<and> t_sepc r' = 0x100"
proof -
  from timer_interrupt_registers [OF sample_in_user sample_user_sched(1)]
  obtain r' s' where "user_trap sample_symbols sample_regs (user_sample [0x3000]) = Inr (Some r', s')"
    "xs r' = (xs sample_regs)[5 := 0, 6 := t_scause sample_regs]" "t_sepc r' = t_sepc sample_regs"
    unfolding sample_user_sched(2) by (auto simp: sample_regs_def)
  then show ?thesis by (auto simp: sample_regs_def)
qed


theorem getpid_returns_pid_witness:
  "\<exists>r' s'. user_getpid sample_symbols sample_regs (user_sample []) = Inr (Some (1, r'), s') \<and> t_sepc r' = 0x104"
proof -
  have "procs (user_sample []) 0x2000 = Some (proc_zero\<lparr>pid := 1, p_state := RUNNING, p_tf := 0x9000\<rparr>)"
    by (simp add: user_sample_def)
  from getpid_returns_pid [OF sample_in_user this, of sample_symbols] show ?thesis
    by (auto simp: returned_def sample_regs_def)
qed

theorem unknown_syscall_witness:
  "\<exists>r' s'. syscall sample_symbols 42 0 0 0 0 0 0 sample_regs (user_sample []) = Inr (Some (-1, r'), s')"
proof -
  have "c_int 42 \<notin> {1..8}" by (simp add: c_int_def)
  from unknown_syscall_rejected [OF sample_in_user this, of sample_symbols 0 0 0] show ?thesis by blast
qed

theorem foreign_tp_witness:
  "user_trap sample_symbols (sample_regs\<lparr>xs := (xs sample_regs)[4 := 7]\<rparr>) (user_sample []) = Inl (Fault 31)"
proof -
  have "frames (user_sample []) (sscratch (user_sample [])) = Some frame_zero" "tp (user_sample []) = 0x1000"
    by (simp_all add: user_sample_def sample_kernel_fields)
  then show ?thesis
    using foreign_tp_faults [of "sample_regs\<lparr>xs := (xs sample_regs)[4 := 7]\<rparr>" "user_sample []" frame_zero]
    by (simp add: sample_regs_def frame_zero_def cpu_proc_offset_def)
qed


end
