(* ===== verification/Syscall_Props.thy ===== *)
theory Syscall_Props
  imports Fresh_Page Paging_Props Trap_Props
begin

text \<open>
  The properties of the system calls that touch memory: the heap calls fault on the page table of a
  process, \<open>sys_write\<close> prints the caller's bytes, and \<open>copy_to_user\<close> changes only memory the
  caller may write itself.
\<close>

section \<open>The heap\<close>

lemma chain_head: "chain pa PS p is \<Longrightarrow> p \<noteq> 0 \<Longrightarrow> \<exists>i \<in> set is. p = slot_ptr pa i"
  by (cases "is") auto

text \<open>An allocation on a page table that maps no page structure: the first access to the structure of a
  free block faults; without a free block nothing is accessed.\<close>

lemma alloc_page_in_faults:
  fixes s :: "'z paging_scheme"
  assumes inv: "buddy_inv A s" and lk: "lock_ready BuddyLock s"
    and arr: "\<forall>i < unat (num_pages s). \<not> kernel_access s PTE_W (PHYS_TO_VIRT s (slot_ptr (page_array s) i))"
  shows "if \<forall>k \<le> 10. free_lists s ! k = 0 then alloc_page_in s = Inr (0, s\<lparr>m_hart := settled (m_hart s)\<rparr>)
    else \<exists>i < unat (num_pages s). alloc_page_in s = Inl (Fault (PHYS_TO_VIRT s (slot_ptr (page_array s) i)))"
proof -
  obtain fl where fl: "bstate s fl A {}" using inv by (auto simp: buddy_inv_def)
  have len: "length (free_lists s) = 11" using fl by (simp add: binv_def)
  have lock: "spin_lock BuddyLock s = Inr (s\<lparr>m_hart := irq_save (m_hart s), m_locks := (m_locks s)(BuddyLock := 1)\<rparr>)"
    using lk by (simp add: lock_ready_def spin_lock_free)
  let ?used = "filter (\<lambda>k. free_lists s ! k \<noteq> 0) [0..<length (free_lists s)]"
  show ?thesis
  proof (cases "\<forall>k \<le> 10. free_lists s ! k = 0")
    case True
    then have "?used = []" using len by (auto simp: filter_empty_conv)
    then have "alloc_slots s = []" by (simp add: alloc_slots_def)
    then show ?thesis using True alloc_pages_exhausted [OF lk _ len, of 0] lock
      by (simp add: alloc_page_in_def alloc_page_def)
  next
    case False
    then obtain k where "k \<le> 10" "free_lists s ! k \<noteq> 0" by blast
    then have "k \<in> set ?used" using len by simp
    then obtain ord rest where u: "?used = ord # rest" by (cases ?used) auto
    then have "ord \<in> set ?used" by simp
    then have o: "ord < 11" "free_lists s ! ord \<noteq> 0" using len by auto
    obtain i where j: "i \<in> set (fl ord)" "free_lists s ! ord = slot_ptr (page_array s) i"
      using chain_head [OF binv_chainD [OF fl o(1)] o(2)] by blast
    then have i: "i < unat (num_pages s)" using tiling_start_bound [OF binv_tilingD [OF fl], of i ord] o(1)
      by (simp add: freeset_def)
    have "\<exists>vas. alloc_slots s = PHYS_TO_VIRT s (slot_ptr (page_array s) i) # vas"
      unfolding alloc_slots_def u by (simp add: j(2) Let_def)
    then have "alloc_page_in s = Inl (Fault (PHYS_TO_VIRT s (slot_ptr (page_array s) i)))"
      using arr i lock by (auto simp: alloc_page_in_def)
    then show ?thesis using False i by auto
  qed
qed

lemma unmap_page_in_faults:
  assumes "\<not> kernel_access s PTE_R (pte_at (PHYS_TO_VIRT s root) (vpn_level va 2))"
  shows "unmap_page_in root va s = Inl (Fault (pte_at (PHYS_TO_VIRT s root) (vpn_level va 2)))"
  using assms by (simp add: unmap_page_in_def walk_in_def numeral_2_eq_2 Let_def)

lemma for_pages_first:
  assumes "start < end_va"
  shows "body start s = Inl e \<Longrightarrow> for_pages start end_va body s = Inl e"
    "body start s = Inr (False, s') \<Longrightarrow> for_pages start end_va body s = Inr (False, s')"
  using assms by (simp_all add: for_pages_def page_loop.simps)


text \<open>A process with an empty page table in a page below the allocator's.\<close>

definition sbrk_sample :: kernel where
  "sbrk_sample = (sample_kernel [])\<lparr>procs := sample_procs(0x2000 \<mapsto>
     proc_zero\<lparr>pid := 1, p_state := RUNNING, p_pagetable := 0x87000000, heap_start := 0x1000, heap_end := 0x1000\<rparr>)\<rparr>"

lemma sample_empty_space:
  "pt_space 0x87000000 sbrk_sample {0x87000000} [[] \<mapsto> 0x87000000]"
  "pt_lookup (m_mem sbrk_sample) 0x87000000 va = None" "pages_left 512 sbrk_sample"
proof -
  let ?z = "\<lparr>satp = 0, caches = [], nodes = sample_nodes [], procs = sample_procs(0x2000 \<mapsto>
     proc_zero\<lparr>pid := 1, p_state := RUNNING, p_pagetable := 0x87000000, heap_start := 0x1000, heap_end := 0x1000\<rparr>),
     frames = Map.empty, next_pid = 2, tp = 0x1000, needs_sched = 0, cpu_proc = 0x2000,
     hart_ctx = context_zero\<lparr>ra := 0x1234\<rparr>, stvec = 0, sscratch = 0, stimecmp = 0, csr_scause = 0,
     time_at = (\<lambda>n. of_nat n * 1000000000), time_reads = 0\<rparr>"
  have e: "sbrk_sample = sample_with ?z VA_OFFSET"
    by (simp add: sbrk_sample_def sample_kernel_def sample_with_def)
  have ok: "page_ok 0x87000000" by (simp add: page_ok_def)
  have z: "tab (m_mem sbrk_sample) 0x87000000 i = 0" if "i < 512" for i
    unfolding e tab_def by (rule mem_get64_zero) (simp add: sample_with_def)
  note w = empty_table_wf [OF ok z]
  have "pages_own {0x87000000} sbrk_sample"
    unfolding e by (rule pages_own_static [OF sample_pages]) (simp add: static_page_def ok sample_with_def)
  then show "pt_space 0x87000000 sbrk_sample {0x87000000} [[] \<mapsto> 0x87000000]"
    unfolding pt_space_def using w(1) by (simp add: linear_map_def e sample_fields)
  show "pt_lookup (m_mem sbrk_sample) 0x87000000 va = None" using pt_lookup_tree [OF w(1)] w(2) by simp
  show "pages_left 512 sbrk_sample"
    unfolding pages_left_def e using sample_inv [of ?z VA_OFFSET]
    by (intro exI [of _ "{(0, 9)}"]) (simp add: sample_with_def span_def)
qed

text \<open>The same process, running on its page table.\<close>

definition heap_sample :: kernel where
  "heap_sample = sbrk_sample\<lparr>satp := MAKE_SATP 0x87000000\<rparr>"

lemma heap_sample_facts:
  "buddy_inv {(0, 9)} heap_sample" "lock_ready BuddyLock heap_sample" "va_offset heap_sample = VA_OFFSET"
  "num_pages heap_sample = 1024" "page_array heap_sample = 0x87BFC000" "free_lists heap_sample ! 9 \<noteq> 0"
  "pt_lookup (m_mem heap_sample) (satp_root (satp heap_sample)) va = None"
proof -
  have "buddy_inv {(0, 9)} sbrk_sample"
    using sample_inv [of "buddy.more sbrk_sample" VA_OFFSET]
    by (simp add: sbrk_sample_def sample_kernel_def sample_with_def)
  then show "buddy_inv {(0, 9)} heap_sample" by (simp add: heap_sample_def buddy_inv_def buddy_static_def)
  have "satp_root (satp heap_sample) = 0x87000000"
    by (simp add: satp_root_def heap_sample_def MAKE_SATP_def SATP_MODE_SV39_def PAGE_SHIFT_def)
  then show "pt_lookup (m_mem heap_sample) (satp_root (satp heap_sample)) va = None"
    using sample_empty_space(2) by (simp add: heap_sample_def)
qed (simp_all add: heap_sample_def sbrk_sample_def sample_kernel_def sample_with_def lock_ready_def sample_hart_def)


section \<open>Writing to the console\<close>

lemma read_user_bytes:
  "(\<And>k. k < n \<Longrightarrow> user_pa s PTE_R (va + of_nat k) = Inr (pa k)) \<Longrightarrow>
   read_user s va n = Inr (map (\<lambda>k. m_mem s (pa k)) [0..<n])"
proof (induction n arbitrary: va pa)
  case (Suc n)
  have "read_user s (va + 1) n = Inr (map (\<lambda>k. m_mem s (pa (Suc k))) [0..<n])"
    using Suc.prems [of "Suc _"] by (intro Suc.IH) (simp add: algebra_simps)
  moreover have "map (\<lambda>k. m_mem s (pa k)) [0..<Suc n] = m_mem s (pa 0) # map (\<lambda>k. m_mem s (pa (Suc k))) [0..<n]"
    by (simp add: upt_conv_Cons map_Suc_upt [symmetric] del: upt_Suc)
  ultimately show ?case using Suc.prems [of 0] by simp
qed simp

text \<open>The bytes of a call of \<open>sys_write\<close>: at most 64 and up to the first zero byte.\<close>

definition clamp :: "uint \<Rightarrow> uint" where
  "clamp len = (if MAXLEN < len then MAXLEN else len)"

definition user_text :: "'z machine_scheme \<Rightarrow> (nat \<Rightarrow> ulong) \<Rightarrow> nat \<Rightarrow> byte list" where
  "user_text s pa n = takeWhile (\<lambda>c. c \<noteq> 0) (map (\<lambda>k. m_mem s (pa k)) [0..<n])"

lemma clamp_le: "unat (clamp len) \<le> 64"
  by (simp add: clamp_def MAXLEN_def word_le_nat_alt word_less_nat_alt not_less)

lemma user_text_le: "length (user_text s pa n) \<le> n"
  unfolding user_text_def by (rule order_trans [OF length_takeWhile_le]) simp

lemma uart_putsn_text:
  assumes "length bs = unat len" "unat len \<le> 64"
  shows "uart_putsn bs (ucast (len :: uint)) s = Inr (of_nat (length (takeWhile (\<lambda>c. c \<noteq> 0) bs)),
     s\<lparr>uart_out := uart_out s @ takeWhile (\<lambda>c. c \<noteq> 0) bs\<rparr>)"
proof -
  show ?thesis using uart_putsn_loop_prefix [of "ucast len" bs 0 s] assms by (simp add: uart_putsn_def)
qed

lemma scast_small: "n \<le> 64 \<Longrightarrow> (scast (ucast (of_nat n :: ulong) :: uint) :: ulong) = of_nat n"
proof -
  assume n: "n \<le> 64"
  have u: "(ucast (of_nat n :: ulong) :: uint) = of_nat n"
    using n by (simp add: word_unat_eq_iff unsigned_ucast_eq unat_of_nat32 unat_of_nat64 take_bit_nat_eq_self)
  have "unat (of_nat n :: uint) = n" using n by (simp add: unat_of_nat32)
  then have "sint (of_nat n :: uint) = int n" using n sint_small32 [of "of_nat n :: uint"] by simp
  then show ?thesis unfolding u by (simp add: scast_eq)
qed

lemma sys_write_prints:
  assumes lk: "lock_ready UartLock s"
    and pa: "\<And>k. k < unat (clamp len) \<Longrightarrow> user_pa (set_sum s) PTE_R (buf + of_nat k) = Inr (pa k)"
    and True: "(fd = 1 \<or> fd = 2) \<and> is_user_addr buf (clamp len)"
  shows "\<exists>s'. sys_write fd buf len s = Inr (of_nat (length (user_text s pa (unat (clamp len)))), s') \<and>
     uart_out s' = uart_out s @ user_text s pa (unat (clamp len)) \<and> m_mem s' = m_mem s \<and>
     m_locks s' = m_locks s \<and> csr_sstatus (m_hart s') AND SSTATUS_SUM = 0"
proof -
  let ?n = "unat (clamp len)" and ?t = "clear_sum (set_sum s)"
  let ?bs = "map (\<lambda>k. m_mem s (pa k)) [0..<?n]" and ?out = "user_text s pa ?n"
  have "read_user (set_sum s) buf ?n = Inr (map (\<lambda>k. m_mem (set_sum s) (pa k)) [0..<?n])"
    by (rule read_user_bytes [OF pa])
  then have c: "copy_from_user buf (clamp len) s = Inr (0, ?bs, ?t)"
    using True by (simp add: copy_from_user_def Let_def) (simp add: set_sum_def)
  have l: "m_locks ?t UartLock = 0" "lock_depth (m_hart ?t) + 1 \<noteq> 0"
    using lk by (simp_all add: lock_ready_def set_sum_def clear_sum_def)
  let ?u = "?t\<lparr>m_hart := irq_save (m_hart ?t), m_locks := (m_locks ?t)(UartLock := 1)\<rparr>"
  have lock: "spin_lock UartLock ?t = Inr ?u" by (rule spin_lock_free [OF l(1)])
  have put: "uart_putsn ?bs (ucast (clamp len)) ?u = Inr (of_nat (length ?out), ?u\<lparr>uart_out := uart_out ?u @ ?out\<rparr>)"
    using uart_putsn_text [of ?bs "clamp len" ?u] clamp_le by (simp add: user_text_def)
  let ?w = "?u\<lparr>uart_out := uart_out ?u @ ?out\<rparr>"
  have unlock: "spin_unlock UartLock ?w = Inr (?w\<lparr>m_hart := settled (m_hart ?t), m_locks := (m_locks ?w)(UartLock := 0)\<rparr>)"
    by (rule spin_unlock_after [OF l(2)]) simp
  have len: "length ?out \<le> 64" using user_text_le [of s pa ?n] clamp_le [of len] by simp
  have fd: "\<not> (fd \<noteq> 1 \<and> fd \<noteq> 2)" using True by blast
  have run: "sys_write fd buf len s = Inr (of_nat (length ?out),
      ?w\<lparr>m_hart := settled (m_hart ?t), m_locks := (m_locks ?w)(UartLock := 0)\<rparr>)"
    unfolding sys_write_def if_not_P [OF fd] Let_def clamp_def [symmetric]
    using c lock put unlock scast_small [OF len] by simp
  have "(m_locks s)(UartLock := 0) = m_locks s" using lk by (auto simp: lock_ready_def)
  moreover have "csr_sstatus (m_hart ?t) AND SSTATUS_SUM = 0"
    by (simp add: clear_sum_def clear_csr_def SSTATUS_SUM_def bit_eq_iff bit_simps)
  ultimately show ?thesis using run True
    by (simp add: settled_def) (simp add: clear_sum_def set_sum_def)
qed

text \<open>The test of \<open>is_user_addr\<close> on the length that is used.\<close>

lemma user_range:
  "is_user_addr buf (clamp len) \<longleftrightarrow> unat (clamp len) \<noteq> 0 \<and> unat buf + unat (clamp len) < 0x7800000"
proof -
  have "unat (ucast (clamp len) :: ulong) = unat (clamp len)" by (simp add: unsigned_ucast_eq take_bit_nat_eq_self)
  then show ?thesis
    by (auto simp: is_user_addr_def USER_END_VA_def word_less_nat_alt unat_sub_if' unat_eq_zero)
qed

lemma unat_clamp: "unat (clamp len) = min 64 (unat len)"
  by (simp add: clamp_def MAXLEN_def word_less_nat_alt min_def)

lemma read_user_fault:
  "\<lbrakk>k < n; \<And>j. j < k \<Longrightarrow> \<exists>q. user_pa s PTE_R (va + of_nat j) = Inr q; user_pa s PTE_R (va + of_nat k) = Inl e\<rbrakk> \<Longrightarrow>
   read_user s va n = Inl e"
proof (induction n arbitrary: va k)
  case (Suc n)
  show ?case
  proof (cases k)
    case 0
    then show ?thesis using Suc.prems by simp
  next
    case (Suc l)
    have "read_user s (va + 1) n = Inl e"
    proof (rule Suc.IH [of l])
      show "\<exists>q. user_pa s PTE_R (va + 1 + of_nat j) = Inr q" if "j < l" for j
        using Suc.prems(2) [of "Suc j"] that Suc by (simp add: algebra_simps)
    qed (use Suc.prems(1,3) Suc in \<open>simp_all add: algebra_simps\<close>)
    moreover obtain q where "user_pa s PTE_R va = Inr q" using Suc.prems(2) [of 0] Suc by auto
    ultimately show ?thesis by simp
  qed
qed simp

lemma user_pa_fault: "user_pa s perm va = Inr q \<or> user_pa s perm va = Inl (Fault va)" if "\<nexists>q. user_pa s perm va = Inr q"
  using that by (auto simp: user_pa_def split: option.splits if_splits)

text \<open>C27. \<open>sys_write\<close> uses at most 64 bytes of its buffer. On descriptor 1 or 2, with at least one byte
  and the bytes below the end of user memory: if the caller may read them all, it prints them up to the
  first zero byte, returns the number printed, and leaves memory and locks as they were and user access
  of the kernel closed; if not, the kernel faults at one it may not read. In every other case it
  returns -1 and changes nothing.\<close>

theorem sys_write_correct:
  fixes s :: "'z paging_scheme" and len :: uint
  assumes lk: "lock_ready UartLock s"
  defines "n \<equiv> min 64 (unat len)"
  shows "if (fd = 1 \<or> fd = 2) \<and> n \<noteq> 0 \<and> unat buf + n < 0x7800000
     then (\<forall>pa. (\<forall>k < n. user_pa (set_sum s) PTE_R (buf + of_nat k) = Inr (pa k)) \<longrightarrow>
            (\<exists>s'. sys_write fd buf len s = Inr (of_nat (length (user_text s pa n)), s') \<and>
              uart_out s' = uart_out s @ user_text s pa n \<and> m_mem s' = m_mem s \<and>
              m_locks s' = m_locks s \<and> csr_sstatus (m_hart s') AND SSTATUS_SUM = 0)) \<and>
          ((\<exists>k < n. \<nexists>q. user_pa (set_sum s) PTE_R (buf + of_nat k) = Inr q) \<longrightarrow>
            (\<exists>k < n. (\<nexists>q. user_pa (set_sum s) PTE_R (buf + of_nat k) = Inr q) \<and>
              sys_write fd buf len s = Inl (Fault (buf + of_nat k))))
     else sys_write fd buf len s = Inr (-1, s)"
proof (cases "(fd = 1 \<or> fd = 2) \<and> is_user_addr buf (clamp len)")
  case True
  have n: "n = unat (clamp len)" by (simp add: n_def unat_clamp)
  have cond: "(fd = 1 \<or> fd = 2) \<and> n \<noteq> 0 \<and> unat buf + n < 0x7800000"
    using True unfolding user_range n by blast
  have prints: "\<exists>s'. sys_write fd buf len s = Inr (of_nat (length (user_text s pa n)), s') \<and>
       uart_out s' = uart_out s @ user_text s pa n \<and> m_mem s' = m_mem s \<and>
       m_locks s' = m_locks s \<and> csr_sstatus (m_hart s') AND SSTATUS_SUM = 0"
    if "\<forall>k < n. user_pa (set_sum s) PTE_R (buf + of_nat k) = Inr (pa k)" for pa
    unfolding n by (rule sys_write_prints [OF lk _ True]) (use that n in blast)
  have faults: "\<exists>k < n. (\<nexists>q. user_pa (set_sum s) PTE_R (buf + of_nat k) = Inr q) \<and>
       sys_write fd buf len s = Inl (Fault (buf + of_nat k))"
    if "\<exists>k < n. \<nexists>q. user_pa (set_sum s) PTE_R (buf + of_nat k) = Inr q"
  proof -
    let ?bad = "\<lambda>k. k < n \<and> (\<nexists>q. user_pa (set_sum s) PTE_R (buf + of_nat k) = Inr q)"
    define k where "k = (LEAST k. ?bad k)"
    have k: "?bad k" unfolding k_def by (rule LeastI_ex [OF that])
    have e: "user_pa (set_sum s) PTE_R (buf + of_nat k) = Inl (Fault (buf + of_nat k))"
      using user_pa_fault k by blast
    have "\<exists>q. user_pa (set_sum s) PTE_R (buf + of_nat j) = Inr q" if "j < k" for j
      using not_less_Least [of j ?bad] that k unfolding k_def [symmetric] by (meson order.strict_trans)
    then have "read_user (set_sum s) buf n = Inl (Fault (buf + of_nat k))"
      using read_user_fault k e by blast
    then have "copy_from_user buf (clamp len) s = Inl (Fault (buf + of_nat k))"
      using True by (simp add: copy_from_user_def Let_def n)
    moreover have fd: "\<not> (fd \<noteq> 1 \<and> fd \<noteq> 2)" using True by blast
    ultimately have "sys_write fd buf len s = Inl (Fault (buf + of_nat k))"
      unfolding sys_write_def if_not_P [OF fd] Let_def clamp_def [symmetric] by simp
    then show ?thesis using k by blast
  qed
  show ?thesis unfolding if_P [OF cond] using prints faults by blast
next
  case False
  then have "\<not> ((fd = 1 \<or> fd = 2) \<and> n \<noteq> 0 \<and> unat buf + n < 0x7800000)"
    unfolding user_range n_def unat_clamp by blast
  then show ?thesis using False by (auto simp: sys_write_def copy_from_user_def clamp_def [symmetric] Let_def)
qed

section \<open>Writing user memory\<close>

text \<open>Pages with user permission are not tables of the same address space.\<close>

definition user_apart :: "'z paging_scheme \<Rightarrow> (nat list \<rightharpoonup> ulong) \<Rightarrow> bool" where
  "user_apart s N \<longleftrightarrow> (\<forall>va e. pt_lookup (m_mem s) (satp_root (satp s)) va = Some e \<and> e AND PTE_U \<noteq> 0 \<longrightarrow>
     (\<forall>q \<in> ran N. PTE2PA e OR (va AND 0xFFF) \<notin> page_cells q))"

lemma user_pa_cases:
  assumes "user_pa s perm va = Inr x"
  obtains e where "pt_lookup (m_mem s) (satp_root (satp s)) va = Some e" "e AND PTE_U \<noteq> 0" "e AND perm \<noteq> 0"
    "x = PTE2PA e OR (va AND 0xFFF)"
  using assms that by (auto simp: user_pa_def split: option.splits if_splits)

lemma write_user_confined:
  "\<lbrakk>pt_wf (m_mem s) P N; N [] = Some (satp_root (satp s)); user_apart s N; write_user va bs s = Inr s'\<rbrakk> \<Longrightarrow>
   (\<exists>m. s' = s\<lparr>m_mem := m\<rparr> \<and> pt_wf m P N \<and> (\<forall>vb. pt_lookup m (satp_root (satp s)) vb = pt_lookup (m_mem s) (satp_root (satp s)) vb) \<and>
      (\<forall>x. m x \<noteq> m_mem s x \<longrightarrow> (\<exists>k < length bs. user_pa s PTE_W (va + of_nat k) = Inr x)))"
proof (induction bs arbitrary: va s)
  case Nil
  then show ?case by (intro exI [of _ "m_mem s"]) simp
next
  case (Cons b bs)
  let ?r = "satp_root (satp s)"
  obtain pa where pa: "user_pa s PTE_W va = Inr pa" "write_user (va + 1) bs (s\<lparr>m_mem := (m_mem s)(pa := b)\<rparr>) = Inr s'"
    using Cons.prems(4) by (auto simp: rbind_def split: sum.splits)
  let ?m1 = "(m_mem s)(pa := b)" and ?s1 = "s\<lparr>m_mem := (m_mem s)(pa := b)\<rparr>"
  obtain e where e: "pt_lookup (m_mem s) ?r va = Some e" "e AND PTE_U \<noteq> 0" "pa = PTE2PA e OR (va AND 0xFFF)"
    using user_pa_cases [OF pa(1)] by blast
  have out: "?m1 x = m_mem s x" if "q \<in> ran N" "x \<in> page_cells q" for q x
    using Cons.prems(3) e that unfolding user_apart_def by auto
  have w: "pt_wf ?m1 P N" "leaf_of ?m1 N vb = leaf_of (m_mem s) N vb" for vb
    using pt_wf_outside [OF Cons.prems(1), of ?m1] out by blast+
  have lk: "pt_lookup ?m1 ?r vb = pt_lookup (m_mem s) ?r vb" for vb
    unfolding pt_lookup_tree [OF Cons.prems(1,2)] pt_lookup_tree [OF w(1) Cons.prems(2)] by (rule w(2))
  have up: "user_pa ?s1 perm vb = user_pa s perm vb" for perm vb by (simp add: user_pa_def lk split: option.splits)
  have ap: "user_apart ?s1 N" using Cons.prems(3) by (simp add: user_apart_def lk)
  obtain m where m: "s' = ?s1\<lparr>m_mem := m\<rparr>" "pt_wf m P N" "\<forall>vb. pt_lookup m ?r vb = pt_lookup ?m1 ?r vb"
      "\<forall>x. m x \<noteq> ?m1 x \<longrightarrow> (\<exists>k < length bs. user_pa ?s1 PTE_W (va + 1 + of_nat k) = Inr x)"
  proof -
    have f: "m_mem ?s1 = ?m1" "satp ?s1 = satp s" by simp_all
    have "pt_wf (m_mem ?s1) P N" "N [] = Some (satp_root (satp ?s1))"
      unfolding f by (rule w(1), rule Cons.prems(2))
    from Cons.IH [OF this ap pa(2)] show thesis using that unfolding f by blast
  qed
  have "\<exists>k < length (b # bs). user_pa s PTE_W (va + of_nat k) = Inr x" if ne: "m x \<noteq> m_mem s x" for x
  proof (cases "x = pa")
    case True
    then show ?thesis using pa(1) by (intro exI [of _ 0]) simp
  next
    case False
    then obtain k where "k < length bs" "user_pa s PTE_W (va + 1 + of_nat k) = Inr x"
      using spec [OF m(4), of x] ne unfolding up by auto
    then show ?thesis by (intro exI [of _ "Suc k"]) (simp add: algebra_simps)
  qed
  then show ?case using m(1-3) lk by (intro exI [of _ m]) simp
qed

text \<open>C28. \<open>copy_to_user\<close>, when it returns, has changed only bytes that the running process may
  write through its own page table at one of the \<open>len\<close> addresses from \<open>user_dst\<close> on, all of them
  below the end of user memory; every address translates as before, and the kernel's access
  to user memory is closed again unless the call was refused.\<close>

theorem copy_to_user_confined:
  assumes wf: "pt_wf (m_mem s) P N" "N [] = Some (satp_root (satp s))" and ap: "user_apart s N"
    and run: "copy_to_user user_dst kernel_src len s = Inr (ret, s')"
  shows "(\<forall>x. m_mem s' x \<noteq> m_mem s x \<longrightarrow> (\<exists>k < unat len. unat user_dst + k < unat USER_END_VA \<and>
            user_pa (set_sum s) PTE_W (user_dst + of_nat k) = Inr x)) \<and>
     (\<forall>va. pt_lookup (m_mem s') (satp_root (satp s')) va = pt_lookup (m_mem s) (satp_root (satp s)) va) \<and>
     pt_wf (m_mem s') P N \<and> (ret = 0 \<and> csr_sstatus (m_hart s') AND SSTATUS_SUM = 0 \<or> ret = -1 \<and> s' = s)"
proof (cases "is_user_addr user_dst len")
  case False
  then show ?thesis using run wf by (simp add: copy_to_user_def)
next
  case True
  then obtain t where t: "write_user user_dst (take (unat len) kernel_src) (set_sum s) = Inr t" "s' = clear_sum t" "ret = 0"
    using run by (auto simp: copy_to_user_def rbind_def split: sum.splits)
  have ss: "m_mem (set_sum s) = m_mem s" "satp (set_sum s) = satp s" by (simp_all add: set_sum_def)
  have ap': "user_apart (set_sum s) N" using ap by (simp add: user_apart_def ss)
  obtain m where m: "t = (set_sum s)\<lparr>m_mem := m\<rparr>" "pt_wf m P N"
      "\<forall>vb. pt_lookup m (satp_root (satp s)) vb = pt_lookup (m_mem s) (satp_root (satp s)) vb"
      "\<forall>x. m x \<noteq> m_mem s x \<longrightarrow> (\<exists>k < length (take (unat len) kernel_src). user_pa (set_sum s) PTE_W (user_dst + of_nat k) = Inr x)"
    using write_user_confined [OF _ _ ap' t(1)] wf unfolding ss by blast
  have b: "unat user_dst + unat len < unat USER_END_VA"
    using True by (auto simp: is_user_addr_def word_less_nat_alt unat_sub64 word_le_nat_alt)
  have f: "m_mem s' = m" "satp s' = satp s" using m(1) t(2) by (simp_all add: clear_sum_def set_sum_def)
  have "csr_sstatus (m_hart s') AND SSTATUS_SUM = 0"
    unfolding t(2) by (simp add: clear_sum_def clear_csr_def SSTATUS_SUM_def bit_eq_iff bit_simps)
  moreover have "\<exists>k < unat len. unat user_dst + k < unat USER_END_VA \<and> user_pa (set_sum s) PTE_W (user_dst + of_nat k) = Inr x"
    if "m x \<noteq> m_mem s x" for x
    using m(4) that b by (metis (no_types, lifting) add_less_cancel_left length_take min_less_iff_conj order.strict_trans)
  ultimately show ?thesis using m(2,3) t(3) by (simp add: f)
qed

section \<open>A process with one page of memory\<close>

text \<open>Address 0 translates to the page \<open>0x87C00000\<close>, readable and writable by the user, which holds
  a text.\<close>

definition user_mem :: "ulong \<Rightarrow> byte" where
  "user_mem = (mem_put64 sample_mem (pte_at 0x80202000 0) (leaf_pte 0x87C00000 0x16))
     (0x87C00000 := 72, 0x87C00001 := 105)"

definition memory_sample :: kernel where
  "memory_sample = (sample_kernel [])\<lparr>m_mem := user_mem, satp := MAKE_SATP 0x80200000\<rparr>"

lemma user_mem_tables:
  "pt_wf user_mem {0x80202000, 0x80201000, 0x80200000} sample_tree"
  "pt_lookup user_mem 0x80200000 va = (if same_page 0 va then Some (leaf_pte 0x87C00000 0x16) else None)"
proof -
  let ?m = "mem_put64 sample_mem (pte_at 0x80202000 0) (leaf_pte 0x87C00000 0x16)"
  have v: "vpn_level 0 l = 0" for l by (simp add: vpn_level_def)
  have q: "sample_tree (vpath 0 0) = Some 0x80202000" by (simp add: sample_tree_def vpath_simps v)
  note st = pt_leaf_store [OF sample_tables(1) q, of "leaf_pte 0x87C00000 0x16", unfolded v]
  have r: "ran sample_tree = {0x80200000, 0x80201000, 0x80202000}" by (auto simp: sample_tree_def ran_def)
  have out: "user_mem x = ?m x" if "p \<in> ran sample_tree" "x \<in> page_cells p" for p x
    using that unfolding r by (auto simp: user_mem_def page_cells_def)
  note w = pt_wf_outside [OF st(1), of user_mem]
  show wf: "pt_wf user_mem {0x80202000, 0x80201000, 0x80200000} sample_tree" using w(1) out by blast
  have none: "leaf_of sample_mem sample_tree va = None" if "\<not> same_page 0 va"
  proof -
    have z: "tab sample_mem 0x80202000 j = 0" if "0 < j" "j < 512" for j
    proof -
      have ok: "page_ok 0x80201000" "page_ok 0x80202000" by (simp_all add: page_ok_def)
      show ?thesis using that ok unfolding sample_mem_def
        by (simp add: tab_put_other) (simp add: tab_def pte_fill_same)
    qed
    show ?thesis
    proof (cases "vpath va 0 = [0, 0]")
      case True
      then have "vpn_level va 0 \<noteq> 0" using that by (auto simp: same_page_iff vpath_simps v)
      then show ?thesis using z [of "vpn_level va 0"] vpn_level_less [of va 0] True
        by (simp add: leaf_of_def sample_tree_def)
    next
      case False
      then have "sample_tree (vpath va 0) = None" by (simp add: sample_tree_def vpath_simps)
      then show ?thesis by (simp add: leaf_of_def)
    qed
  qed
  have "leaf_of user_mem sample_tree va = leaf_of ?m sample_tree va" using w(2) out by blast
  then show "pt_lookup user_mem 0x80200000 va = (if same_page 0 va then Some (leaf_pte 0x87C00000 0x16) else None)"
    using pt_lookup_tree [OF wf sample_tables(3)] st(2) [of va] none by simp
qed

lemma memory_sample_pa:
  assumes "k < 16"
  shows "perm \<in> {PTE_R, PTE_W} \<Longrightarrow> user_pa (set_sum memory_sample) perm (0 + of_nat k) = Inr (0x87C00000 + of_nat k)"
proof -
  assume perm: "perm \<in> {PTE_R, PTE_W}"
  have root: "satp_root (satp memory_sample) = 0x80200000"
    by (simp add: satp_root_def memory_sample_def MAKE_SATP_def SATP_MODE_SV39_def PAGE_SHIFT_def)
  have k: "k = 0 \<or> k = 1 \<or> k = 2 \<or> k = 3 \<or> k = 4 \<or> k = 5 \<or> k = 6 \<or> k = 7 \<or> k = 8 \<or> k = 9 \<or> k = 10 \<or>
      k = 11 \<or> k = 12 \<or> k = 13 \<or> k = 14 \<or> k = 15" using assms by presburger
  have u: "unat (of_nat k :: ulong) = k" using assms by (simp add: unat_of_nat64)
  have "same_page 0 (of_nat k)" using assms by (simp add: same_page_div u)
  then have l: "pt_lookup user_mem 0x80200000 (of_nat k) = Some (leaf_pte 0x87C00000 0x16)"
    using user_mem_tables(2) by simp
  have e: "leaf_pte 0x87C00000 0x16 = 0x21F000D7"
    by (simp add: leaf_pte_def PA2PTE_def PTE_V_def PTE_A_def PTE_D_def PAGE_SHIFT_def)
  have f: "leaf_pte 0x87C00000 0x16 AND PTE_U \<noteq> 0" "leaf_pte 0x87C00000 0x16 AND PTE_R \<noteq> 0"
      "leaf_pte 0x87C00000 0x16 AND PTE_W \<noteq> 0" "PTE2PA (leaf_pte 0x87C00000 0x16) = 0x87C00000"
    unfolding e by (simp_all add: PTE_U_def PTE_R_def PTE_W_def PTE2PA_def PAGE_SHIFT_def)
  have "(0x87C00000 :: ulong) OR (of_nat k AND 0xFFF) = 0x87C00000 + of_nat k" using k by (elim disjE) simp_all
  moreover have "csr_sstatus (m_hart (set_sum memory_sample)) AND SSTATUS_SUM \<noteq> 0"
    by (simp add: set_sum_def set_csr_def memory_sample_def sample_kernel_def sample_with_def sample_hart_def SSTATUS_SUM_def)
  moreover have "m_mem (set_sum memory_sample) = user_mem" "satp (set_sum memory_sample) = satp memory_sample"
    by (simp_all add: set_sum_def memory_sample_def)
  ultimately show ?thesis using perm f root l by (auto simp: user_pa_def)
qed

theorem sys_write_correct_witness:
  "\<exists>s'. sys_write 1 0 5 memory_sample = Inr (2, s') \<and> uart_out s' = [72, 105]"
proof -
  have c: "unat (clamp 5) = 5" "is_user_addr 0 (clamp 5)"
    by (simp_all add: clamp_def MAXLEN_def is_user_addr_def USER_END_VA_def)
  have lk: "lock_ready UartLock memory_sample"
    by (simp add: lock_ready_def memory_sample_def sample_kernel_def sample_with_def sample_hart_def)
  have f: "m_mem memory_sample = user_mem" "uart_out memory_sample = []"
    by (simp_all add: memory_sample_def sample_kernel_def sample_with_def)
  have m: "user_mem 0x87C00000 = 72" "user_mem 0x87C00001 = 105" "user_mem 0x87C00002 = 0"
    by (simp_all add: user_mem_def sample_mem_def mem_put64_def put_bytes_apply fill_def pte_at_def)
  have t: "user_text memory_sample (\<lambda>k. 0x87C00000 + of_nat k) 5 = [72, 105]"
    by (simp add: user_text_def f m upt_rec)
  have n: "min 64 (unat (5 :: uint)) = 5" by simp
  have "\<forall>k < 5. user_pa (set_sum memory_sample) PTE_R (0 + of_nat k) = Inr (0x87C00000 + of_nat k)"
    using memory_sample_pa [of _ PTE_R] by simp
  then have "\<exists>s'. sys_write 1 0 5 memory_sample = Inr (of_nat (length [72 :: byte, 105]), s') \<and> uart_out s' = [] @ [72, 105]"
    using sys_write_correct [OF lk, of 1 5 0] unfolding n t [symmetric]
    by (auto simp: f(2) dest!: spec [of _ "\<lambda>k. 0x87C00000 + of_nat k"])
  then show ?thesis by simp
qed

theorem copy_to_user_confined_witness:
  "\<exists>s'. copy_to_user 8 [1] 1 memory_sample = Inr (0, s') \<and>
     (\<forall>x. m_mem s' x \<noteq> m_mem memory_sample x \<longrightarrow> x = 0x87C00008)"
proof -
  have root: "satp_root (satp memory_sample) = 0x80200000"
    by (simp add: satp_root_def memory_sample_def MAKE_SATP_def SATP_MODE_SV39_def PAGE_SHIFT_def)
  have m: "m_mem memory_sample = user_mem" "satp memory_sample = MAKE_SATP 0x80200000" by (simp_all add: memory_sample_def)
  have pa: "user_pa (set_sum memory_sample) PTE_W 8 = Inr 0x87C00008"
    using memory_sample_pa [of 8 PTE_W] by simp
  have r: "ran sample_tree = {0x80200000, 0x80201000, 0x80202000}" by (auto simp: sample_tree_def ran_def)
  have far: "(0x87C00000 OR (va AND 0xFFF)) \<notin> page_cells q" if "q \<in> ran sample_tree" for q va :: ulong
  proof -
    have "unat (0x87C00000 :: ulong) \<le> unat (0x87C00000 OR (va AND 0xFFF))"
      unfolding word_le_nat_alt [symmetric] by (rule le_word_or2)
    moreover have "page_ok q" "unat q \<le> 0x80202000" using that unfolding r by (auto simp: page_ok_def)
    ultimately show ?thesis by (simp add: page_cells_unat)
  qed
  have e: "PTE2PA (leaf_pte 0x87C00000 0x16) = 0x87C00000"
    by (simp add: leaf_pte_def PA2PTE_def PTE_V_def PTE_A_def PTE_D_def PTE2PA_def PAGE_SHIFT_def)
  have ap: "user_apart memory_sample sample_tree"
    unfolding user_apart_def root m(1) user_mem_tables(2) using far e by (auto split: if_splits)
  let ?s = "set_sum memory_sample"
  obtain s' where s': "copy_to_user 8 [1] 1 memory_sample = Inr (0, s')"
    using pa by (simp add: copy_to_user_def is_user_addr_def USER_END_VA_def)
  have "pt_wf (m_mem memory_sample) {0x80202000, 0x80201000, 0x80200000} sample_tree"
      "sample_tree [] = Some (satp_root (satp memory_sample))"
    using user_mem_tables(1) sample_tables(3) by (simp_all add: m(1) root)
  note c = copy_to_user_confined [OF this ap s']
  have "x = 0x87C00008" if ne: "m_mem s' x \<noteq> m_mem memory_sample x" for x
    using c ne pa by auto
  then show ?thesis using s' by blast
qed

end
