(* ===== verification/Snub_Inv.thy ===== *)
theory Snub_Inv
  imports Snub Pagetable_Ops
begin

text \<open>
  The invariant of the object caches and the behaviour of \<open>kmalloc\<close>, \<open>kzalloc\<close> and \<open>kfree\<close>.
  A page given to class \<open>i\<close> holds \<open>2 ^ (8 - i)\<close> objects of \<open>2 ^ (4 + i)\<close> bytes; an object is
  named by its page and its number in the page.
\<close>

section \<open>Objects\<close>

type_synonym obj = "ulong \<times> nat"

definition obj_pa :: "nat \<Rightarrow> obj \<Rightarrow> ulong" where
  "obj_pa i ob = fst ob + of_nat (snd ob * 2 ^ (4 + i))"

definition obj_cells :: "nat \<Rightarrow> obj \<Rightarrow> ulong set" where
  "obj_cells i ob = {x. unat (x - obj_pa i ob) < 2 ^ (4 + i)}"

definition is_obj :: "(ulong \<rightharpoonup> nat) \<Rightarrow> nat \<Rightarrow> obj \<Rightarrow> bool" where
  "is_obj G i ob \<longleftrightarrow> G (fst ob) = Some i \<and> snd ob < 2 ^ (8 - i)"

lemma class_size: "i < 9 \<Longrightarrow> (2 :: nat) ^ (8 - i) * 2 ^ (4 + i) = 4096"
proof -
  assume "i < 9"
  then have "8 - i + (4 + i) = 12" by simp
  moreover have "(2 :: nat) ^ (8 - i) * 2 ^ (4 + i) = 2 ^ (8 - i + (4 + i))" by (rule power_add [symmetric])
  ultimately show ?thesis by simp
qed

lemma obj_fits:
  assumes "i < 9" and "j < 2 ^ (8 - i)"
  shows "j * 2 ^ (4 + i) + 2 ^ (4 + i) \<le> (4096 :: nat)"
proof -
  have "Suc j * 2 ^ (4 + i) \<le> 2 ^ (8 - i) * 2 ^ (4 + i)" using assms(2) by (intro mult_right_mono) simp_all
  then show ?thesis using class_size [OF assms(1)] by simp
qed

lemma unat_obj_pa:
  assumes "page_ok p" "i < 9" "j < 2 ^ (8 - i)"
  shows "unat (obj_pa i (p, j)) = unat p + j * 2 ^ (4 + i)"
proof -
  have s: "j * 2 ^ (4 + i) < 4096" using obj_fits [OF assms(2,3)] two_pow_pos [of "4 + i"] by linarith
  then have "unat (of_nat (j * 2 ^ (4 + i)) :: ulong) = j * 2 ^ (4 + i)" by (intro unat_of_nat64) simp
  then show ?thesis
    using assms(1) s unfolding obj_pa_def by (simp del: of_nat_mult) (subst unat_add64, simp_all add: page_ok_def)
qed

lemma pow_ge_16: "(16 :: nat) \<le> 2 ^ (4 + i)"
  by (simp add: power_add)

lemma obj_cell_in_page:
  assumes "page_ok p" "i < 9" "j < 2 ^ (8 - i)" "x \<in> obj_cells i (p, j)"
  shows "unat (obj_pa i (p, j)) \<le> unat x" "unat x < unat (obj_pa i (p, j)) + 2 ^ (4 + i)" "x \<in> page_cells p"
proof -
  define k where "k = unat (x - obj_pa i (p, j))"
  have k: "k < 2 ^ (4 + i)" using assms(4) by (simp add: obj_cells_def k_def)
  note u = unat_obj_pa [OF assms(1-3)] and f = obj_fits [OF assms(2,3)]
  have "unat (obj_pa i (p, j)) + k < 2 ^ 64" using u f k assms(1) by (simp add: page_ok_def)
  moreover have "x = obj_pa i (p, j) + (x - obj_pa i (p, j))" by simp
  ultimately have x: "unat x = unat (obj_pa i (p, j)) + k" unfolding k_def by (metis unat_add64)
  then show "unat (obj_pa i (p, j)) \<le> unat x" "unat x < unat (obj_pa i (p, j)) + 2 ^ (4 + i)" using k by simp_all
  show "x \<in> page_cells p" using x u f k by (simp add: page_cells_unat [OF assms(1)])
qed

text \<open>Different objects have no byte in common.\<close>

lemma obj_disjoint:
  assumes ok: "page_ok (fst a)" "page_ok (fst b)" and G: "is_obj G i a" "is_obj G k b" "i < 9" "k < 9"
    and ne: "(i, a) \<noteq> (k, b)"
  shows "obj_cells i a \<inter> obj_cells k b = {}"
proof (cases "fst a = fst b")
  case False
  have "obj_cells i a \<subseteq> page_cells (fst a)" "obj_cells k b \<subseteq> page_cells (fst b)"
    using obj_cell_in_page(3) [of "fst a" i "snd a"] obj_cell_in_page(3) [of "fst b" k "snd b"] ok G
    by (auto simp: is_obj_def)
  then show ?thesis using page_cells_disjoint [OF ok False] by blast
next
  case True
  then have ik: "i = k" using G by (simp add: is_obj_def)
  then have sn: "snd a \<noteq> snd b" using ne True by (auto simp: prod_eq_iff)
  note ua = unat_obj_pa [of "fst a" i "snd a", simplified] and ub = unat_obj_pa [of "fst b" k "snd b", simplified]
  have bnd: "snd a < 2 ^ (8 - i)" "snd b < 2 ^ (8 - i)" using G ik by (simp_all add: is_obj_def)
  have sep: "snd a * 2 ^ (4 + i) + 2 ^ (4 + i) \<le> snd b * 2 ^ (4 + i) \<or>
      snd b * 2 ^ (4 + i) + 2 ^ (4 + i) \<le> snd a * 2 ^ (4 + i)"
  proof (cases "snd a < snd b")
    case True
    then have "Suc (snd a) * 2 ^ (4 + i) \<le> snd b * 2 ^ (4 + i)" by (intro mult_right_mono) simp_all
    then show ?thesis by simp
  next
    case False
    then have "Suc (snd b) * 2 ^ (4 + i) \<le> snd a * 2 ^ (4 + i)" using sn by (intro mult_right_mono) simp_all
    then show ?thesis by simp
  qed
  show ?thesis
  proof (rule equals0I)
    fix x assume "x \<in> obj_cells i a \<inter> obj_cells k b"
    then have "unat (obj_pa i a) \<le> unat x" "unat x < unat (obj_pa i a) + 2 ^ (4 + i)"
      "unat (obj_pa i b) \<le> unat x" "unat x < unat (obj_pa i b) + 2 ^ (4 + i)"
      using obj_cell_in_page(1,2) [of "fst a" i "snd a" x] obj_cell_in_page(1,2) [of "fst b" i "snd b" x]
        ok G(3) bnd ik by auto
    then show False using ua ub ok G(3,4) bnd ik True sep by simp
  qed
qed

section \<open>Lists of free objects\<close>

primrec ochain :: "(ulong \<Rightarrow> byte) \<Rightarrow> ulong \<Rightarrow> nat \<Rightarrow> ulong \<Rightarrow> obj list \<Rightarrow> bool" where
  "ochain m off i ptr [] \<longleftrightarrow> ptr = 0"
| "ochain m off i ptr (ob # obs) \<longleftrightarrow>
     ptr = obj_pa i ob + off \<and> ochain m off i (mem_get64 m (obj_pa i ob)) obs"

lemma ochain_cong:
  "\<lbrakk>ochain m off i ptr obs; \<And>ob. ob \<in> set obs \<Longrightarrow> mem_get64 m' (obj_pa i ob) = mem_get64 m (obj_pa i ob)\<rbrakk>
   \<Longrightarrow> ochain m' off i ptr obs"
  by (induction obs arbitrary: ptr) auto

lemma mem_get64_cong: "(\<And>k. k < 8 \<Longrightarrow> m' (a + of_nat k) = m (a + of_nat k)) \<Longrightarrow> mem_get64 m' a = mem_get64 m a"
  unfolding mem_get64_def by (rule arg_cong [where f = of_le_bytes], rule get_bytes_cong) simp

lemma obj_link_cells:
  assumes "k < 8"
  shows "obj_pa i ob + of_nat k \<in> obj_cells i ob"
proof -
  have "unat (of_nat k :: ulong) = k" using assms by (intro unat_of_nat64) simp
  then show ?thesis using assms pow_ge_16 [of i] by (simp add: obj_cells_def)
qed

lemma obj_ram:
  assumes "page_ok p" "i < 9" "j < 2 ^ (8 - i)"
  shows "ram_range s (PHYS_TO_VIRT s (obj_pa i (p, j))) 8"
  using unat_obj_pa [OF assms] obj_fits [OF assms(2,3)] pow_ge_16 [of i] assms(1)
  by (simp add: ram_range_def PHYS_TO_VIRT_def page_ok_def)


section \<open>The invariant\<close>

text \<open>
  \<open>G\<close> records which pages the caches have and for which class, \<open>fr i\<close> the free objects of class
  \<open>i\<close> in list order. The other objects of these pages are in use.
\<close>

definition snub_inv ::
    "ulong set \<Rightarrow> (ulong \<rightharpoonup> nat) \<Rightarrow> (nat \<Rightarrow> obj list) \<Rightarrow> 'z snub_scheme \<Rightarrow> bool" where
  "snub_inv P G fr s \<longleftrightarrow>
     pages_inv P s \<and> linear_map s \<and> dom G \<subseteq> P \<and> length (caches s) = 9 \<and>
     (\<forall>i < 9. object_size (caches s ! i) = push_bit (4 + i) 1 \<and> distinct (fr i) \<and>
        (\<forall>ob \<in> set (fr i). is_obj G i ob) \<and>
        ochain (m_mem s) (va_offset s) i (partial (caches s ! i)) (fr i))"

definition live :: "(ulong \<rightharpoonup> nat) \<Rightarrow> (nat \<Rightarrow> obj list) \<Rightarrow> (nat \<times> obj) set" where
  "live G fr = {(i, ob). i < 9 \<and> is_obj G i ob \<and> ob \<notin> set (fr i)}"

definition quiet :: "'z machine_scheme \<Rightarrow> bool" where
  "quiet s \<longleftrightarrow> lock_depth (m_hart s) = 0 \<and> (\<forall>l. m_locks s l = 0)"

lemma snub_invD:
  assumes "snub_inv P G fr s"
  shows "pages_inv P s" "linear_map s" "dom G \<subseteq> P" "length (caches s) = 9"
    "\<And>i. i < 9 \<Longrightarrow> object_size (caches s ! i) = push_bit (4 + i) 1"
    "\<And>i. i < 9 \<Longrightarrow> distinct (fr i)"
    "\<And>i ob. i < 9 \<Longrightarrow> ob \<in> set (fr i) \<Longrightarrow> is_obj G i ob"
    "\<And>i. i < 9 \<Longrightarrow> ochain (m_mem s) (va_offset s) i (partial (caches s ! i)) (fr i)"
  using assms unfolding snub_inv_def by auto

lemma snub_inv_page: "snub_inv P G fr s \<Longrightarrow> is_obj G i ob \<Longrightarrow> page_ok (fst ob)"
  using snub_invD(1,3) buddy_pages.handed_out unfolding is_obj_def by (metis domI subsetD)

lemma live_disjoint:
  assumes "snub_inv P G fr s" "(i, a) \<in> live G fr" "(k, b) \<in> live G fr" "(i, a) \<noteq> (k, b)"
  shows "obj_cells i a \<inter> obj_cells k b = {}"
proof -
  have a: "is_obj G i a" "i < 9" and b: "is_obj G k b" "k < 9" using assms(2,3) by (simp_all add: live_def)
  show ?thesis
    by (rule obj_disjoint [OF snub_inv_page [OF assms(1) a(1)] snub_inv_page [OF assms(1) b(1)] a(1) b(1)
        a(2) b(2) assms(4)])
qed

section \<open>Taking an object from its list\<close>

text \<open>The critical section of class \<open>i\<close> has been entered from the quiet state \<open>s0\<close>.\<close>

definition in_cache :: "nat \<Rightarrow> 'z snub_scheme \<Rightarrow> 'z snub_scheme \<Rightarrow> bool" where
  "in_cache i s0 s \<longleftrightarrow> quiet s0 \<and> m_hart s = irq_save (m_hart s0) \<and>
     m_locks s = (m_locks s0)(CacheLock i := 1)"

lemma pages_inv_locks:
  assumes "pages_inv P s" and "m_locks t BuddyLock = 0" and "lock_depth (m_hart t) + 1 \<noteq> 0"
    and "pages t = pages s" "free_lists t = free_lists s" "num_pages t = num_pages s"
      "page_array t = page_array s" "buddy_base_phys t = buddy_base_phys s"
  shows "pages_inv P t"
  using assms by (simp add: pages_inv_def lock_ready_def buddy_inv_def buddy_static_def page_pa_def)

lemma pop_object_ok:
  assumes inv: "snub_inv P G fr s" and i: "i < 9" and c: "in_cache i s0 s"
    and fr: "fr i = ob # obs"
  shows "\<exists>s'. pop_object i s = Inr (obj_pa i ob + va_offset s, s') \<and>
     snub_inv P G (fr(i := obs)) s' \<and> quiet s' \<and> m_mem s' = m_mem s \<and> va_offset s' = va_offset s \<and>
     m_locks s' = m_locks s0 \<and> m_hart s' = settled (m_hart s0)"
proof -
  note I = snub_invD [OF inv]
  have ch: "partial (caches s ! i) = obj_pa i ob + va_offset s"
    "ochain (m_mem s) (va_offset s) i (mem_get64 (m_mem s) (obj_pa i ob)) obs"
    using I(8) [OF i] fr by simp_all
  have o: "is_obj G i ob" using I(7) [OF i] fr by simp
  have ram: "load64 s (obj_pa i ob + va_offset s) = Inr (mem_get64 (m_mem s) (obj_pa i ob))"
    using obj_ram [OF snub_inv_page [OF inv o] i, of "snd ob" s] o
    by (simp add: load64_def is_obj_def PHYS_TO_VIRT_def)
  let ?nx = "mem_get64 (m_mem s) (obj_pa i ob)"
  let ?s1 = "cache_partial i ?nx s"
  let ?s2 = "?s1\<lparr>m_hart := settled (m_hart s0), m_locks := (m_locks ?s1)(CacheLock i := 0)\<rparr>"
  have d: "lock_depth (m_hart s0) + 1 \<noteq> 0" using c by (simp add: in_cache_def quiet_def)
  have "spin_unlock (CacheLock i) ?s1 = Inr ?s2"
    by (rule spin_unlock_after [OF d]) (use c in \<open>simp add: in_cache_def cache_partial_def\<close>)
  then have "pop_object i s = Inr (obj_pa i ob + va_offset s, ?s2)"
    using ch(1) ram by (simp add: pop_object_def)
  moreover have lk: "m_locks ?s2 = m_locks s0"
    using c by (auto simp: in_cache_def quiet_def cache_partial_def fun_eq_iff)
  moreover have "snub_inv P G (fr(i := obs)) ?s2"
  proof -
    have "pages_inv P ?s2"
      by (rule pages_inv_locks [OF I(1)])
        (use c in \<open>simp_all add: cache_partial_def in_cache_def quiet_def\<close>)
    moreover have "linear_map ?s2" using I(2) by (simp add: linear_map_def cache_partial_def)
    moreover have "distinct obs" "\<And>ob. ob \<in> set obs \<Longrightarrow> is_obj G i ob"
      using I(6) [OF i] I(7) [OF i] fr by simp_all
    ultimately show ?thesis unfolding snub_inv_def using I(3-8) ch(2) i
      by (simp add: cache_partial_def nth_list_update)
  qed
  moreover have "quiet ?s2" using c lk by (simp add: quiet_def in_cache_def)
  ultimately show ?thesis by (intro exI [of _ ?s2]) (simp add: cache_partial_def)
qed


lemma live_pop:
  assumes "i < 9" "fr i = ob # obs" "distinct (fr i)" "is_obj G i ob"
  shows "live G (fr(i := obs)) = insert (i, ob) (live G fr)" "(i, ob) \<notin> live G fr"
  using assms by (auto simp: live_def split: if_splits)

section \<open>Cutting a page into objects\<close>

lemma put_outside_obj:
  assumes "page_ok p" "i < 9" "j < 2 ^ (8 - i)" "x \<notin> page_cells p"
  shows "mem_put64 m (obj_pa i (p, j)) v x = m x"
proof (rule mem_put64_outside, rule ccontr)
  assume "\<not> 8 \<le> unat (x - obj_pa i (p, j))"
  then have "x \<in> obj_cells i (p, j)" using pow_ge_16 [of i] by (simp add: obj_cells_def)
  then show False using obj_cell_in_page(3) [OF assms(1-3)] assms(4) by blast
qed

lemma obj_links_apart:
  assumes "page_ok p" "i < 9" "j < 2 ^ (8 - i)" "k < j"
  shows "cells_apart (obj_pa i (p, j)) (obj_pa i (p, k))"
proof (rule cells_apartI)
  have k: "k < 2 ^ (8 - i)" using assms(3,4) by simp
  note u = unat_obj_pa [OF assms(1-3)] unat_obj_pa [OF assms(1,2) k]
  have "Suc k * 2 ^ (4 + i) \<le> j * 2 ^ (4 + i)" using assms(4) by (intro mult_right_mono) simp_all
  then show "unat (obj_pa i (p, j)) + 8 \<le> unat (obj_pa i (p, k)) \<or> unat (obj_pa i (p, k)) + 8 \<le> unat (obj_pa i (p, j))"
    using u pow_ge_16 [of i] by simp
  show "unat (obj_pa i (p, j)) < 2 ^ 63" "unat (obj_pa i (p, k)) < 2 ^ 63"
    using u obj_fits [OF assms(2,3)] obj_fits [OF assms(2) k] assms(1) by (simp_all add: page_ok_def)
qed

lemma carve_ok:
  assumes p: "page_ok p" and i: "i < 9" and osz: "osz = of_nat (2 ^ (4 + i))"
  shows "\<lbrakk>j + n \<le> 2 ^ (8 - i); ochain (m_mem s) (va_offset s) i head obs;
     \<forall>ob \<in> set obs. fst ob = p \<and> snd ob < j\<rbrakk> \<Longrightarrow>
   \<exists>head' m'. carve n j (PHYS_TO_VIRT s p) osz head s = Inr (head', s\<lparr>m_mem := m'\<rparr>) \<and>
     ochain m' (va_offset s) i head' (rev (map (Pair p) [j..<j + n]) @ obs) \<and>
     (\<forall>x. x \<notin> page_cells p \<longrightarrow> m' x = m_mem s x)"
proof (induction n arbitrary: j head obs s)
  case 0
  then show ?case by (intro exI [of _ head] exI [of _ "m_mem s"]) simp
next
  case (Suc n)
  have j: "j < 2 ^ (8 - i)" using Suc.prems(1) by simp
  let ?a = "obj_pa i (p, j)"
  have obj: "PHYS_TO_VIRT s p + of_nat j * osz = PHYS_TO_VIRT s ?a"
    by (simp add: PHYS_TO_VIRT_def obj_pa_def osz)
  let ?m = "mem_put64 (m_mem s) ?a head" and ?s = "s\<lparr>m_mem := mem_put64 (m_mem s) (obj_pa i (p, j)) head\<rparr>"
  have st: "store64 (PHYS_TO_VIRT s ?a) head s = Inr ?s"
    using obj_ram [OF p i j, of s] by (simp add: store64_def) (simp add: PHYS_TO_VIRT_def)
  have "mem_get64 ?m (obj_pa i ob) = mem_get64 (m_mem s) (obj_pa i ob)" if "ob \<in> set obs" for ob
  proof -
    have "ob = (p, snd ob)" "snd ob < j" using Suc.prems(3) that by (auto simp: prod_eq_iff)
    then show ?thesis using mem_get64_put64_other [OF obj_links_apart [OF p i j, of "snd ob"]] by metis
  qed
  then have "ochain ?m (va_offset s) i head obs" using Suc.prems(2) by (rule ochain_cong [rotated])
  then have ch: "ochain (m_mem ?s) (va_offset ?s) i (PHYS_TO_VIRT s ?a) ((p, j) # obs)"
    by (simp add: PHYS_TO_VIRT_def)
  have all: "\<forall>ob \<in> set ((p, j) # obs). fst ob = p \<and> snd ob < Suc j" using Suc.prems(3) by auto
  have bound: "Suc j + n \<le> 2 ^ (8 - i)" using Suc.prems(1) by simp
  have mm: "m_mem ?s = ?m" "va_offset ?s = va_offset s" by simp_all
  obtain head' m' where r: "carve n (Suc j) (PHYS_TO_VIRT ?s p) osz (PHYS_TO_VIRT s ?a) ?s =
        Inr (head', ?s\<lparr>m_mem := m'\<rparr>)"
      "ochain m' (va_offset s) i head' (rev (map (Pair p) [Suc j..<Suc j + n]) @ (p, j) # obs)"
      "\<forall>x. x \<notin> page_cells p \<longrightarrow> m' x = ?m x"
    using Suc.IH [OF bound ch all] unfolding mm by blast
  have off: "PHYS_TO_VIRT ?s p = PHYS_TO_VIRT s p" by (simp add: PHYS_TO_VIRT_def)
  have "carve (Suc n) j (PHYS_TO_VIRT s p) osz head s = Inr (head', s\<lparr>m_mem := m'\<rparr>)"
    using r(1) st obj unfolding off by (simp add: Let_def)
  moreover have "rev (map (Pair p) [j..<j + Suc n]) @ obs =
      rev (map (Pair p) [Suc j..<Suc j + n]) @ (p, j) # obs"
    by (simp add: upt_conv_Cons del: upt_Suc)
  moreover have "\<forall>x. x \<notin> page_cells p \<longrightarrow> m' x = m_mem s x"
    using r(3) put_outside_obj [OF p i j] by simp
  ultimately show ?case using r(2) by auto
qed


section \<open>kmalloc\<close>

lemma obj_virt_nonzero:
  assumes "page_ok p" "i < 9" "j < 2 ^ (8 - i)" "linear_map s"
  shows "obj_pa i (p, j) + va_offset s \<noteq> 0"
proof
  assume "obj_pa i (p, j) + va_offset s = 0"
  then have "obj_pa i (p, j) = - va_offset s" by (simp add: eq_neg_iff_add_eq_0)
  then have "unat (obj_pa i (p, j)) = 0 \<or> unat (obj_pa i (p, j)) = 0x100000000"
    using assms(4) by (auto simp: linear_map_def VA_OFFSET_eq)
  then show False
    using unat_obj_pa [OF assms(1-3)] obj_fits [OF assms(2,3)] assms(1) by (auto simp: page_ok_def)
qed

lemma object_size_values:
  assumes "i < 9"
  shows "(ucast (push_bit (4 + i) 1 :: uint) :: ulong) = of_nat (2 ^ (4 + i))"
    "unat (PAGE_SIZE div (of_nat (2 ^ (4 + i)) :: ulong)) = 2 ^ (8 - i)"
proof -
  have "(2 :: nat) ^ (4 + i) \<le> 2 ^ 12" using assms by (intro power_increasing) simp_all
  then have b: "(2 :: nat) ^ (4 + i) < 2 ^ 32" "(2 :: nat) ^ (4 + i) < 2 ^ 64" by simp_all
  have "(push_bit (4 + i) 1 :: uint) = of_nat (2 ^ (4 + i))" by (simp add: push_bit_eq_mult)
  then show "(ucast (push_bit (4 + i) 1 :: uint) :: ulong) = of_nat (2 ^ (4 + i))"
    using ucast_of_nat32_64 [OF b(1)] by simp
  have "unat (of_nat (2 ^ (4 + i)) :: ulong) = 2 ^ (4 + i)" by (rule unat_of_nat64 [OF b(2)])
  then have "unat (PAGE_SIZE div (of_nat (2 ^ (4 + i)) :: ulong)) = 4096 div 2 ^ (4 + i)"
    by (simp only: unat_div unat_layout)
  also have "\<dots> = 2 ^ (8 - i)" unfolding class_size [OF assms, symmetric] by simp
  finally show "unat (PAGE_SIZE div (of_nat (2 ^ (4 + i)) :: ulong)) = 2 ^ (8 - i)" .
qed

text \<open>Entering the critical section of a class.\<close>

definition cache_locked :: "nat \<Rightarrow> 'z snub_scheme \<Rightarrow> 'z snub_scheme" where
  "cache_locked i s = s\<lparr>m_hart := irq_save (m_hart s), m_locks := (m_locks s)(CacheLock i := 1)\<rparr>"

lemma cache_locked_ok:
  assumes "quiet s" and "snub_inv P G fr s"
  shows "spin_lock (CacheLock i) s = Inr (cache_locked i s)" "in_cache i s (cache_locked i s)"
    "snub_inv P G fr (cache_locked i s)"
proof -
  show "spin_lock (CacheLock i) s = Inr (cache_locked i s)"
    using assms(1) by (simp add: spin_lock_free quiet_def cache_locked_def)
  show "in_cache i s (cache_locked i s)" using assms(1) by (simp add: in_cache_def cache_locked_def)
  have "pages_inv P (cache_locked i s)"
    using assms(1) by (intro pages_inv_locks [OF snub_invD(1) [OF assms(2)]])
      (simp_all add: cache_locked_def quiet_def)
  then show "snub_inv P G fr (cache_locked i s)"
    using assms(2) by (simp add: snub_inv_def cache_locked_def linear_map_def)
qed

text \<open>A page obtained from the allocator, cut into objects of class \<open>i\<close>.\<close>

lemma refill_ok:
  assumes inv: "snub_inv P G fr s" and i: "i < 9" and c: "in_cache i s0 s" and fr: "fr i = []"
    and a: "alloc_page s = Inr (p, s1)" and p: "p \<noteq> 0"
  shows "\<exists>head m' obs. let s2 = cache_partial i head (s1\<lparr>m_mem := m'\<rparr>) in
     carve (2 ^ (8 - i)) 0 (PHYS_TO_VIRT s1 p) (of_nat (2 ^ (4 + i))) 0 s1 = Inr (head, s1\<lparr>m_mem := m'\<rparr>) \<and>
     obs \<noteq> [] \<and> snub_inv (insert p P) (G(p \<mapsto> i)) (fr(i := obs)) s2 \<and> in_cache i s0 s2 \<and>
     live (G(p \<mapsto> i)) (fr(i := obs)) = live G fr \<and> va_offset s2 = va_offset s \<and> p \<notin> P \<and>
     (\<forall>q \<in> P. \<forall>x \<in> page_cells q. m_mem s2 x = m_mem s x)"
proof -
  note I = snub_invD [OF inv]
  note new = buddy_pages.alloc_page_new [OF I(1) a p]
  note frm = buddy_pages.alloc_rest [OF I(1) a]
  have ok: "page_ok p" using buddy_pages.handed_out [of "insert p P" s1 p] new by simp
  have hart: "m_hart s1 = m_hart s"
    using c by (intro alloc_frame_hart [OF frm]) (simp add: in_cache_def quiet_def)
  have more: "caches s1 = caches s" using arg_cong [OF frm, of caches] by (simp add: alloc_frame_def)
  have off: "va_offset s1 = va_offset s" by (rule alloc_frame_fields(1) [OF frm])
  let ?n = "(2 :: nat) ^ (8 - i)"
  let ?obs = "rev (map (Pair p) [0..<?n])"
  obtain head m' where cv: "carve ?n 0 (PHYS_TO_VIRT s1 p) (of_nat (2 ^ (4 + i))) 0 s1 = Inr (head, s1\<lparr>m_mem := m'\<rparr>)"
      "ochain m' (va_offset s1) i head ?obs" "\<And>x. x \<notin> page_cells p \<Longrightarrow> m' x = m_mem s1 x"
    using carve_ok [OF ok i refl, of 0 ?n s1 0 "[]"] by auto
  let ?s2 = "cache_partial i head (s1\<lparr>m_mem := m'\<rparr>)"
  have keep: "m' x = m_mem s x" if "q \<in> P" "x \<in> page_cells q" for q x
  proof -
    have "x \<notin> page_cells p"
      using page_cells_disjoint [OF buddy_pages.handed_out [OF I(1) that(1)] ok] that new by blast
    then show ?thesis using cv(3) buddy_pages.alloc_keeps_pages [OF I(1) a that] by simp
  qed
  have pG: "p \<notin> dom G" using new I(3) by blast
  have old: "is_obj (G(p \<mapsto> i)) k ob" if "is_obj G k ob" for k ob
    using that pG by (auto simp: is_obj_def)
  have ch: "ochain m' (va_offset s) k (partial (caches s ! k)) (fr k)" if k: "k < 9" for k
  proof (rule ochain_cong [OF I(8) [OF k]])
    fix ob assume "ob \<in> set (fr k)"
    then have ob: "is_obj G k ob" using I(7) [OF k] by blast
    have obp: "page_ok (fst ob)" "snd ob < 2 ^ (8 - k)" using snub_inv_page [OF inv ob] ob by (simp_all add: is_obj_def)
    have pg: "fst ob \<in> P" using ob I(3) by (auto simp: is_obj_def)
    show "mem_get64 m' (obj_pa k ob) = mem_get64 (m_mem s) (obj_pa k ob)"
      using keep [OF pg] obj_cell_in_page(3) [OF obp(1) k obp(2)] obj_link_cells [of _ k ob]
      by (intro mem_get64_cong) simp
  qed
  have "snub_inv (insert p P) (G(p \<mapsto> i)) (fr(i := ?obs)) ?s2"
    unfolding snub_inv_def
  proof (intro conjI allI impI ballI)
    show "pages_inv (insert p P) ?s2"
    proof -
      have i1: "pages_inv (insert p P) s1" using new by blast
      have "m_locks s1 BuddyLock = 0" "lock_depth (m_hart s1) + 1 \<noteq> 0"
        using c hart alloc_frame_fields(6) [OF frm] by (simp_all add: in_cache_def quiet_def)
      then show ?thesis by (intro pages_inv_locks [OF i1]) (simp_all add: cache_partial_def)
    qed
    show "linear_map ?s2" using I(2) off by (simp add: linear_map_def cache_partial_def)
    show "distinct ((fr(i := ?obs)) k)" if "k < 9" for k
      using I(6) [OF that] by (auto simp: distinct_map inj_on_def)
    show "is_obj (G(p \<mapsto> i)) k ob" if "k < 9" "ob \<in> set ((fr(i := ?obs)) k)" for k ob
      using that old I(7) [OF that(1)] by (cases "k = i") (auto simp: is_obj_def)
    show "ochain (m_mem ?s2) (va_offset ?s2) k (partial (caches ?s2 ! k)) ((fr(i := ?obs)) k)" if "k < 9" for k
      using ch [OF that] cv(2) that i I(4) more off by (simp add: cache_partial_def nth_list_update)
  qed (use I(3,4,5) more i in \<open>auto simp: cache_partial_def nth_list_update\<close>)
  moreover have "in_cache i s0 ?s2"
    using c hart alloc_frame_fields(6) [OF frm] by (simp add: in_cache_def cache_partial_def)
  moreover have "live (G(p \<mapsto> i)) (fr(i := ?obs)) = live G fr"
  proof -
    have "is_obj (G(p \<mapsto> i)) k ob \<and> ob \<notin> set ((fr(i := ?obs)) k) \<longleftrightarrow> is_obj G k ob \<and> ob \<notin> set (fr k)"
      if "k < 9" for k ob
    proof -
      have so: "ob \<in> set ?obs \<longleftrightarrow> fst ob = p \<and> snd ob < ?n" by (auto simp: image_iff prod_eq_iff)
      have "G p = None" using pG by auto
      then show ?thesis
        by (cases "fst ob = p"; cases "k = i")
          (simp_all add: is_obj_def so fr del: set_rev set_map set_upt)
    qed
    then show ?thesis by (auto simp: live_def)
  qed
  moreover have "?obs \<noteq> []" by simp
  ultimately show ?thesis
    using cv(1) keep off new by (intro exI [of _ head] exI [of _ m'] exI [of _ ?obs]) (simp add: cache_partial_def Let_def)
qed

text \<open>\<open>kmalloc\<close> after the class is chosen and the cache is locked, with an object on the list, and with an
  empty list.\<close>

lemma kmalloc_start:
  assumes inv: "snub_inv P G fr s" and q: "quiet s" and i: "i < 9" "size_to_idx sz = int i"
  shows "fr i \<noteq> [] \<Longrightarrow> kmalloc sz s = pop_object i (cache_locked i s)"
    and "fr i = [] \<Longrightarrow> alloc_page (cache_locked i s) = Inr (p, s1) \<Longrightarrow> kmalloc sz s =
      (if PHYS_TO_VIRT s1 p = 0 then rbind (spin_unlock (CacheLock i) s1) (\<lambda>s. Inr (0, s))
       else rbind (carve (2 ^ (8 - i)) 0 (PHYS_TO_VIRT s1 p) (of_nat (2 ^ (4 + i))) 0 s1) (\<lambda>(head, s).
            pop_object i (cache_partial i head s)))"
proof -
  let ?s = "cache_locked i s"
  note L = cache_locked_ok [OF q inv, of i]
  note I = snub_invD [OF L(3)]
  have start: "kmalloc sz s = (if partial (caches ?s ! i) = 0
      then rbind (alloc_page ?s) (\<lambda>(pg, s).
              let page = PHYS_TO_VIRT s pg
              in if page = 0
                 then rbind (spin_unlock (CacheLock i) s) (\<lambda>s. Inr (0, s))
                 else let osz = ucast (object_size (caches s ! i));
                          objs_per_page = unat (PAGE_SIZE div osz)
                      in rbind (carve objs_per_page 0 page osz 0 s) (\<lambda>(head, s).
                         pop_object i (cache_partial i head s)))
      else pop_object i ?s)"
    using i L(1) by (simp add: kmalloc_def SNUB_NUM_CLASSES_def SNUB_MAX_SHIFT_def SNUB_MIN_SHIFT_def Let_def)
  show "kmalloc sz s = pop_object i ?s" if ne: "fr i \<noteq> []"
  proof -
    obtain ob obs where Cons: "fr i = ob # obs" using ne by (cases "fr i") auto
    have ob: "is_obj G i ob" using I(7) [OF i(1)] Cons by simp
    have "partial (caches ?s ! i) \<noteq> 0"
      using I(8) [OF i(1)] Cons ob obj_virt_nonzero [OF snub_inv_page [OF L(3) ob] i(1), of "snd ob" ?s] I(2)
      by (simp add: is_obj_def)
    then show ?thesis using start by simp
  qed
  assume Nil: "fr i = []" and a: "alloc_page ?s = Inr (p, s1)"
  have none: "partial (caches ?s ! i) = 0" using I(8) [OF i(1)] Nil by simp
  have "caches s1 = caches s"
    using arg_cong [OF buddy_pages.alloc_rest [OF I(1) a], of caches] by (simp add: alloc_frame_def cache_locked_def)
  then have osz: "ucast (object_size (caches s1 ! i)) = (of_nat (2 ^ (4 + i)) :: ulong)"
    using snub_invD(5) [OF inv i(1)] object_size_values(1) [OF i(1)] by simp
  show "kmalloc sz s = (if PHYS_TO_VIRT s1 p = 0 then rbind (spin_unlock (CacheLock i) s1) (\<lambda>s. Inr (0, s))
       else rbind (carve (2 ^ (8 - i)) 0 (PHYS_TO_VIRT s1 p) (of_nat (2 ^ (4 + i))) 0 s1) (\<lambda>(head, s).
            pop_object i (cache_partial i head s)))"
    using start none a by (simp add: osz object_size_values(2) [OF i(1)] Let_def del: of_nat_power)
qed

text \<open>An empty list and a page to carve: the first object of the page.\<close>

lemma kmalloc_refill:
  assumes inv: "snub_inv P G fr s" and q: "quiet s" and i: "i < 9" "size_to_idx sz = int i" and Nil: "fr i = []"
    and a: "alloc_page (cache_locked i s) = Inr (p, s1)" "p \<noteq> 0"
  obtains ob s' fr' where "kmalloc sz s = Inr (obj_pa i ob + va_offset s, s')"
    "snub_inv (insert p P) (G(p \<mapsto> i)) fr' s'" "quiet s'" "G \<subseteq>\<^sub>m G(p \<mapsto> i)" "is_obj (G(p \<mapsto> i)) i ob"
    "va_offset s' = va_offset s" "live (G(p \<mapsto> i)) fr' = insert (i, ob) (live G fr)" "(i, ob) \<notin> live G fr"
    "\<forall>q \<in> P. \<forall>x \<in> page_cells q. m_mem s' x = m_mem s x"
proof -
  note L = cache_locked_ok [OF q inv, of i]
  note I = snub_invD [OF L(3)]
  have off: "va_offset s1 = va_offset s"
    using alloc_frame_fields(1) [OF buddy_pages.alloc_rest [OF I(1) a(1)]] by (simp add: cache_locked_def)
  obtain head m' obs where r: "carve (2 ^ (8 - i)) 0 (PHYS_TO_VIRT s1 p) (of_nat (2 ^ (4 + i))) 0 s1 =
        Inr (head, s1\<lparr>m_mem := m'\<rparr>)" "obs \<noteq> []"
      "snub_inv (insert p P) (G(p \<mapsto> i)) (fr(i := obs)) (cache_partial i head (s1\<lparr>m_mem := m'\<rparr>))"
      "in_cache i s (cache_partial i head (s1\<lparr>m_mem := m'\<rparr>))"
      "live (G(p \<mapsto> i)) (fr(i := obs)) = live G fr" "p \<notin> P"
      "\<forall>q \<in> P. \<forall>x \<in> page_cells q. m_mem (cache_partial i head (s1\<lparr>m_mem := m'\<rparr>)) x = m_mem (cache_locked i s) x"
    using refill_ok [OF L(3) i(1) L(2) Nil a] unfolding Let_def by blast
  let ?s2 = "cache_partial i head (s1\<lparr>m_mem := m'\<rparr>)"
  have off2: "va_offset ?s2 = va_offset s" using off by (simp add: cache_partial_def)
  obtain ob obs' where obs: "(fr(i := obs)) i = ob # obs'" using r(2) by (cases obs) auto
  have ok: "page_ok p"
    using buddy_pages.handed_out [of "insert p P" s1 p] buddy_pages.alloc_page_new [OF I(1) a] by simp
  have "PHYS_TO_VIRT s1 p \<noteq> 0"
    using obj_virt_nonzero [OF ok i(1), of 0 s1] snub_invD(2) [OF inv] off
    by (simp add: PHYS_TO_VIRT_def obj_pa_def linear_map_def)
  then have run: "kmalloc sz s = pop_object i ?s2" using kmalloc_start(2) [OF inv q i Nil a(1)] r(1) by simp
  obtain s' where s': "pop_object i ?s2 = Inr (obj_pa i ob + va_offset ?s2, s')"
      "snub_inv (insert p P) (G(p \<mapsto> i)) ((fr(i := obs))(i := obs')) s'" "quiet s'"
      "m_mem s' = m_mem ?s2" "va_offset s' = va_offset ?s2"
    using pop_object_ok [OF r(3) i(1) r(4) obs] by blast
  have ob: "is_obj (G(p \<mapsto> i)) i ob" using snub_invD(7) [OF r(3) i(1)] obs by simp
  have le: "G \<subseteq>\<^sub>m G(p \<mapsto> i)" using r(6) snub_invD(3) [OF inv] by (auto simp: map_le_def)
  have lv: "live (G(p \<mapsto> i)) ((fr(i := obs))(i := obs')) = insert (i, ob) (live G fr)" "(i, ob) \<notin> live G fr"
    using live_pop [of i "fr(i := obs)" ob obs', OF i(1) obs snub_invD(6) [OF r(3) i(1)] ob] r(5) by simp_all
  show thesis
    by (rule that [OF _ s'(2,3) le ob _ lv]) (use run s'(1,4,5) off2 r(7) in \<open>auto simp: cache_locked_def\<close>)
qed

text \<open>An empty list and no page: null before the switch to high addresses, and a fault after it.\<close>

lemma kmalloc_no_page:
  assumes inv: "snub_inv P G fr s" and q: "quiet s" and i: "i < 9" "size_to_idx sz = int i" and Nil: "fr i = []"
    and a: "alloc_page (cache_locked i s) = Inr (0, s1)"
  shows "va_offset s = 0 \<Longrightarrow> \<exists>s'. kmalloc sz s = Inr (0, s') \<and> snub_inv P G fr s' \<and> quiet s'"
    and "va_offset s \<noteq> 0 \<Longrightarrow> kmalloc sz s = Inl (Fault (va_offset s))"
proof -
  note L = cache_locked_ok [OF q inv, of i]
  note I = snub_invD [OF L(3)]
  note frm = buddy_pages.alloc_rest [OF I(1) a]
  have f: "va_offset s1 = va_offset s" "caches s1 = caches s"
    using alloc_frame_fields(1) [OF frm] arg_cong [OF frm, of caches] by (simp_all add: cache_locked_def alloc_frame_def)
  have same: "pages_inv P s1" "m_mem s1 = m_mem s"
    using buddy_pages.alloc_page_none [OF I(1) a] by (simp_all add: cache_locked_def)
  note start = kmalloc_start(2) [OF inv q i Nil a]
  show "\<exists>s'. kmalloc sz s = Inr (0, s') \<and> snub_inv P G fr s' \<and> quiet s'" if va: "va_offset s = 0"
  proof -
    have d: "lock_depth (m_hart s) + 1 \<noteq> 0" using q by (simp add: quiet_def)
    have hart: "m_hart s1 = m_hart (cache_locked i s)"
      using L(2) by (intro alloc_frame_hart [OF frm]) (simp add: in_cache_def quiet_def)
    let ?s2 = "s1\<lparr>m_hart := settled (m_hart s), m_locks := (m_locks s1)(CacheLock i := 0)\<rparr>"
    have "spin_unlock (CacheLock i) s1 = Inr ?s2"
      by (rule spin_unlock_after [OF d]) (simp add: hart cache_locked_def)
    then have run: "kmalloc sz s = Inr (0, ?s2)" using start f va by (simp add: PHYS_TO_VIRT_def)
    have lk: "m_locks ?s2 = m_locks s"
      using q alloc_frame_fields(6) [OF frm] by (auto simp: cache_locked_def quiet_def fun_eq_iff)
    have "m_locks ?s2 BuddyLock = 0" "lock_depth (m_hart ?s2) + 1 \<noteq> 0" using lk q by (simp_all add: quiet_def)
    then have "pages_inv P ?s2" by (intro pages_inv_locks [OF same(1)]) simp_all
    then have "snub_inv P G fr ?s2" using inv same(2) f by (simp add: snub_inv_def linear_map_def)
    moreover have "quiet ?s2" using q lk by (simp add: quiet_def)
    ultimately show ?thesis using run by blast
  qed
  show "kmalloc sz s = Inl (Fault (va_offset s))" if va: "va_offset s \<noteq> 0"
  proof -
    have "\<not> ram_range s1 (va_offset s) 8" using f by (simp add: ram_range_def)
    then have "store64 (va_offset s) 0 s1 = Inl (Fault (va_offset s))" by (simp add: store64_def)
    moreover obtain n where "(2 :: nat) ^ (8 - i) = Suc n" using two_pow_pos [of "8 - i"] gr0_implies_Suc by blast
    ultimately show ?thesis using start f va by (simp add: PHYS_TO_VIRT_def)
  qed
qed

text \<open>The three outcomes.\<close>

lemma kmalloc_ok:
  assumes inv: "snub_inv P G fr s" and q: "quiet s" and sz: "unat sz \<le> 4096"
  obtains (object) i ob s' P' G' fr' where "i < 9" "unat sz \<le> 2 ^ (4 + i)"
      "size_to_idx sz = int i" "fr i \<noteq> [] \<or> (\<exists>p s1. alloc_page (cache_locked i s) = Inr (p, s1) \<and> p \<noteq> 0)"
      "kmalloc sz s = Inr (obj_pa i ob + va_offset s, s')"
      "snub_inv P' G' fr' s'" "quiet s'" "P \<subseteq> P'" "G \<subseteq>\<^sub>m G'" "is_obj G' i ob" "va_offset s' = va_offset s"
      "live G' fr' = insert (i, ob) (live G fr)" "(i, ob) \<notin> live G fr"
      "\<And>p x. p \<in> P \<Longrightarrow> x \<in> page_cells p \<Longrightarrow> m_mem s' x = m_mem s x"
  | (exhausted) s' where "va_offset s = 0" "kmalloc sz s = Inr (0, s')" "snub_inv P G fr s'" "quiet s'"
      "\<exists>s1. alloc_page (cache_locked (nat (size_to_idx sz)) s) = Inr (0, s1)"
  | (fault) "va_offset s \<noteq> 0" "kmalloc sz s = Inl (Fault (va_offset s))"
      "\<exists>s1. alloc_page (cache_locked (nat (size_to_idx sz)) s) = Inr (0, s1)"
proof -
  obtain i where i: "i < 9" "size_to_idx sz = int i" "unat sz \<le> 2 ^ (4 + i)"
    using size_to_idx_spec [of sz] sz by auto
  let ?s = "cache_locked i s"
  note L = cache_locked_ok [OF q inv, of i]
  note I = snub_invD [OF L(3)]
  show thesis
  proof (cases "fr i")
    case (Cons ob obs)
    have ob: "is_obj G i ob" using I(7) [OF i(1)] Cons by simp
    have run: "kmalloc sz s = pop_object i ?s" using kmalloc_start(1) [OF inv q i(1,2)] Cons by simp
    obtain s' where s': "pop_object i ?s = Inr (obj_pa i ob + va_offset ?s, s')"
        "snub_inv P G (fr(i := obs)) s'" "quiet s'" "m_mem s' = m_mem ?s" "va_offset s' = va_offset ?s"
      using pop_object_ok [OF L(3) i(1) L(2) Cons] by blast
    show thesis
      using object [OF i(1,3,2), of ob s' P G "fr(i := obs)"] run s' ob Cons
        live_pop [of i fr ob obs G, OF i(1) Cons I(6) [OF i(1)] ob] by (simp add: cache_locked_def)
  next
    case Nil
    obtain p s1 where a: "alloc_page ?s = Inr (p, s1)" using buddy_pages.alloc_total [OF I(1)] by blast
    show thesis
    proof (cases "p = 0")
      case False
      obtain ob s' fr' where k: "kmalloc sz s = Inr (obj_pa i ob + va_offset s, s')"
          "snub_inv (insert p P) (G(p \<mapsto> i)) fr' s'" "quiet s'" "G \<subseteq>\<^sub>m G(p \<mapsto> i)" "is_obj (G(p \<mapsto> i)) i ob"
          "va_offset s' = va_offset s" "live (G(p \<mapsto> i)) fr' = insert (i, ob) (live G fr)" "(i, ob) \<notin> live G fr"
          "\<forall>q \<in> P. \<forall>x \<in> page_cells q. m_mem s' x = m_mem s x"
        using kmalloc_refill [OF inv q i(1,2) Nil a False] by blast
      show thesis by (rule object [OF i(1,3,2) _ k(1-3) _ k(4-8)]) (use a False k(9) in auto)
    next
      case True
      then have no: "alloc_page (cache_locked (nat (size_to_idx sz)) s) = Inr (0, s1)" using a i(2) by simp
      note np = kmalloc_no_page [OF inv q i(1,2) Nil a [unfolded True]]
      show thesis using exhausted fault no np by blast
    qed
  qed
qed

end
