(* ===== verification/Snub_Ops.thy ===== *)
theory Snub_Ops
  imports Snub_Inv
begin

text \<open>
  Initialisation of the caches, zeroed objects, and what \<open>kfree\<close> does: with identity addresses
  every object goes to the smallest class, at high addresses the call ends in the fault of
  \<open>free_pages\<close>.
\<close>

section \<open>Writing to objects in use\<close>

lemma snub_inv_mem:
  assumes inv: "snub_inv P G fr s"
    and keep: "\<And>k ob x. \<lbrakk>k < 9; ob \<in> set (fr k); x \<in> obj_cells k ob\<rbrakk> \<Longrightarrow> m' x = m_mem s x"
  shows "snub_inv P G fr (s\<lparr>m_mem := m'\<rparr>)"
proof -
  note I = snub_invD [OF inv]
  have "ochain m' (va_offset s) k (partial (caches s ! k)) (fr k)" if k: "k < 9" for k
  proof (rule ochain_cong [OF I(8) [OF k]])
    fix ob assume ob: "ob \<in> set (fr k)"
    show "mem_get64 m' (obj_pa k ob) = mem_get64 (m_mem s) (obj_pa k ob)"
      using keep [OF k ob] obj_link_cells [of _ k ob] by (intro mem_get64_cong) simp
  qed
  then show ?thesis unfolding snub_inv_def using I by (simp add: linear_map_def)
qed

lemma snub_inv_write_live:
  assumes inv: "snub_inv P G fr s" and lv: "(i, ob) \<in> live G fr"
    and keep: "\<And>x. x \<notin> obj_cells i ob \<Longrightarrow> m' x = m_mem s x"
  shows "snub_inv P G fr (s\<lparr>m_mem := m'\<rparr>)"
proof (rule snub_inv_mem [OF inv])
  fix k ob' x assume k: "k < 9" and ob': "ob' \<in> set (fr k)" and x: "x \<in> obj_cells k ob'"
  have l: "i < 9" "is_obj G i ob" "ob \<notin> set (fr i)" using lv by (simp_all add: live_def)
  have f: "is_obj G k ob'" by (rule snub_invD(7) [OF inv k ob'])
  have "obj_cells i ob \<inter> obj_cells k ob' = {}"
    using l ob' k f snub_inv_page [OF inv l(2)] snub_inv_page [OF inv f] by (intro obj_disjoint [of _ _ G]) auto
  then show "m' x = m_mem s x" using keep x by blast
qed

section \<open>kzalloc\<close>

lemma obj_fill:
  "n \<le> 2 ^ (4 + i) \<Longrightarrow> x \<notin> obj_cells i ob \<Longrightarrow> fill m (obj_pa i ob) c n x = m x"
  by (simp add: fill_def obj_cells_def)

lemma kzalloc_ok:
  assumes inv: "snub_inv P G fr s" and q: "quiet s" and sz: "unat sz \<le> 4096"
  obtains (object) i ob s' P' G' fr' where "i < 9" "unat sz \<le> 2 ^ (4 + i)"
      "kzalloc sz s = Inr (obj_pa i ob + va_offset s, s')"
      "snub_inv P' G' fr' s'" "quiet s'" "P \<subseteq> P'" "G \<subseteq>\<^sub>m G'" "is_obj G' i ob" "va_offset s' = va_offset s"
      "live G' fr' = insert (i, ob) (live G fr)" "(i, ob) \<notin> live G fr"
      "\<And>x. unat (x - obj_pa i ob) < unat sz \<Longrightarrow> m_mem s' x = 0"
      "\<And>k o' x. (k, o') \<in> live G fr \<Longrightarrow> x \<in> obj_cells k o' \<Longrightarrow> m_mem s' x = m_mem s x"
  | (exhausted) s' where "va_offset s = 0" "kzalloc sz s = Inr (0, s')" "snub_inv P G fr s'" "quiet s'"
      "\<exists>s1. alloc_page (cache_locked (nat (size_to_idx sz)) s) = Inr (0, s1)"
  | (fault) "va_offset s \<noteq> 0" "kzalloc sz s = Inl (Fault (va_offset s))"
      "\<exists>s1. alloc_page (cache_locked (nat (size_to_idx sz)) s) = Inr (0, s1)"
proof (rule kmalloc_ok [OF inv q sz])
  fix i ob s1 P' G' fr'
  assume i: "i < 9" and fits: "unat sz \<le> 2 ^ (4 + i)"
    and "size_to_idx sz = int i" "fr i \<noteq> [] \<or> (\<exists>p s1. alloc_page (cache_locked i s) = Inr (p, s1) \<and> p \<noteq> 0)"
    and run: "kmalloc sz s = Inr (obj_pa i ob + va_offset s, s1)"
    and inv1: "snub_inv P' G' fr' s1" and q1: "quiet s1" and sub: "P \<subseteq> P'" "G \<subseteq>\<^sub>m G'"
    and ob: "is_obj G' i ob" and off: "va_offset s1 = va_offset s"
    and lv: "live G' fr' = insert (i, ob) (live G fr)" "(i, ob) \<notin> live G fr"
    and keep: "\<And>p x. p \<in> P \<Longrightarrow> x \<in> page_cells p \<Longrightarrow> m_mem s1 x = m_mem s x"
  have pg: "page_ok (fst ob)" "snd ob < 2 ^ (8 - i)" using snub_inv_page [OF inv1 ob] ob by (simp_all add: is_obj_def)
  have nz: "obj_pa i ob + va_offset s \<noteq> 0"
    using obj_virt_nonzero [OF pg(1) i pg(2), of s1] snub_invD(2) [OF inv1] off by simp
  have ram: "ram_range s1 (obj_pa i ob + va_offset s) (unat sz)"
    using unat_obj_pa [OF pg(1) i pg(2)] obj_fits [OF i pg(2)] fits pg(1) off
    by (simp add: ram_range_def page_ok_def)
  let ?m = "fill (m_mem s1) (obj_pa i ob) 0 (unat sz)" and ?s' = "s1\<lparr>m_mem :=
      fill (m_mem s1) (obj_pa i ob) 0 (unat sz)\<rparr>"
  have "kzalloc sz s = Inr (obj_pa i ob + va_offset s, ?s')"
    using run nz kmemset_ok [OF ram, of 0] off by (simp add: kzalloc_def)
  moreover have "snub_inv P' G' fr' ?s'"
    using obj_fill [OF fits] lv by (intro snub_inv_write_live [OF inv1, of i ob]) auto
  moreover have "quiet ?s'" using q1 by (simp add: quiet_def)
  moreover have "m_mem ?s' x = m_mem s x" if k: "(k, o') \<in> live G fr" "x \<in> obj_cells k o'" for k o' x
  proof -
    have ol: "k < 9" "is_obj G k o'" using k(1) by (simp_all add: live_def)
    have "obj_cells i ob \<inter> obj_cells k o' = {}"
      using k lv by (intro live_disjoint [OF inv1]) auto
    then have "m_mem ?s' x = m_mem s1 x" using k(2) obj_fill [OF fits, of x ob "m_mem s1" 0] by auto
    moreover have "fst o' \<in> P" using ol(2) snub_invD(3) [OF inv] by (auto simp: is_obj_def)
    moreover have "x \<in> page_cells (fst o')"
      using obj_cell_in_page(3) [OF snub_inv_page [OF inv ol(2)] ol(1), of "snd o'" x] ol(2) k(2)
      by (simp add: is_obj_def)
    ultimately show ?thesis using keep by simp
  qed
  moreover have "m_mem ?s' x = 0" if "unat (x - obj_pa i ob) < unat sz" for x using that by (simp add: fill_def)
  ultimately show thesis using object [OF i fits _ _ _ sub ob _ lv] off by simp
next
  fix s' assume "va_offset s = 0" "kmalloc sz s = Inr (0, s')" "snub_inv P G fr s'" "quiet s'"
    "\<exists>s1. alloc_page (cache_locked (nat (size_to_idx sz)) s) = Inr (0, s1)"
  then show thesis using exhausted by (simp add: kzalloc_def)
next
  assume "va_offset s \<noteq> 0" "kmalloc sz s = Inl (Fault (va_offset s))"
    "\<exists>s1. alloc_page (cache_locked (nat (size_to_idx sz)) s) = Inr (0, s1)"
  then show thesis using fault by (simp add: kzalloc_def)
qed

section \<open>kfree\<close>

text \<open>The distance \<open>diff\<close> that \<open>kfree\<close> computes is the offset in the page plus \<open>va_offset\<close>.\<close>

lemma kfree_diff:
  assumes lin: "linear_map s" and k: "k < 0x8000" and r: "r < 4096"
    and ptr: "ptr = buddy_base_phys s + of_nat (4096 * k + r) + va_offset s"
  shows "ptr - (buddy_base_phys s + scast ((ucast ((ptr - buddy_base_phys s) div PAGE_SIZE) :: uint) * 4096)) =
    of_nat r + va_offset s"
proof -
  let ?o = "ptr - buddy_base_phys s"
  have small: "unat (of_nat (4096 * k + r) :: ulong) = 4096 * k + r" using k r by (intro unat_of_nat64) simp
  have o: "?o = of_nat (4096 * k + r) + va_offset s" using ptr by simp
  have low: "(ucast w :: uint) = of_nat (unat w)" for w :: ulong by simp
  have "(ucast (?o div PAGE_SIZE) :: uint) * 4096 = of_nat (4096 * k)"
  proof (cases "va_offset s = 0")
    case True
    then have "unat (?o div PAGE_SIZE) = k" using o small r by (simp add: unat_div)
    then show ?thesis by (simp add: low mult.commute)
  next
    case False
    then have v: "va_offset s = 0xffffffff00000000" using lin by (simp add: linear_map_def VA_OFFSET_eq)
    have "unat ?o = 4096 * k + r + 0xffffffff00000000"
      unfolding o v using small k r by (subst unat_add64) (simp_all del: of_nat_add of_nat_mult)
    then have "unat ?o = 4096 * (k + 0xffffffff00000) + r" by simp
    then have "unat (?o div PAGE_SIZE) = k + 0xffffffff00000" using r by (simp add: unat_div)
    then have "(ucast (?o div PAGE_SIZE) :: uint) * 4096 = of_nat ((k + 0xffffffff00000) * 4096)"
      by (simp only: low of_nat_mult of_nat_numeral)
    also have "(k + 0xffffffff00000) * 4096 = 4096 * k + 0xffffffff * 2 ^ 32" by simp
    also have "(of_nat (4096 * k + 0xffffffff * 2 ^ 32) :: uint) = of_nat (4096 * k)"
    proof -
      have "(4096 * k + 0xffffffff * 2 ^ 32) mod 2 ^ 32 = (4096 * k) mod (2 ^ 32 :: nat)" by (rule mod_mult_self1)
      then show ?thesis by (simp add: word_of_nat_eq_iff take_bit_eq_mod del: of_nat_add of_nat_mult)
    qed
    finally show ?thesis .
  qed
  then have "scast ((ucast (?o div PAGE_SIZE) :: uint) * 4096) = (of_nat (4096 * k) :: ulong)"
    using scast_of_nat32 [of "4096 * k"] k by simp
  then show ?thesis using ptr by simp
qed

lemma kfree_loop_large: "\<not> diff < PAGE_SIZE \<Longrightarrow> kfree_loop n ptr diff s = free_pages (VIRT_TO_PHYS s ptr) s"
  by (induction n) auto

text \<open>An object of the managed page \<open>k\<close>, at offset \<open>r\<close>.\<close>

lemma obj_page_offset:
  assumes inv: "snub_inv P G fr s" and ob: "is_obj G i ob" "i < 9" and pg: "fst ob = page_pa s k"
  shows "obj_pa i ob = buddy_base_phys s + of_nat (4096 * k + snd ob * 2 ^ (4 + i))"
    "snd ob * 2 ^ (4 + i) < 4096"
proof -
  show "obj_pa i ob = buddy_base_phys s + of_nat (4096 * k + snd ob * 2 ^ (4 + i))"
    by (simp add: obj_pa_def pg page_pa_def PAGE_SIZE_def)
  show "snd ob * 2 ^ (4 + i) < 4096"
  proof -
    have "snd ob < 2 ^ (8 - i)" using ob(1) by (simp add: is_obj_def)
    from obj_fits [OF ob(2) this] two_pow_pos [of "4 + i"] show ?thesis by linarith
  qed
qed

lemma kfree_high:
  assumes inv: "snub_inv P G fr s" and q: "quiet s" and va: "va_offset s = VA_OFFSET"
    and ob: "is_obj G i ob" "i < 9" and pg: "fst ob = page_pa s k" "k < unat (num_pages s)"
  shows "kfree (obj_pa i ob + va_offset s) s = Inl (Fault (slot_ptr (page_array s) k))"
proof -
  obtain A where A: "buddy_inv A s" "lock_ready BuddyLock s"
    using snub_invD(1) [OF inv] by (auto simp: pages_inv_def)
  have st: "buddy_static s" using A(1) by (simp add: buddy_inv_def)
  note o = obj_page_offset [OF inv ob pg(1)]
  have k: "k < 0x8000" using pg(2) static_bounds(2) [OF st] by simp
  let ?r = "snd ob * 2 ^ (4 + i)" and ?ptr = "obj_pa i ob + va_offset s"
  have d: "?ptr - (buddy_base_phys s + scast ((ucast ((?ptr - buddy_base_phys s) div PAGE_SIZE) :: uint) * 4096)) =
      of_nat ?r + VA_OFFSET"
    using kfree_diff [OF snub_invD(2) [OF inv] k o(2), of ?ptr] o(1) va by simp
  have "unat (of_nat ?r :: ulong) = ?r" using o(2) by (intro unat_of_nat64) simp
  then have "\<not> of_nat ?r + VA_OFFSET < PAGE_SIZE"
    using o(2) by (simp add: word_less_nat_alt VA_OFFSET_eq unat_add64 del: of_nat_mult of_nat_power)
  then have "kfree ?ptr s = free_pages (obj_pa i ob) s"
    unfolding kfree_def Let_def d by (subst kfree_loop_large) (simp_all add: VIRT_TO_PHYS_def)
  moreover have "free_pages (obj_pa i ob) s = Inl (Fault (slot_ptr (page_array s) k))"
  proof (rule free_pages_high_faults [OF A va _ _ pg(2)])
    have u: "unat (of_nat (4096 * k + ?r) :: ulong) = 4096 * k + ?r" using k o(2) by (intro unat_of_nat64) simp
    then have "unat ((obj_pa i ob - buddy_base_phys s) div PAGE_SIZE) = k"
      using o by (simp add: unat_div del: of_nat_add of_nat_mult)
    then show "(obj_pa i ob - buddy_base_phys s) div PAGE_SIZE = of_nat k"
      using k by (simp add: word_unat_eq_iff unat_of_nat64)
    have "snd ob < 2 ^ (8 - i)" using ob(1) by (simp add: is_obj_def)
    from unat_obj_pa [OF snub_inv_page [OF inv ob(1)] ob(2) this]
    have "unat (obj_pa i ob) = unat (page_pa s k) + ?r" by (simp add: obj_pa_def pg(1))
    then show "obj_pa i ob \<noteq> 0" using page_pa_nonzero [OF st, of k] k by (auto simp: unat_eq_zero)
  qed
  ultimately show ?thesis by simp
qed

text \<open>Before the switch to high addresses every object, whatever its class, is pushed on the list
  of the smallest class.\<close>

lemma kfree_low:
  assumes inv: "snub_inv P G fr s" and q: "quiet s" and va: "va_offset s = 0"
    and ob: "is_obj G i ob" "i < 9" and pg: "fst ob = page_pa s k" "k < unat (num_pages s)"
  shows "\<exists>s'. kfree (obj_pa i ob) s = Inr s' \<and> quiet s' \<and> partial (caches s' ! 0) = obj_pa i ob \<and>
    mem_get64 (m_mem s') (obj_pa i ob) = partial (caches s ! 0) \<and>
    (\<forall>c. c \<noteq> 0 \<longrightarrow> caches s' ! c = caches s ! c)"
proof -
  obtain A where A: "buddy_inv A s" "lock_ready BuddyLock s"
    using snub_invD(1) [OF inv] by (auto simp: pages_inv_def)
  have st: "buddy_static s" using A(1) by (simp add: buddy_inv_def)
  note o = obj_page_offset [OF inv ob pg(1)]
  have k: "k < 0x8000" using pg(2) static_bounds(2) [OF st] by simp
  let ?r = "snd ob * 2 ^ (4 + i)" and ?ptr = "obj_pa i ob"
  have d: "?ptr - (buddy_base_phys s + scast ((ucast ((?ptr - buddy_base_phys s) div PAGE_SIZE) :: uint) * 4096)) =
      of_nat ?r"
    using kfree_diff [OF snub_invD(2) [OF inv] k o(2), of ?ptr] o(1) va by simp
  have u: "unat (of_nat ?r :: ulong) = ?r" using o(2) by (intro unat_of_nat64) simp
  have osz: "ucast (object_size (caches s ! 0)) = (16 :: ulong)" using snub_invD(5) [OF inv, of 0] by simp
  have "?r mod 16 = 0" by (simp add: power_add)
  then have fit: "(of_nat ?r :: ulong) mod 16 = 0" "(of_nat ?r :: ulong) < PAGE_SIZE"
    using u o(2) by (simp_all add: word_unat_eq_iff unat_mod word_less_nat_alt del: of_nat_mult of_nat_power)
  let ?s1 = "cache_locked 0 s"
  note L = cache_locked_ok [OF q inv, of 0]
  have pgo: "page_ok (fst ob)" "snd ob < 2 ^ (8 - i)" using snub_inv_page [OF inv ob(1)] ob(1) by (simp_all add: is_obj_def)
  let ?s2 = "?s1\<lparr>m_mem := mem_put64 (m_mem s) ?ptr (partial (caches s ! 0))\<rparr>"
  have "ram_range ?s1 ?ptr 8"
    using obj_ram [OF pgo(1) ob(2) pgo(2), of ?s1] va by (simp add: PHYS_TO_VIRT_def cache_locked_def)
  then have store: "store64 ?ptr (partial (caches ?s1 ! 0)) ?s1 = Inr ?s2"
    using va by (simp add: store64_def cache_locked_def)
  let ?s3 = "(cache_partial 0 ?ptr ?s2)\<lparr>m_hart := settled (m_hart s), m_locks := (m_locks ?s1)(CacheLock 0 := 0)\<rparr>"
  have dep: "lock_depth (m_hart s) + 1 \<noteq> 0" using q by (simp add: quiet_def)
  have "spin_unlock (CacheLock 0) (cache_partial 0 ?ptr ?s2) = Inr ?s3"
    using spin_unlock_after [OF dep, of "cache_partial 0 ?ptr ?s2" "CacheLock 0"]
    by (simp add: cache_partial_def cache_locked_def)
  then have "kfree ?ptr s = Inr ?s3"
    unfolding kfree_def Let_def d using fit osz L(1) store
    by (simp add: SNUB_NUM_CLASSES_def SNUB_MAX_SHIFT_def SNUB_MIN_SHIFT_def Let_def eval_nat_numeral)
  moreover have "quiet ?s3" using q by (simp add: quiet_def cache_locked_def)
  ultimately show ?thesis
    using snub_invD(4) [OF inv] by (intro exI [of _ ?s3]) (simp add: cache_partial_def cache_locked_def)
qed

section \<open>snub_init\<close>

lemma snub_init_loop_ok:
  "\<lbrakk>n \<le> 9; length (caches s) = 9; quiet s\<rbrakk> \<Longrightarrow>
   let s' = snub_init_loop n s in
     s' = s\<lparr>caches := caches s', m_locks := m_locks s'\<rparr> \<and> length (caches s') = 9 \<and> quiet s' \<and>
     (\<forall>k < 9. caches s' ! k =
        (if 9 - n \<le> k then \<lparr>object_size = push_bit (4 + k) 1, partial = 0\<rparr> else caches s ! k))"
proof (induction n arbitrary: s)
  case (Suc n)
  let ?i = "9 - Suc n"
  let ?s1 = "spinlock_init (CacheLock ?i) (s\<lparr>caches := (caches s)[?i :=
      \<lparr>object_size = push_bit (4 + ?i) 1, partial = 0\<rparr>]\<rparr>)"
  have step: "snub_init_loop (Suc n) s = snub_init_loop n ?s1"
    by (simp add: SNUB_NUM_CLASSES_def SNUB_MAX_SHIFT_def SNUB_MIN_SHIFT_def Let_def)
  have s1: "length (caches ?s1) = 9" "quiet ?s1" "?s1 = s\<lparr>caches := caches ?s1, m_locks := m_locks ?s1\<rparr>"
    using Suc.prems by (simp_all add: spinlock_init_def quiet_def)
  let ?s' = "snub_init_loop n ?s1"
  have r: "?s' = ?s1\<lparr>caches := caches ?s', m_locks := m_locks ?s'\<rparr>" "length (caches ?s') = 9" "quiet ?s'"
      "\<forall>k < 9. caches ?s' ! k = (if 9 - n \<le> k then \<lparr>object_size = push_bit (4 + k) 1, partial = 0\<rparr>
         else caches ?s1 ! k)"
    using Suc.IH [of ?s1] Suc.prems(1) s1(1,2) unfolding Let_def by auto
  have "?s1\<lparr>caches := c, m_locks := l\<rparr> = s\<lparr>caches := c, m_locks := l\<rparr>" for c l by (simp add: spinlock_init_def)
  then have "?s' = s\<lparr>caches := caches ?s', m_locks := m_locks ?s'\<rparr>" using r(1) by metis
  moreover have "caches ?s' ! k = (if ?i \<le> k then \<lparr>object_size = push_bit (4 + k) 1, partial = 0\<rparr>
      else caches s ! k)" if "k < 9" for k
    using r(4) that Suc.prems(1,2) by (cases "k = ?i") (auto simp: spinlock_init_def)
  ultimately show ?case using r(2,3) unfolding step Let_def by blast
qed (simp add: Let_def)

lemma snub_init_ok:
  assumes "pages_inv P s" and "linear_map s" and "quiet s" and "length (caches s) = 9"
  shows "snub_inv P Map.empty (\<lambda>_. []) (snub_init s) \<and> quiet (snub_init s) \<and> m_mem (snub_init s) = m_mem s"
proof -
  let ?s = "snub_init s"
  have e: "?s = s\<lparr>caches := caches ?s, m_locks := m_locks ?s\<rparr>" and l: "length (caches ?s) = 9" "quiet ?s"
    and c: "\<forall>k < 9. caches ?s ! k = \<lparr>object_size = push_bit (4 + k) 1, partial = 0\<rparr>"
    using snub_init_loop_ok [of 9 s] assms(3,4)
    by (simp_all add: snub_init_def SNUB_NUM_CLASSES_def SNUB_MAX_SHIFT_def SNUB_MIN_SHIFT_def Let_def)
  have "m_mem ?s = m_mem s" "va_offset ?s = va_offset s" "m_hart ?s = m_hart s" "pages ?s = pages s"
    "free_lists ?s = free_lists s" "num_pages ?s = num_pages s" "page_array ?s = page_array s"
    "buddy_base_phys ?s = buddy_base_phys s" by (subst e, simp)+
  note g = this
  have "pages_inv P ?s"
    using assms(3) l(2) g by (intro pages_inv_locks [OF assms(1)]) (simp_all add: quiet_def)
  then show ?thesis using assms(2) l c g by (simp add: snub_inv_def linear_map_def)
qed

end
