(* ===== verification/Snub_Props.thy ===== *)
theory Snub_Props
  imports Snub_Ops Paging_Props
begin

text \<open>
  The properties of the object allocator: what \<open>kmalloc\<close> and \<open>kzalloc\<close> hand out, what happens
  when memory runs out, and what \<open>kfree\<close> does to the caches.
\<close>

section \<open>Small concrete states\<close>

abbreviation snub_rest :: "unit snub_ext paging_ext" where
  "snub_rest \<equiv> \<lparr>satp = 0, caches = replicate 9 \<lparr>object_size = 0, partial = 0\<rparr>\<rparr>"

lemma sample_snub:
  "linear_map (sample_with z off) \<longleftrightarrow> off = 0 \<or> off = VA_OFFSET" "quiet (sample_with z off)"
  "length (caches (sample_with snub_rest off)) = 9"
  by (simp_all add: linear_map_def quiet_def sample_with_def sample_hart_def)

text \<open>C16. The class of a size up to a page is the smallest whose objects are large enough; a larger
  size has no class.\<close>

theorem size_to_idx_smallest_class:
  "(unat sz \<le> 4096 \<longrightarrow> (\<exists>i < 9. size_to_idx sz = int i \<and> unat sz \<le> 2 ^ (4 + i) \<and>
       (\<forall>j < i. 2 ^ (4 + j) < unat sz))) \<and>
   (4096 < unat sz \<longrightarrow> size_to_idx sz = -1)"
  by (rule size_to_idx_spec)

theorem size_to_idx_witness: "(\<exists>i < 9. size_to_idx 17 = int i \<and> 17 \<le> (2 :: nat) ^ (4 + i)) \<and> size_to_idx 4097 = -1"
  using size_to_idx_smallest_class [of 17] size_to_idx_smallest_class [of 4097] by auto

text \<open>\<open>snub_init\<close> establishes the invariant of the caches with no page, no free object and no
  object in use.\<close>

theorem snub_init_correct:
  assumes "pages_inv P s" and "linear_map s" and "quiet s" and "length (caches s) = 9"
  shows "snub_inv P Map.empty (\<lambda>_. []) (snub_init s) \<and> quiet (snub_init s) \<and>
    live Map.empty (\<lambda>_. []) = {} \<and> m_mem (snub_init s) = m_mem s"
  using snub_init_ok [OF assms] by (simp add: live_def is_obj_def)

theorem snub_init_witness:
  "snub_inv {} Map.empty (\<lambda>_. []) (snub_init (sample_with snub_rest VA_OFFSET))"
  using snub_init_correct [OF sample_pages [of snub_rest VA_OFFSET]] sample_snub(1,2) [of snub_rest VA_OFFSET] sample_snub(3)
    by simp

lemma snub_sample_inv:
  assumes "off = 0 \<or> off = VA_OFFSET"
  shows "snub_inv {} Map.empty (\<lambda>_. []) (snub_init (sample_with snub_rest off))"
    "quiet (snub_init (sample_with snub_rest off))"
  using snub_init_ok [OF sample_pages [of snub_rest off]] sample_snub(1,2) [of snub_rest off] sample_snub(3) assms
  by simp_all

lemma snub_init_frame: "length (caches s) = 9 \<Longrightarrow> quiet s \<Longrightarrow>
  snub_init s = s\<lparr>caches := caches (snub_init s), m_locks := m_locks (snub_init s)\<rparr>"
  using snub_init_loop_ok [of 9 s]
  by (simp add: snub_init_def SNUB_NUM_CLASSES_def SNUB_MAX_SHIFT_def SNUB_MIN_SHIFT_def Let_def)

lemma snub_init_keeps:
  assumes "length (caches s) = 9" and "quiet s"
  shows "va_offset (snub_init s) = va_offset s" "free_lists (snub_init s) = free_lists s"
  by (subst snub_init_frame [OF assms], simp)+

lemma snub_sample_fields:
  "va_offset (snub_init (sample_with snub_rest off)) = off"
  "free_lists (snub_init (sample_with snub_rest off)) = free_lists (sample_with snub_rest off)"
  using snub_init_keeps [OF sample_snub(3,2)] by (simp_all add: sample_fields)

lemma sample_list: "free_lists (sample_with z off) ! 9 \<noteq> 0"
  by (simp add: sample_with_def)

section \<open>kmalloc and kzalloc\<close>

text \<open>C13. For a size up to a page \<open>kmalloc\<close> either gives an object of a large enough class that was
  not in use, has no byte in common with the objects in use and leaves their contents alone; or,
  with identity addresses, the null pointer; or, at high addresses, it faults. A larger size
  gives the null pointer and changes nothing.\<close>

theorem kmalloc_correct:
  assumes "snub_inv P G fr s" and "quiet s"
  shows "(4096 < unat sz \<longrightarrow> kmalloc sz s = Inr (0, s)) \<and>
    (unat sz \<le> 4096 \<longrightarrow>
     (\<exists>i ob s' P' G' fr'. i < 9 \<and> unat sz \<le> 2 ^ (4 + i) \<and>
        kmalloc sz s = Inr (obj_pa i ob + va_offset s, s') \<and> snub_inv P' G' fr' s' \<and> quiet s' \<and>
        live G' fr' = insert (i, ob) (live G fr) \<and>
        (\<forall>(k, b) \<in> live G fr. obj_cells i ob \<inter> obj_cells k b = {}) \<and>
        (\<forall>p \<in> P. \<forall>x \<in> page_cells p. m_mem s' x = m_mem s x)) \<or>
     va_offset s = 0 \<and> (\<exists>s'. kmalloc sz s = Inr (0, s') \<and> snub_inv P G fr s' \<and> quiet s') \<or>
     va_offset s \<noteq> 0 \<and> kmalloc sz s = Inl (Fault (va_offset s)))"
proof (cases "unat sz \<le> 4096")
  case True
  show ?thesis
  proof (rule kmalloc_ok [OF assms True])
    fix i ob s' P' G' fr'
    assume r: "i < 9" "unat sz \<le> 2 ^ (4 + i)" "kmalloc sz s = Inr (obj_pa i ob + va_offset s, s')"
      "snub_inv P' G' fr' s'" "quiet s'" "live G' fr' = insert (i, ob) (live G fr)" "(i, ob) \<notin> live G fr"
      "\<And>p x. p \<in> P \<Longrightarrow> x \<in> page_cells p \<Longrightarrow> m_mem s' x = m_mem s x"
    have "\<forall>(k, b) \<in> live G fr. obj_cells i ob \<inter> obj_cells k b = {}"
      using live_disjoint [OF r(4), of i ob] r(6,7) by auto
    then show ?thesis using r True
      by (intro conjI impI disjI1 exI [of _ i] exI [of _ ob] exI [of _ s'] exI [of _ P'] exI [of _ G'] exI [of _ fr'])
        simp_all
  qed (use True in auto)
next
  case False
  then have "size_to_idx sz = -1" using size_to_idx_spec [of sz] by simp
  then show ?thesis using False by (simp add: kmalloc_def)
qed

theorem kmalloc_correct_witness:
  "kmalloc 5000 (snub_init (sample_with snub_rest 0)) = Inr (0, snub_init (sample_with snub_rest 0)) \<and>
   (\<exists>p s'. kmalloc 100 (snub_init (sample_with snub_rest 0)) = Inr (p, s') \<and> quiet s')"
proof -
  let ?s = "snub_init (sample_with snub_rest 0)"
  note c = kmalloc_correct [OF snub_sample_inv [of 0]]
  have "kmalloc 5000 ?s = Inr (0, ?s)" using c [of 5000] by simp
  moreover have "\<exists>p s'. kmalloc 100 ?s = Inr (p, s') \<and> quiet s'" using c [of 100] by (auto simp: snub_sample_fields)
  ultimately show ?thesis by blast
qed

text \<open>C15. What \<open>kzalloc\<close> hands out reads as zero over the size asked for, and the objects in use
  keep their contents.\<close>

theorem kzalloc_correct:
  assumes "snub_inv P G fr s" and "quiet s" and "unat sz \<le> 4096" and "kzalloc sz s = Inr (p, s')" and "p \<noteq> 0"
  shows "\<exists>i ob P' G' fr'. i < 9 \<and> unat sz \<le> 2 ^ (4 + i) \<and> p = obj_pa i ob + va_offset s \<and>
     snub_inv P' G' fr' s' \<and> quiet s' \<and> live G' fr' = insert (i, ob) (live G fr) \<and> (i, ob) \<notin> live G fr \<and>
     (\<forall>x. unat (x - obj_pa i ob) < unat sz \<longrightarrow> m_mem s' x = 0) \<and>
     (\<forall>(k, b) \<in> live G fr. \<forall>x \<in> obj_cells k b. m_mem s' x = m_mem s x)"
proof (rule kzalloc_ok [OF assms(1-3)])
  fix i ob t P' G' fr'
  assume r: "i < 9" "unat sz \<le> 2 ^ (4 + i)" "kzalloc sz s = Inr (obj_pa i ob + va_offset s, t)"
    "snub_inv P' G' fr' t" "quiet t" "live G' fr' = insert (i, ob) (live G fr)" "(i, ob) \<notin> live G fr"
    "\<And>x. unat (x - obj_pa i ob) < unat sz \<Longrightarrow> m_mem t x = 0"
    "\<And>k o' x. (k, o') \<in> live G fr \<Longrightarrow> x \<in> obj_cells k o' \<Longrightarrow> m_mem t x = m_mem s x"
  have "p = obj_pa i ob + va_offset s" "s' = t" using r(3) assms(4) by simp_all
  then show ?thesis using r
    by (intro exI [of _ i] exI [of _ ob] exI [of _ P'] exI [of _ G'] exI [of _ fr']) auto
qed (use assms(4,5) in auto)

text \<open>The small state has a page to give, so the call hands out an object.\<close>

lemma cache_locked_alloc:
  assumes inv: "snub_inv P G fr s" and q: "quiet s" and l: "l \<le> 10" "free_lists s ! l \<noteq> 0"
  shows "alloc_page (cache_locked i s) \<noteq> Inr (0, s1)"
proof -
  obtain A where A: "buddy_inv A s" using snub_invD(1) [OF inv] by (auto simp: pages_inv_def)
  have "buddy_inv A (cache_locked i s)" using A by (simp add: buddy_inv_def buddy_static_def cache_locked_def)
  moreover have "lock_ready BuddyLock (cache_locked i s)"
    using q by (simp add: cache_locked_def quiet_def lock_ready_def)
  moreover have "page_pa (cache_locked i s) j \<noteq> 0" if "buddy_inv (insert (j, 0) A) t"
    "lists_only ((cache_locked i s)\<lparr>m_hart := h, m_mem := m\<rparr>) t" for j t h m
    using page_pa_ok [OF that(1), of j 0] lists_only_page_pa [OF that(2), of j]
    by (auto simp: page_ok_def page_pa_def)
  ultimately show ?thesis
    using alloc_pages_ok [of A "cache_locked i s" 0] l by (auto simp: alloc_page_def cache_locked_def)
qed

lemma sample_object:
  assumes "off = 0 \<or> off = VA_OFFSET"
  obtains i ob s' P G fr where "kmalloc 100 (snub_init (sample_with snub_rest off)) = Inr (obj_pa i ob + off, s')"
    "kzalloc 100 (snub_init (sample_with snub_rest off)) \<noteq> Inr (0, s2)"
    "snub_inv P G fr s'" "quiet s'" "(i, ob) \<in> live G fr" "va_offset s' = off" "obj_pa i ob + off \<noteq> 0"
proof -
  let ?s = "snub_init (sample_with snub_rest off)"
  note I = snub_sample_inv [OF assms]
  have some: "alloc_page (cache_locked i ?s) \<noteq> Inr (0, s1)" for i s1
    by (rule cache_locked_alloc [OF I, of 9]) (simp_all add: snub_sample_fields sample_list)
  show thesis
  proof (rule kmalloc_ok [OF I, of 100])
    fix i ob s' P' G' fr'
    assume a: "i < 9" "kmalloc 100 ?s = Inr (obj_pa i ob + va_offset ?s, s')" "snub_inv P' G' fr' s'" "quiet s'"
      "is_obj G' i ob" "va_offset s' = va_offset ?s" "live G' fr' = insert (i, ob) (live Map.empty (\<lambda>_. []))"
    have "obj_pa i ob + va_offset s' \<noteq> 0"
      using obj_virt_nonzero [OF snub_inv_page [OF a(3,5)] a(1), of "snd ob" s'] a(5) snub_invD(2) [OF a(3)]
      by (simp add: is_obj_def)
    then show thesis using that [OF _ _ a(3,4), of i ob] a by (auto simp: snub_sample_fields kzalloc_def rbind_eq_Inr)
  qed (use some in auto)
qed

theorem kzalloc_correct_witness:
  "\<exists>p s' i ob. kzalloc 100 (snub_init (sample_with snub_rest VA_OFFSET)) = Inr (p, s') \<and> p \<noteq> 0 \<and>
     p = obj_pa i ob + VA_OFFSET \<and> (\<forall>x. unat (x - obj_pa i ob) < 100 \<longrightarrow> m_mem s' x = 0)"
proof -
  let ?s = "snub_init (sample_with snub_rest VA_OFFSET)"
  note I = snub_sample_inv [of VA_OFFSET, simplified]
  have some: "alloc_page (cache_locked i ?s) \<noteq> Inr (0, s1)" for i s1
    by (rule cache_locked_alloc [OF I, of 9]) (simp_all add: snub_sample_fields sample_list)
  obtain p s' where r: "kzalloc 100 ?s = Inr (p, s')" by (rule kzalloc_ok [OF I, of 100]) (use some in auto)
  moreover have "p \<noteq> 0" by (rule sample_object [of VA_OFFSET s']) (use r in auto)
  ultimately show ?thesis using kzalloc_correct [OF I _ r] by (auto simp: snub_sample_fields)
qed

section \<open>Memory exhaustion\<close>

text \<open>At high addresses, with the class empty and no page left, \<open>kmalloc\<close> does not return the null
  pointer: the null page, translated to the base of the linear map, passes the check and the
  first store to it faults.\<close>

theorem kmalloc_exhaustion_faults:
  assumes inv: "snub_inv P G fr s" and q: "quiet s" and va: "va_offset s = VA_OFFSET" and sz: "unat sz \<le> 4096"
    and cls: "fr (nat (size_to_idx sz)) = []" and none: "\<And>l. l \<le> 10 \<Longrightarrow> free_lists s ! l = 0"
  shows "kmalloc sz s = Inl (Fault VA_OFFSET)"
proof (rule kmalloc_ok [OF inv q sz])
  fix i
  assume i: "i < 9" "size_to_idx sz = int i"
    "fr i \<noteq> [] \<or> (\<exists>p s1. alloc_page (cache_locked i s) = Inr (p, s1) \<and> p \<noteq> 0)"
  obtain A fl where "bstate s fl A {}" using snub_invD(1) [OF inv] by (auto simp: pages_inv_def buddy_inv_def)
  then have "length (free_lists (cache_locked i s)) = 11" by (simp add: binv_lenD cache_locked_def)
  moreover have "lock_ready BuddyLock (cache_locked i s)"
    using q by (simp add: cache_locked_def quiet_def lock_ready_def)
  ultimately have "\<exists>s1. alloc_page (cache_locked i s) = Inr (0, s1)"
    using alloc_pages_exhausted [of "cache_locked i s" 0] none by (simp add: alloc_page_def cache_locked_def)
  then show ?thesis using i cls by auto
qed (use va in \<open>auto simp: VA_OFFSET_eq\<close>)

theorem kmalloc_exhaustion_witness:
  "kmalloc 64 (snub_init (sample_one_with snub_rest VA_OFFSET)) = Inl (Fault VA_OFFSET)"
proof -
  let ?s = "sample_one_with snub_rest VA_OFFSET"
  have f: "length (caches ?s) = 9" "quiet ?s" "linear_map ?s"
    by (simp_all add: sample_one_with_def sample_with_def sample_hart_def quiet_def linear_map_def)
  have "pages_inv {} ?s" unfolding pages_inv_def
    using sample_one_inv [of snub_rest VA_OFFSET] sample_one_facts(1) [of BuddyLock snub_rest VA_OFFSET] by blast
  note I = snub_init_ok [OF this f(3,2,1)]
  have "va_offset (snub_init ?s) = VA_OFFSET" "free_lists (snub_init ?s) = replicate 11 0"
    using snub_init_keeps [OF f(1,2)] by (simp_all add: sample_one_facts, simp add: sample_one_with_def)
  then show ?thesis
    using kmalloc_exhaustion_faults [of "{}" Map.empty "\<lambda>_. []" "snub_init ?s" 64] I by simp
qed

section \<open>kfree\<close>

lemma live_page:
  assumes "snub_inv P G fr s" and "(i, ob) \<in> live G fr"
  obtains k where "fst ob = page_pa s k" "k < unat (num_pages s)" "is_obj G i ob" "i < 9"
proof -
  have ob: "is_obj G i ob" "i < 9" using assms(2) by (simp_all add: live_def)
  then have "fst ob \<in> P" using snub_invD(3) [OF assms(1)] by (auto simp: is_obj_def)
  then obtain A k where "buddy_inv A s" "(k, 0) \<in> A" "fst ob = page_pa s k"
    using snub_invD(1) [OF assms(1)] by (auto simp: pages_inv_def)
  then show thesis using that buddy_inv_bounds(2) ob by blast
qed

text \<open>With identity addresses \<open>kfree\<close> puts every object on the list of the smallest class,
  whatever its own class is, and no other cache changes.\<close>

theorem kfree_always_smallest_class:
  assumes "snub_inv P G fr s" and "quiet s" and "va_offset s = 0" and "(i, ob) \<in> live G fr"
  shows "\<exists>s'. kfree (obj_pa i ob) s = Inr s' \<and> quiet s' \<and> partial (caches s' ! 0) = obj_pa i ob \<and>
    mem_get64 (m_mem s') (obj_pa i ob) = partial (caches s ! 0) \<and>
    (\<forall>c. c \<noteq> 0 \<longrightarrow> caches s' ! c = caches s ! c)"
proof -
  obtain k where "fst ob = page_pa s k" "k < unat (num_pages s)" "is_obj G i ob" "i < 9"
    using live_page [OF assms(1,4)] .
  then show ?thesis using kfree_low [OF assms(1-3)] by blast
qed

theorem kfree_smallest_class_witness:
  "\<exists>p s1 s2. kmalloc 100 (snub_init (sample_with snub_rest 0)) = Inr (p, s1) \<and> p \<noteq> 0 \<and>
     kfree p s1 = Inr s2 \<and> partial (caches s2 ! 0) = p"
proof (rule sample_object [of 0])
  fix i ob s' P G fr
  assume a: "kmalloc 100 (snub_init (sample_with snub_rest 0)) = Inr (obj_pa i ob + 0, s')"
    "snub_inv P G fr s'" "quiet s'" "(i, ob) \<in> live G fr" "va_offset s' = 0" "obj_pa i ob + 0 \<noteq> 0"
  then show ?thesis using kfree_always_smallest_class [OF a(2,3,5,4)] by auto
qed simp

text \<open>At high addresses \<open>kfree\<close> of an object in use faults, at the page structure of its page.\<close>

theorem kfree_faults_at_high_addresses:
  assumes "snub_inv P G fr s" and "quiet s" and "va_offset s = VA_OFFSET" and "(i, ob) \<in> live G fr"
  shows "\<exists>k < unat (num_pages s). fst ob = page_pa s k \<and>
    kfree (obj_pa i ob + va_offset s) s = Inl (Fault (slot_ptr (page_array s) k))"
proof -
  obtain k where "fst ob = page_pa s k" "k < unat (num_pages s)" "is_obj G i ob" "i < 9"
    using live_page [OF assms(1,4)] .
  then show ?thesis using kfree_high [OF assms(1-3)] by blast
qed

theorem kfree_faults_witness:
  "\<exists>p s1 a. kmalloc 100 (snub_init (sample_with snub_rest VA_OFFSET)) = Inr (p, s1) \<and> p \<noteq> 0 \<and>
     kfree p s1 = Inl (Fault a)"
proof (rule sample_object [of VA_OFFSET])
  fix i ob s' P G fr
  assume a: "kmalloc 100 (snub_init (sample_with snub_rest VA_OFFSET)) = Inr (obj_pa i ob + VA_OFFSET, s')"
    "snub_inv P G fr s'" "quiet s'" "(i, ob) \<in> live G fr" "va_offset s' = VA_OFFSET" "obj_pa i ob + VA_OFFSET \<noteq> 0"
  then show ?thesis using kfree_faults_at_high_addresses [OF a(2,3,5,4)] by auto
qed simp

end
