(* ===== verification/Boot_Props.thy ===== *)
theory Boot_Props
  imports Boot Syscall_Props Snub_Props
begin

text \<open>
  The properties of the boot: the kernel's page table maps exactly the image, the kernel's data and
  the console, each with its permissions, and memory management is up afterwards.
\<close>

section \<open>The window of high addresses\<close>

definition frame32 :: "ulong \<Rightarrow> bool" where
  "frame32 pa \<longleftrightarrow> 4096 dvd unat pa \<and> unat pa < 2 ^ 32"

lemma high_page:
  assumes "frame32 pa"
  shows "unat (pa + VA_OFFSET) div 4096 mod 2 ^ 27 = 0x7F00000 + unat pa div 4096"
proof -
  obtain i where i: "unat pa = 4096 * i" "i < 2 ^ 20" using assms by (auto simp: frame32_def elim!: dvdE)
  have "unat (pa + VA_OFFSET) = unat pa + 0xffffffff00000000"
    using assms by (subst unat_add64) (simp_all add: VA_OFFSET_eq frame32_def)
  then have "unat (pa + VA_OFFSET) = 4096 * (i + 0xffffffff00000)" using i by simp
  then have "unat (pa + VA_OFFSET) div 4096 = i + 0x7F00000 + 33554431 * 2 ^ 27" by simp
  then have "unat (pa + VA_OFFSET) div 4096 mod 2 ^ 27 = (i + 0x7F00000) mod 2 ^ 27" by (simp only: mod_mult_self1)
  then show ?thesis using i by simp
qed

lemma high_same:
  assumes "frame32 pa" "frame32 pb"
  shows "same_page (pa + VA_OFFSET) (pb + VA_OFFSET) \<longleftrightarrow> pa = pb"
proof -
  have "same_page (pa + VA_OFFSET) (pb + VA_OFFSET) \<longleftrightarrow> unat pa div 4096 = unat pb div 4096"
    unfolding same_page_div high_page [OF assms(1)] high_page [OF assms(2)] by simp
  also have "\<dots> \<longleftrightarrow> unat pa = unat pb" using assms by (auto simp: frame32_def elim!: dvdE)
  finally show ?thesis by (simp add: word_unat_eq_iff)
qed

lemma high_not_low: "frame32 pa \<Longrightarrow> unat va < 2 ^ 38 \<Longrightarrow> \<not> same_page (pa + VA_OFFSET) va"
proof -
  assume a: "frame32 pa" "unat va < 2 ^ 38"
  then have "unat va div 4096 < 2 ^ 26" by (simp add: less_mult_imp_div_less)
  then have "unat va div 4096 mod 2 ^ 27 < 0x7F00000" by simp
  then show ?thesis unfolding same_page_div high_page [OF a(1)] by simp
qed

text \<open>The pages of \<open>R\<close> have got the linear mapping with a permission; the rest of the window and the
  low half of the address space translate as before.\<close>

definition linear_look ::
    "ulong \<Rightarrow> 'z buddy_scheme \<Rightarrow> 'z buddy_scheme \<Rightarrow> ulong set \<Rightarrow> int \<Rightarrow> bool" where
  "linear_look root s t R perm \<longleftrightarrow>
     (\<forall>pa. frame32 pa \<longrightarrow> look root t (pa + VA_OFFSET) =
        (if pa \<in> R then Some (leaf_pte pa perm) else look root s (pa + VA_OFFSET))) \<and>
     (\<forall>va. unat va < 2 ^ 38 \<longrightarrow> look root t va = look root s va)"

lemma linear_look_empty: "linear_look root s s {} perm"
  by (simp add: linear_look_def)

lemma linear_look_insert:
  "linear_look root s t R perm \<Longrightarrow> linear_look root t u {pa} perm \<Longrightarrow> linear_look root s u (insert pa R) perm"
  by (simp add: linear_look_def)

section \<open>Mapping linearly\<close>

text \<open>What a mapping step of the boot keeps.\<close>

definition boots :: "ulong \<Rightarrow> 'z buddy_scheme \<Rightarrow> nat \<Rightarrow> 'z buddy_scheme \<Rightarrow> bool" where
  "boots root s m t \<longleftrightarrow> alloc_frame t = alloc_frame s \<and> pages_left m t \<and> (\<exists>P N. pt_space root t P N)"

lemma map_linear_step:
  assumes b: "boots root s0 (2 + m) s" and root: "kernel_pagetable s0 = root" and pa: "frame32 pa"
    and none: "look root s (pa + VA_OFFSET) = None"
  shows "\<exists>t. map_page root (pa + VA_OFFSET) pa perm s = Inr (0, t) \<and> map_linear perm h pa s = Inr (True, t) \<and>
     boots root s0 m t \<and> linear_look root s t {pa} perm"
proof -
  obtain P N where sp: "pt_space root s P N" and fr: "alloc_frame s = alloc_frame s0" and left: "pages_left (2 + m) s"
    using b by (auto simp: boots_def)
  obtain ret t P' N' where r: "map_page root (pa + VA_OFFSET) pa perm s = Inr (ret, t)" "pt_space root t P' N'"
      "alloc_frame t = alloc_frame s"
      "ret = -1 \<and> look root t = look root s \<or>
       ret = 0 \<and> (\<forall>vb. look root t vb = (if same_page (pa + VA_OFFSET) vb then Some (leaf_pte pa perm) else look root s vb))"
      "\<And>k. pages_left (2 + k) s \<Longrightarrow> pages_left k t \<and> ret = 0"
    using pt_space_map [OF sp none] by metis
  have z: "ret = 0" "pages_left m t" using r(5) [OF left] by auto
  have kr: "kernel_pagetable s = root" using alloc_frame_fields(2) [OF fr] root by simp
  have "linear_look root s t {pa} perm"
    using r(4) z(1) high_same [OF pa] high_not_low [OF pa] by (auto simp: linear_look_def)
  then show ?thesis using r(1-3) z fr kr unfolding boots_def by (auto simp: map_linear_def)
qed

text \<open>The frames of a range.\<close>

definition frames_of :: "ulong \<Rightarrow> ulong \<Rightarrow> ulong set" where
  "frames_of beg end_pa = {pa. 4096 dvd unat pa \<and> beg \<le> pa \<and> pa < end_pa}"

lemma frames_of_index:
  assumes "4096 dvd unat beg" "beg \<le> end_pa" "unat end_pa \<le> 2 ^ 32"
  shows "page_at beg ` {..<page_count beg end_pa} = frames_of beg end_pa"
    "k < page_count beg end_pa \<Longrightarrow> frame32 (page_at beg k)"
proof -
  have b: "unat end_pa \<le> 2 ^ 64 - 4096" using assms(3) by simp
  have u: "unat (page_at beg k) = unat beg + 4096 * k" if "k < page_count beg end_pa" for k
    using page_at_bound(1) [OF b _ assms(2)] that by simp
  have lt: "unat beg + 4096 * k < unat end_pa" if "k < page_count beg end_pa" for k
    using that unfolding page_count_iff .
  show "frame32 (page_at beg k)" if "k < page_count beg end_pa" for k
    using u [OF that] lt [OF that] assms by (auto simp: frame32_def)
  show "page_at beg ` {..<page_count beg end_pa} = frames_of beg end_pa"
  proof (intro equalityI subsetI)
    fix pa assume "pa \<in> page_at beg ` {..<page_count beg end_pa}"
    then show "pa \<in> frames_of beg end_pa"
      using u lt assms(1) by (auto simp: frames_of_def word_le_nat_alt word_less_nat_alt)
  next
    fix pa assume "pa \<in> frames_of beg end_pa"
    then have p: "4096 dvd unat pa" "unat beg \<le> unat pa" "unat pa < unat end_pa"
      by (simp_all add: frames_of_def word_le_nat_alt word_less_nat_alt)
    have "4096 dvd unat pa - unat beg" using p(1) assms(1) by (rule dvd_diff_nat)
    then obtain k where k: "unat pa - unat beg = 4096 * k" by (elim dvdE)
    then have e: "unat pa = unat beg + 4096 * k" using p(2) by simp
    then have "k < page_count beg end_pa" using p(3) by (simp add: page_count_iff)
    then show "pa \<in> page_at beg ` {..<page_count beg end_pa}"
      using u e by (intro image_eqI [of _ _ k]) (auto simp: word_unat_eq_iff)
  qed
qed

lemma linear_loop:
  assumes b: "boots root s0 (2 * page_count beg end_pa + m) s" and root: "kernel_pagetable s0 = root"
    and range: "4096 dvd unat beg" "beg \<le> end_pa" "unat end_pa \<le> 2 ^ 32"
    and none: "\<And>pa. pa \<in> frames_of beg end_pa \<Longrightarrow> look root s (pa + VA_OFFSET) = None"
  shows "\<exists>t. for_pages beg end_pa (map_linear perm h) s = Inr (True, t) \<and> boots root s0 m t \<and>
     linear_look root s t (frames_of beg end_pa) perm"
proof -
  let ?n = "page_count beg end_pa"
  let ?I = "\<lambda>k t. boots root s0 (2 * (?n - k) + m) t \<and> linear_look root s t (page_at beg ` {..<k}) perm"
  note f = frames_of_index [OF range]
  have wrap: "unat end_pa \<le> 2 ^ 64 - 4096" using range(3) by simp
  have step: "\<exists>r. map_linear perm h (page_at beg k) t = Inr r \<and> (if fst r then ?I (Suc k) (snd r) else False)"
    if k: "k < ?n" and I: "?I k t" for k t
  proof -
    have "page_at beg k \<notin> page_at beg ` {..<k}"
    proof
      assume "page_at beg k \<in> page_at beg ` {..<k}"
      then obtain j where "j < k" "page_at beg k = page_at beg j" by auto
      then show False using page_at_bound(1) [OF wrap _ range(2), of k] page_at_bound(1) [OF wrap _ range(2), of j] k by simp
    qed
    then have nk: "look root t (page_at beg k + VA_OFFSET) = None"
      using I f(2) [OF k] none [of "page_at beg k"] f(1) k by (auto simp: linear_look_def)
    have "2 * (?n - k) + m = 2 + (2 * (?n - Suc k) + m)" using k by simp
    then have "boots root s0 (2 + (2 * (?n - Suc k) + m)) t" using I by simp
    from map_linear_step [OF this root f(2) [OF k] nk, of perm h]
    obtain u where u: "map_linear perm h (page_at beg k) t = Inr (True, u)" "boots root s0 (2 * (?n - Suc k) + m) u"
        "linear_look root t u {page_at beg k} perm" by blast
    have "linear_look root s u (insert (page_at beg k) (page_at beg ` {..<k})) perm"
      using I u(3) linear_look_insert by blast
    then show ?thesis using u(1,2) by (intro exI [of _ "(True, u)"]) (simp add: lessThan_Suc)
  qed
  have I0: "?I 0 s" using b linear_look_empty by simp
  obtain go t where r: "for_pages beg end_pa (map_linear perm h) s = Inr (go, t)"
      "if go then ?I ?n t else \<exists>k < ?n. False"
    using for_pages_rule [OF range(2) wrap, of ?I s "map_linear perm h" "\<lambda>_ _. False", OF I0 step] by blast
  then show ?thesis using f(1) by (cases go) auto
qed

section \<open>The kernel's address space\<close>

text \<open>The sections of the image as the linker script places them, at physical addresses.\<close>

definition image_layout :: "symbols \<Rightarrow> bool" where
  "image_layout L \<longleftrightarrow>
     4096 dvd unat (low (sym_text_start L)) \<and> 4096 dvd unat (low (sym_rodata_start L)) \<and>
     4096 dvd unat (low (sym_data_start L)) \<and>
     KERNEL_START \<le> low (sym_text_start L) \<and> low (sym_text_start L) \<le> low (sym_text_end L) \<and>
     low (sym_text_end L) \<le> low (sym_rodata_start L) \<and> low (sym_rodata_start L) \<le> low (sym_rodata_end L) \<and>
     low (sym_rodata_end L) \<le> low (sym_data_start L) \<and> low (sym_data_start L) \<le> KERNEL_END"

text \<open>The permissions a frame has in the kernel's address space: text is executable, read-only data
  readable, everything up to the end of the kernel's memory and the console writable.\<close>

definition kernel_perm :: "symbols \<Rightarrow> ulong \<Rightarrow> int option" where
  "kernel_perm L pa =
     (if pa \<in> frames_of (low (sym_text_start L)) (low (sym_text_end L)) then Some 0xA
      else if pa \<in> frames_of (low (sym_rodata_start L)) (low (sym_rodata_end L)) then Some 2
      else if pa \<in> frames_of (low (sym_data_start L)) KERNEL_END then Some 6
      else if pa = 0x10000000 then Some 6 else None)"

lemma kernel_perms: "c_int (PTE_R OR PTE_X) = 0xA" "c_int PTE_R = 2" "c_int (PTE_R OR PTE_W) = 6"
  by (simp_all add: c_int_def PTE_R_def PTE_W_def PTE_X_def)

lemma page_count_le: "unat a \<ge> 0x80000000 \<Longrightarrow> unat b \<le> 0x80800000 \<Longrightarrow> page_count a b \<le> 2048"
  unfolding page_count_def by (rule order_trans [OF div_le_mono [of _ "0x800000 + 4095"]]) simp_all

lemma setup_kernel_pagetable_ok:
  assumes lay: "image_layout L" and sp: "pt_space (kernel_pagetable s) s P N"
    and none: "\<And>va. look (kernel_pagetable s) s va = None" and left: "pages_left (12290 + m) s"
  shows "\<exists>t. setup_kernel_pagetable L s = Inr t \<and> boots (kernel_pagetable s) s m t \<and>
     (\<forall>pa. frame32 pa \<longrightarrow> look (kernel_pagetable s) t (pa + VA_OFFSET) = map_option (leaf_pte pa) (kernel_perm L pa)) \<and>
     (\<forall>va. unat va < 2 ^ 38 \<longrightarrow> look (kernel_pagetable s) t va = None)"
proof -
  let ?r = "kernel_pagetable s"
  let ?a = "low (sym_text_start L)" and ?b = "low (sym_text_end L)" and ?c = "low (sym_rodata_start L)"
    and ?d = "low (sym_rodata_end L)" and ?e = "low (sym_data_start L)"
  have dv: "4096 dvd unat ?a" "4096 dvd unat ?c" "4096 dvd unat ?e"
    and le: "KERNEL_START \<le> ?a" "?a \<le> ?b" "?b \<le> ?c" "?c \<le> ?d" "?d \<le> ?e" "?e \<le> KERNEL_END"
    using lay by (simp_all add: image_layout_def)
  have u: "0x80000000 \<le> unat ?a" "unat ?a \<le> unat ?b" "unat ?b \<le> unat ?c" "unat ?c \<le> unat ?d" "unat ?d \<le> unat ?e"
      "unat ?e \<le> 0x80800000"
    using le by (simp_all add: word_le_nat_alt KERNEL_START_def KERNEL_END_def)
  have hi: "unat ?b \<le> 2 ^ 32" "unat ?d \<le> 2 ^ 32" "unat KERNEL_END \<le> 2 ^ 32" using u by (simp_all add: KERNEL_END_def)
  let ?n1 = "page_count ?a ?b" and ?n2 = "page_count ?c ?d" and ?n3 = "page_count ?e KERNEL_END"
  have n: "?n1 \<le> 2048" "?n2 \<le> 2048" "?n3 \<le> 2048" using u by (intro page_count_le; simp add: KERNEL_END_def)+
  have b0: "boots ?r s (2 * ?n1 + (2 * ?n2 + (2 * ?n3 + (2 + m)))) s"
    unfolding boots_def using sp pages_left_mono [OF left, of "2 * ?n1 + (2 * ?n2 + (2 * ?n3 + (2 + m)))"] n by auto
  obtain s1 where s1: "for_pages ?a ?b (map_linear 0xA H_map_text) s = Inr (True, s1)"
      "boots ?r s (2 * ?n2 + (2 * ?n3 + (2 + m))) s1" "linear_look ?r s s1 (frames_of ?a ?b) 0xA"
    using linear_loop [OF b0 refl dv(1) le(2) hi(1)] none by blast
  have dj: "pa \<in> frames_of ?a ?b \<Longrightarrow> pa \<notin> frames_of ?c ?d \<and> pa \<notin> frames_of ?e KERNEL_END"
      "pa \<in> frames_of ?c ?d \<Longrightarrow> pa \<notin> frames_of ?e KERNEL_END" for pa
    using le(3-5) unfolding frames_of_def by (auto simp: word_le_nat_alt word_less_nat_alt)
  have fr: "frame32 pa" if "pa \<in> frames_of x y" "unat y \<le> 2 ^ 32" for pa x y
    using that by (auto simp: frames_of_def frame32_def word_less_nat_alt)
  have none1: "look ?r s1 (pa + VA_OFFSET) = None" if "pa \<in> frames_of ?c ?d" for pa
    using s1(3) none fr [OF that hi(2)] dj that by (auto simp: linear_look_def)
  obtain s2 where s2: "for_pages ?c ?d (map_linear 2 H_map_rodata) s1 = Inr (True, s2)"
      "boots ?r s (2 * ?n3 + (2 + m)) s2" "linear_look ?r s1 s2 (frames_of ?c ?d) 2"
    using linear_loop [OF s1(2) refl dv(2) le(4) hi(2) none1] by blast
  have none2: "look ?r s2 (pa + VA_OFFSET) = None" if "pa \<in> frames_of ?e KERNEL_END" for pa
    using s2(3) s1(3) none fr [OF that hi(3)] dj that by (auto simp: linear_look_def)
  obtain s3 where s3: "for_pages ?e KERNEL_END (map_linear 6 H_map_data) s2 = Inr (True, s3)"
      "boots ?r s (2 + m) s3" "linear_look ?r s2 s3 (frames_of ?e KERNEL_END) 6"
    using linear_loop [OF s2(2) refl dv(3) le(6) hi(3) none2] by blast
  have ua: "frame32 0x10000000" by (simp add: frame32_def)
  have out: "0x10000000 \<notin> frames_of x y" if "unat x \<ge> 0x80000000" for x y
    using that by (auto simp: frames_of_def word_le_nat_alt)
  have none3: "look ?r s3 (0x10000000 + VA_OFFSET) = None"
    using s3(3) s2(3) s1(3) none ua out u by (auto simp: linear_look_def)
  obtain t where t: "map_page ?r (0x10000000 + VA_OFFSET) 0x10000000 6 s3 = Inr (0, t)" "boots ?r s m t"
      "linear_look ?r s3 t {0x10000000} 6"
    using map_linear_step [OF s3(2) refl ua none3] by blast
  have kp: "kernel_pagetable s3 = ?r" using s3(2) alloc_frame_fields(2) by (auto simp: boots_def)
  have run: "setup_kernel_pagetable L s = Inr t"
    using s1(1) s2(1) s3(1) t(1) by (simp add: setup_kernel_pagetable_def kernel_perms kp UART0_def)
  have "look ?r t (pa + VA_OFFSET) = map_option (leaf_pte pa) (kernel_perm L pa)" if "frame32 pa" for pa
    using s1(3) s2(3) s3(3) t(3) none that dj out u
    by (auto simp: linear_look_def kernel_perm_def)
  moreover have "look ?r t va = None" if "unat va < 2 ^ 38" for va
    using s1(3) s2(3) s3(3) t(3) none that by (simp add: linear_look_def)
  ultimately show ?thesis using run t(2) by blast
qed

section \<open>Memory management\<close>

lemma pages_inv_none: "pages_own P s \<Longrightarrow> pages_inv {} s"
  by (auto simp: pages_own_def pages_inv_def)

lemma pages_inv_updates [simp]:
  "pages_inv P (s\<lparr>va_offset := off\<rparr>) \<longleftrightarrow> pages_inv P s" "pages_inv P (load_pagetable r t) \<longleftrightarrow> pages_inv P t"
  by (simp_all add: pages_inv_def buddy_inv_def buddy_static_def lock_ready_def page_pa_def load_pagetable_def)

lemma caches_more: "buddy.more t = buddy.more s \<Longrightarrow> caches t = caches s"
  by (cases s rule: snub.cases_scheme, cases t rule: snub.cases_scheme) simp

lemma snub_inv_offset:
  assumes "snub_inv P Map.empty (\<lambda>_. []) s"
  shows "snub_inv P Map.empty (\<lambda>_. []) (s\<lparr>va_offset := VA_OFFSET\<rparr>)"
  using assms by (simp add: snub_inv_def linear_map_def)

lemma quiet_frame: "alloc_frame t = alloc_frame s \<Longrightarrow> quiet s \<Longrightarrow> quiet t"
  using alloc_frame_fields(6,10) [of t s] by (simp add: quiet_def)

text \<open>The page that the buddy allocator leaves for the kernel's root table is an empty page table, and its
  owner has no other page.\<close>

lemma kernel_root_space:
  assumes inv: "buddy_inv {} s" "lock_ready BuddyLock s" and va: "va_offset s = 0" and r: "page_ok r"
    and below: "unat r + 4096 \<le> unat (buddy_base_phys s)" and zero: "\<forall>x. unat (x - r) < 4096 \<longrightarrow> m_mem s x = 0"
  shows "pt_space r s {r} [[] \<mapsto> r]" and "look r s va = None"
proof -
  have z: "tab (m_mem s) r i = 0" if "i < 512" for i
    unfolding tab_def using zero pte_cell_in_page [OF r that] by (intro mem_get64_zero) (simp add: page_cells_def)
  note w = empty_table_wf [OF r z]
  have "pages_own {r} s"
  proof (rule pages_own_static)
    show "pages_inv {} s" using inv by (auto simp: pages_inv_def)
  qed (use r below in \<open>simp add: static_page_def\<close>)
  then show sp: "pt_space r s {r} [[] \<mapsto> r]" using w(1) va by (simp add: pt_space_def linear_map_def)
  show "look r s va = None" using look_tree [OF sp] w(2) by simp
qed

text \<open>With the kernel's page table in place, \<open>mm_init\<close> loads it, sets up the object caches and switches to
  the high addresses.\<close>

lemma mm_init_caches:
  assumes sp: "pt_space r s P N" and k: "kernel_pagetable s = r" and q: "quiet s" and c: "length (caches s) = 9"
  defines "t \<equiv> (snub_init (load_pagetable r s))\<lparr>va_offset := VA_OFFSET\<rparr>"
  shows "quiet t" and "snub_inv {} Map.empty (\<lambda>_. []) t" and "kernel_pagetable t = r" and "satp t = MAKE_SATP r"
    and "m_mem t = m_mem s"
proof -
  let ?s3 = "load_pagetable r s"
  have s3: "pages_inv {} ?s3" "linear_map ?s3" "quiet ?s3" "length (caches ?s3) = 9"
  proof -
    show "pages_inv {} ?s3" using sp pages_inv_none [of P s] by (simp add: pt_space_def)
    show "linear_map ?s3" "quiet ?s3" "length (caches ?s3) = 9"
      using sp q c by (simp_all add: pt_space_def linear_map_def load_pagetable_def quiet_def)
  qed
  note si = snub_init_ok [OF s3]
  have f: "snub_init ?s3 = ?s3\<lparr>caches := caches (snub_init ?s3), m_locks := m_locks (snub_init ?s3)\<rparr>"
    by (rule snub_init_frame [OF s3(4,3)])
  show "quiet t" using si by (simp add: quiet_def t_def)
  show "snub_inv {} Map.empty (\<lambda>_. []) t" unfolding t_def by (rule snub_inv_offset [OF conjunct1 [OF si]])
  show "kernel_pagetable t = r" "satp t = MAKE_SATP r" "m_mem t = m_mem s"
    using arg_cong [OF f, of kernel_pagetable] arg_cong [OF f, of satp] arg_cong [OF f, of m_mem] k
    by (simp_all add: load_pagetable_def t_def)
qed

text \<open>C29. \<open>mm_init\<close> on a machine that has just started, with the sections of the image in order
  (\<open>image_layout\<close>), its end between the start of RAM and the end of the kernel's 8 MB, and a number \<open>d\<close> of
  pages between the page after it and the end of RAM for which \<open>d mod 257\<close> is not 1,
  returns with memory management up: the allocator's and the caches' invariants hold with nothing
  handed out, the kernel runs on its own page table with the linear map at high addresses, and that
  table maps every frame below 4 GB at its high address exactly as the image's layout says (text
  readable and executable, read-only data readable, data and the console readable and writable,
  nothing else) and nothing in the low half of the address space.\<close>

theorem mm_init_correct:
  assumes s: "buddy_base_phys s = 0" "va_offset s = 0" "quiet s" "length (caches s) = 9"
    and lay: "image_layout L" and ke: "unat (ALIGN_UP (low (sym_kernel_end L))) + 4096 * Suc d = 0x88000000"
      "0x80000000 \<le> unat (ALIGN_UP (low (sym_kernel_end L)))" "unat (ALIGN_UP (low (sym_kernel_end L))) \<le> 0x80800000"
    and d: "d mod 257 \<noteq> 1"
  shows "\<exists>t. mm_init L s = Inr t \<and> va_offset t = VA_OFFSET \<and> quiet t \<and> snub_inv {} Map.empty (\<lambda>_. []) t \<and>
     kernel_pagetable t = ALIGN_UP (low (sym_kernel_end L)) \<and> satp t = MAKE_SATP (kernel_pagetable t) \<and>
     (\<forall>pa. frame32 pa \<longrightarrow> pt_lookup (m_mem t) (kernel_pagetable t) (pa + VA_OFFSET) =
        map_option (leaf_pte pa) (kernel_perm L pa)) \<and>
     (\<forall>va. unat va < 2 ^ 38 \<longrightarrow> pt_lookup (m_mem t) (kernel_pagetable t) va = None)"
proof -
  let ?r = "ALIGN_UP (low (sym_kernel_end L))"
  obtain s1 where s1: "buddy_allocator_init (low (sym_kernel_end L)) s = Inr (0, s1)" "buddy_inv {} s1"
      "unat (num_pages s1) = 256 * d div 257" "kernel_pagetable s1 = ?r" "va_offset s1 = 0" "m_hart s1 = m_hart s"
      "m_locks s1 = m_locks s" "unat ?r + 4096 \<le> unat (buddy_base_phys s1)" "buddy.more s1 = buddy.more s"
      "\<forall>x. unat (x - ?r) < 4096 \<longrightarrow> m_mem s1 x = 0"
    using buddy_allocator_init_ok [OF s(1,2) ke(1,2) d] by blast
  have q1: "quiet s1" "lock_ready BuddyLock s1" using s(3) s1(6,7) by (simp_all add: quiet_def lock_ready_def)
  have "d \<ge> 30719" using ke(1,3) by simp
  then have left: "pages_left (12290 + 0) s1"
    using pages_left_mono [OF pages_left_init [OF s1(2)], of 12290] s1(3) by simp
  have r: "page_ok ?r"
  proof -
    have "4096 dvd 0x88000000 - 4096 * Suc d" by (intro dvd_diff_nat) simp_all
    then have "4096 dvd unat ?r" using ke(1) by (metis add_diff_cancel_right')
    then show ?thesis using ke by (simp add: page_ok_def)
  qed
  have sp: "pt_space (kernel_pagetable s1) s1 {?r} [[] \<mapsto> ?r]" and none: "\<And>va. look (kernel_pagetable s1) s1 va = None"
    using kernel_root_space [OF s1(2) q1(2) s1(5) r s1(8,10)] s1(4) by simp_all
  obtain s2 where s2: "setup_kernel_pagetable L s1 = Inr s2" "boots ?r s1 0 s2"
      "\<forall>pa. frame32 pa \<longrightarrow> look ?r s2 (pa + VA_OFFSET) = map_option (leaf_pte pa) (kernel_perm L pa)"
      "\<forall>va. unat va < 2 ^ 38 \<longrightarrow> look ?r s2 va = None"
    using setup_kernel_pagetable_ok [OF lay sp none left] unfolding s1(4) by blast
  obtain P N where fr: "alloc_frame s2 = alloc_frame s1" and sp2: "pt_space ?r s2 P N" using s2(2) by (auto simp: boots_def)
  have k: "kernel_pagetable s2 = ?r" "buddy.more s2 = buddy.more s" using alloc_frame_fields(2,9) [OF fr] s1(4,9) by simp_all
  have c: "length (caches s2) = 9" using caches_more [OF k(2)] s(4) by simp
  define t where "t = (snub_init (load_pagetable ?r s2))\<lparr>va_offset := VA_OFFSET\<rparr>"
  note tt = mm_init_caches [OF sp2 k(1) quiet_frame [OF fr q1(1)] c, folded t_def]
  have "mm_init L s = Inr t" "va_offset t = VA_OFFSET"
    using s1(1) s2(1) by (simp_all add: mm_init_def k(1) Let_def t_def)
  then show ?thesis using s2(3,4) tt by (intro exI [of _ t]) simp
qed

text \<open>An image of 131 KB and a machine at reset.\<close>

definition boot_symbols :: symbols where
  "boot_symbols = sample_symbols\<lparr>sym_kernel_end := 0xffffffff80020abc, sym_text_start := 0xffffffff80000000,
     sym_text_end := 0xffffffff80003210, sym_rodata_start := 0xffffffff80004000, sym_rodata_end := 0xffffffff80004800,
     sym_data_start := 0xffffffff80005000\<rparr>"

lemma boot_layout: "image_layout boot_symbols" "low (sym_kernel_end boot_symbols) = 0x80020ABC"
  by (simp_all add: image_layout_def boot_symbols_def sample_symbols_def low_def VA_OFFSET_eq KERNEL_START_def KERNEL_END_def)

theorem mm_init_correct_witness:
  "\<exists>t. mm_init boot_symbols ((sample_with snub_rest 0)\<lparr>buddy_base_phys := 0\<rparr>) = Inr t \<and> va_offset t = VA_OFFSET \<and>
     pt_lookup (m_mem t) (kernel_pagetable t) 0xffffffff80001000 = Some (leaf_pte 0x80001000 0xA) \<and>
     pt_lookup (m_mem t) (kernel_pagetable t) 0xffffffff90000000 = None"
proof -
  let ?s = "(sample_with snub_rest 0)\<lparr>buddy_base_phys := 0\<rparr>"
  have a: "unat (ALIGN_UP (low (sym_kernel_end boot_symbols))) = 0x80021000"
    unfolding boot_layout(2) by (subst unat_ALIGN_UP) simp_all
  have s: "buddy_base_phys ?s = 0" "va_offset ?s = 0" "quiet ?s" "length (caches ?s) = 9"
    by (simp_all add: sample_with_def quiet_def sample_hart_def)
  obtain t where t: "mm_init boot_symbols ?s = Inr t" "va_offset t = VA_OFFSET"
      "\<forall>pa. frame32 pa \<longrightarrow> pt_lookup (m_mem t) (kernel_pagetable t) (pa + VA_OFFSET) =
         map_option (leaf_pte pa) (kernel_perm boot_symbols pa)"
    using mm_init_correct [OF s boot_layout(1), of 32734] a by auto
  have "frame32 0x80001000" "frame32 0x90000000" by (simp_all add: frame32_def)
  moreover have "kernel_perm boot_symbols 0x80001000 = Some 0xA" "kernel_perm boot_symbols 0x90000000 = None"
    by (simp_all add: kernel_perm_def frames_of_def boot_symbols_def low_def VA_OFFSET_eq KERNEL_END_def)
  ultimately show ?thesis using t(1,2) spec [OF t(3), of "0x80001000"] spec [OF t(3), of "0x90000000"]
    by (simp add: VA_OFFSET_eq)
qed

end
