(* ===== verification/Load_Image.thy ===== *)
theory Load_Image
  imports Fresh_Page
begin

text \<open>
  The loop of \<open>create_proc\<close> that loads the user binary: every page of the user range translates to a
  page of its own that holds the next 4096 bytes of the binary, padded with zeros.
\<close>

definition image_perm :: int where "image_perm = 0x1A"

lemma image_perm_eq: "c_int (PTE_R OR PTE_X OR PTE_U) = image_perm"
  by (simp add: c_int_def image_perm_def PTE_R_def PTE_X_def PTE_U_def)

section \<open>Copying into a page\<close>

text \<open>The binary is in pages that the owner has and that are not tables.\<close>

definition source_ok :: "'z machine_scheme \<Rightarrow> ulong \<Rightarrow> nat \<Rightarrow> ulong set \<Rightarrow> (nat list \<rightharpoonup> ulong) \<Rightarrow> bool" where
  "source_ok s src n P N \<longleftrightarrow> ram_range s src n \<and>
     (\<forall>i < n. \<exists>q \<in> P - ran N. src - va_offset s + of_nat i \<in> page_cells q)"

lemma page_ram: "page_ok q \<Longrightarrow> n \<le> 4096 \<Longrightarrow> ram_range s (PHYS_TO_VIRT s q) n"
  by (simp add: ram_range_def page_ok_def PHYS_TO_VIRT_def KERNEL_START_def USER_END_def)

lemma kmemcpy_page:
  assumes q: "page_ok q" and n: "unat n \<le> 4096"
    and src: "ram_range s src (unat n)" "\<And>i. i < unat n \<Longrightarrow> src - va_offset s + of_nat i \<notin> page_cells q"
  shows "\<exists>m. kmemcpy (PHYS_TO_VIRT s q) src n s = Inr (s\<lparr>m_mem := m\<rparr>) \<and>
    (\<forall>x. x \<notin> page_cells q \<longrightarrow> m x = m_mem s x) \<and>
    (\<forall>i < 4096. m (q + of_nat i) =
       (if i < unat n then m_mem s (src - va_offset s + of_nat i) else m_mem s (q + of_nat i)))"
proof -
  let ?a = "src - va_offset s"
  let ?m = "memcpy_loop (m_mem s) q ?a n"
  have apart: "q + of_nat i \<noteq> ?a + of_nat j" if "i < unat n" "j < unat n" for i j
  proof -
    have "q + of_nat i \<in> page_cells q" using that n by (simp add: page_cells_def unat_of_nat64)
    then show ?thesis using src(2) [OF that(2)] by auto
  qed
  have m: "?m x = (if unat (x - q) < unat n then m_mem s (?a + of_nat (unat (x - q))) else m_mem s x)" for x
    using memcpy_loop_put [OF apart, of n "m_mem s"] n by (simp add: put_bytes_apply get_bytes_nth)
  have "kmemcpy (PHYS_TO_VIRT s q) src n s = Inr (s\<lparr>m_mem := ?m\<rparr>)"
    using src(1) page_ram [OF q n, of s] by (simp add: kmemcpy_def memcpy_def PHYS_TO_VIRT_def)
  moreover have "?m x = m_mem s x" if "x \<notin> page_cells q" for x
    using that n by (simp add: m page_cells_def)
  moreover have "?m (q + of_nat i) = (if i < unat n then m_mem s (?a + of_nat i) else m_mem s (q + of_nat i))"
    if "i < 4096" for i
    using that by (simp add: m unat_of_nat64)
  ultimately show ?thesis by blast
qed

section \<open>One page\<close>

definition chunk :: "ulong \<Rightarrow> ulong" where
  "chunk remaining = (if remaining > PAGE_SIZE then PAGE_SIZE else remaining)"

lemma unat_chunk: "unat (chunk r) = min 4096 (unat r)"
  by (auto simp: chunk_def PAGE_SIZE_def word_less_nat_alt)

text \<open>Filling a page just allocated touches no table and none of the owner's other pages.\<close>

lemma load_fresh_page:
  fixes s t :: "'z kernel_scheme"
  assumes sp: "pt_space root s P N" and off: "va_offset t = va_offset s"
    and q: "q \<notin> P" "page_ok q" "pt_space root t (insert q P) N" "keeps_pages s P N t (insert q P) N"
      "\<forall>x \<in> page_cells q. m_mem t x = 0"
    and n: "unat n \<le> 4096" and src: "source_ok s src (unat n) P N"
  obtains t' where "kmemcpy (PHYS_TO_VIRT t q) src n t = Inr t'" and "pt_space root t' (insert q P) N"
    and "look root t' = look root t" and "keeps_pages s P N t' (insert q P) N"
    and "alloc_frame t' = alloc_frame t" and "\<forall>k. pages_left k t' = pages_left k t"
    and "\<forall>i < 4096. m_mem t' (q + of_nat i) = (if i < unat n then m_mem s (src - va_offset s + of_nat i) else 0)"
proof -
  have apart: "x \<notin> page_cells q" if "p \<in> P" "x \<in> page_cells p" for p x
  proof -
    have "page_ok p" using sp that(1) pt_wf_okD by (auto simp: pt_space_def)
    then show ?thesis using page_cells_disjoint [OF _ q(2), of p] q(1) that by blast
  qed
  have keep: "m_mem t x = m_mem s x" if "p \<in> P - ran N" "x \<in> page_cells p" for p x
    using q(4) that unfolding keeps_pages_def by blast
  have src_out: "src - va_offset t + of_nat i \<notin> page_cells q" and
    src_same: "m_mem t (src - va_offset t + of_nat i) = m_mem s (src - va_offset s + of_nat i)"
    if "i < unat n" for i
    using src that apart keep unfolding source_ok_def off by blast+
  have ram: "ram_range t src (unat n)" using src off by (simp add: source_ok_def ram_range_def)
  obtain m where m: "kmemcpy (PHYS_TO_VIRT t q) src n t = Inr (t\<lparr>m_mem := m\<rparr>)"
      "\<forall>x. x \<notin> page_cells q \<longrightarrow> m x = m_mem t x"
      "\<forall>i < 4096. m (q + of_nat i) = (if i < unat n then m_mem t (src - va_offset t + of_nat i) else m_mem t (q + of_nat i))"
    using kmemcpy_page [OF q(2) n ram src_out] by blast
  let ?t = "t\<lparr>m_mem := m\<rparr>"
  have tables: "m x = m_mem t x" if "p \<in> ran N" "x \<in> page_cells p" for p x
  proof -
    have "p \<in> P" using sp that(1) pt_wf_pageD by (fastforce simp: pt_space_def ran_def)
    then show ?thesis using m(2) apart that(2) by blast
  qed
  have wf: "pt_wf (m_mem t) (insert q P) N" using q(3) by (simp add: pt_space_def)
  note out = pt_wf_outside [OF wf tables]
  have sp1: "pt_space root ?t (insert q P) N" using q(3) out(1) by (simp add: pt_space_def linear_map_def)
  have look1: "look root ?t = look root t"
    using look_tree [OF sp1] look_tree [OF q(3)] out(2) by (intro ext) simp
  have keep1: "keeps_pages s P N ?t (insert q P) N" unfolding keeps_pages_def using keep m(2) apart q(4)
    by (auto simp: keeps_pages_def)
  have bytes: "m (q + of_nat i) = (if i < unat n then m_mem s (src - va_offset s + of_nat i) else 0)" if "i < 4096" for i
  proof -
    have "q + of_nat i \<in> page_cells q" using that by (simp add: page_cells_def unat_of_nat64)
    then show ?thesis using m(3) that src_same q(5) by simp
  qed
  show thesis by (rule that [OF m(1) sp1 look1 keep1]) (use bytes in simp_all)
qed

lemma load_page:
  fixes s :: "'z kernel_scheme"
  assumes sp: "pt_space root s P N" and none: "look root s va = None" and rem: "rem > 0"
    and src: "source_ok s src (unat (chunk rem)) P N"
  shows "\<exists>ok q s2 P2 N2. load_binary root va src rem s =
      (if ok then load_binary root (va + PAGE_SIZE) (src + chunk rem) (rem - chunk rem) s2 else Inr ((False, va), s2)) \<and>
    pt_space root s2 P2 N2 \<and> alloc_frame s2 = alloc_frame s \<and> keeps_pages s P N s2 P2 N2 \<and>
    (\<forall>vb. \<not> same_page va vb \<longrightarrow> look root s2 vb = look root s vb) \<and>
    (ok \<longrightarrow> q \<in> P2 - P - ran N2 \<and> look root s2 va = Some (leaf_pte q image_perm) \<and>
       (\<forall>i < 4096. m_mem s2 (q + of_nat i) =
          (if i < unat (chunk rem) then m_mem s (src - va_offset s + of_nat i) else 0))) \<and>
    (\<forall>m. pages_left (3 + m) s \<longrightarrow> ok \<and> pages_left m s2)"
proof -
  obtain q t where a: "alloc_page s = Inr (q, t)"
    using own_pages.alloc_total sp unfolding pt_space_def by blast
  note al = pt_space_alloc [OF sp a]
  have run0: "load_binary root va src rem s = (if q = 0 then Inr ((False, va), t)
      else rbind (kmemcpy (PHYS_TO_VIRT t q) src (chunk rem) t) (\<lambda>s.
           rbind (try_map root va q (PTE_R OR PTE_X OR PTE_U) s) (\<lambda>(ok, s).
           if ok then load_binary root (va + PAGE_SIZE) (src + chunk rem) (rem - chunk rem) s
           else Inr ((False, va), s))))"
    using rem a by (subst load_binary.simps) (simp add: chunk_def [symmetric] Let_def)
  show ?thesis
  proof (cases "q = 0")
    case True
    moreover have "\<not> pages_left (3 + m) s" for m using al(5) [of "2 + m"] True by (auto simp: numeral_3_eq_3)
    ultimately show ?thesis using run0 al(1,2) al(3) [OF True]
      by (intro exI [of _ False] exI [of _ q] exI [of _ t] exI [of _ P] exI [of _ N]) simp
  next
    case False
    then have n: "q \<notin> P" "page_ok q" "pt_space root t (insert q P) N" "keeps_pages s P N t (insert q P) N"
        "q \<notin> ran N" "\<forall>x \<in> page_cells q. m_mem t x = 0" using al(4) by auto
    have off: "va_offset t = va_offset s" using alloc_frame_fields [OF al(1)] by simp
    have c4: "unat (chunk rem) \<le> 4096" by (simp add: unat_chunk)
    obtain u where u: "kmemcpy (PHYS_TO_VIRT t q) src (chunk rem) t = Inr u" "pt_space root u (insert q P) N"
        "look root u = look root t" "keeps_pages s P N u (insert q P) N" "alloc_frame u = alloc_frame t"
        "\<forall>k. pages_left k u = pages_left k t"
        "\<forall>i < 4096. m_mem u (q + of_nat i) = (if i < unat (chunk rem) then m_mem s (src - va_offset s + of_nat i) else 0)"
      using load_fresh_page [OF sp off n(1-4,6) c4 src] by blast
    have look1: "look root u = look root s" using u(3) al(2) by simp
    have none1: "look root u va = None" using none look1 by simp
    obtain ret s2 P2 N2 where r: "map_page root va q image_perm u = Inr (ret, s2)" "pt_space root s2 P2 N2"
        "alloc_frame s2 = alloc_frame u" "keeps_pages s P N s2 P2 N2" "q \<in> P2 - P - ran N2"
        "\<forall>x \<in> page_cells q. m_mem s2 x = m_mem u x"
        "\<forall>vb. \<not> same_page va vb \<longrightarrow> look root s2 vb = look root u vb"
        "ret \<noteq> -1 \<longrightarrow> look root s2 va = Some (leaf_pte q image_perm)"
        "\<forall>k. pages_left (2 + k) u \<longrightarrow> pages_left k s2 \<and> ret \<noteq> -1"
      using pt_space_map_fresh [OF u(2,4) n(1,5) none1, where perm = image_perm] by blast
    have run: "load_binary root va src rem s =
        (if ret \<noteq> -1 then load_binary root (va + PAGE_SIZE) (src + chunk rem) (rem - chunk rem) s2 else Inr ((False, va), s2))"
      using run0 False u(1) r(1) by (simp add: try_map_def image_perm_eq)
    have frame: "alloc_frame s2 = alloc_frame s" using r(3) u(5) al(1) by simp
    have bytes: "m_mem s2 (q + of_nat i) = (if i < unat (chunk rem) then m_mem s (src - va_offset s + of_nat i) else 0)"
      if "i < 4096" for i
    proof -
      have "q + of_nat i \<in> page_cells q" using that by (simp add: page_cells_def unat_of_nat64)
      then show ?thesis using r(6) u(7) that by simp
    qed
    have left: "ret \<noteq> -1 \<and> pages_left m s2" if "pages_left (3 + m) s" for m
      using al(5) [of "2 + m"] spec [OF r(9), of m] u(6) that by (auto simp: numeral_3_eq_3)
    show ?thesis
      using run r(2,4,5,7,8) frame look1 bytes left
      by (intro exI [of _ "ret \<noteq> -1"] exI [of _ q] exI [of _ s2] exI [of _ P2] exI [of _ N2]) simp
  qed
qed

section \<open>The whole binary\<close>

definition image_pages :: "ulong \<Rightarrow> nat" where
  "image_pages rem = (unat rem + 4095) div 4096"

definition image_at ::
    "ulong \<Rightarrow> ulong \<Rightarrow> ulong \<Rightarrow> (nat \<Rightarrow> byte) \<Rightarrow> ulong set \<Rightarrow> (nat \<Rightarrow> ulong) \<Rightarrow> 'z buddy_scheme \<Rightarrow> ulong set \<Rightarrow> (nat list \<rightharpoonup> ulong) \<Rightarrow> bool" where
  "image_at root va rem bytes P f s' P' N' \<longleftrightarrow>
     inj_on f {..<image_pages rem} \<and>
     (\<forall>j < image_pages rem. f j \<in> P' - P - ran N' \<and> look root s' (page_at va j) = Some (leaf_pte (f j) image_perm) \<and>
       (\<forall>i < 4096. m_mem s' (f j + of_nat i) = (if 4096 * j + i < unat rem then bytes (4096 * j + i) else 0)))"

lemma image_at_cong:
  assumes "\<And>i. i < unat rem \<Longrightarrow> b i = b' i"
  shows "image_at root va rem b P f s' P' N' \<longleftrightarrow> image_at root va rem b' P f s' P' N'"
proof -
  have "(if k < unat rem then b k else 0) = (if k < unat rem then b' k else 0)" for k using assms by simp
  then show ?thesis unfolding image_at_def by (simp only:)
qed

lemma unat_rest: "unat (rem - chunk rem) = unat rem - unat (chunk rem)"
  by (rule unat_sub64) (simp add: word_le_nat_alt unat_chunk)

lemma image_pages_rest: "rem > 0 \<Longrightarrow> image_pages rem = Suc (image_pages (rem - chunk rem))"
  by (auto simp: image_pages_def unat_rest unat_chunk word_less_nat_alt min_def)

lemma source_rest:
  assumes src: "source_ok s src (unat rem) P N" and keep: "keeps_pages s P N s2 P2 N2" and off: "va_offset s2 = va_offset s"
  shows "source_ok s2 (src + chunk rem) (unat (rem - chunk rem)) P2 N2"
    and "i < unat (rem - chunk rem) \<Longrightarrow>
      m_mem s2 (src + chunk rem - va_offset s2 + of_nat i) = m_mem s (src - va_offset s + of_nat (unat (chunk rem) + i))"
proof -
  let ?a = "src - va_offset s" and ?c = "unat (chunk rem)"
  have c: "?c \<le> unat rem" by (simp add: unat_chunk)
  have cell: "src + chunk rem - va_offset s2 + of_nat i = ?a + of_nat (?c + i)" for i
    by (simp add: off algebra_simps)
  have at: "\<exists>q \<in> P - ran N. ?a + of_nat (?c + i) \<in> page_cells q" if "i < unat (rem - chunk rem)" for i
  proof -
    have "?c + i < unat rem" using that by (simp add: unat_rest)
    then show ?thesis using src unfolding source_ok_def by blast
  qed
  have "unat ?a + ?c < 2 ^ 64" using src c by (simp add: source_ok_def ram_range_def Let_def USER_END_def)
  then have "unat (src + chunk rem - va_offset s2) = unat ?a + ?c"
    using unat_add64 [of ?a "chunk rem"] by (simp add: off algebra_simps)
  then have "ram_range s2 (src + chunk rem) (unat (rem - chunk rem))"
    using src c by (simp add: source_ok_def ram_range_def Let_def unat_rest)
  moreover have "\<exists>q \<in> P2 - ran N2. src + chunk rem - va_offset s2 + of_nat i \<in> page_cells q"
    if "i < unat (rem - chunk rem)" for i
    unfolding cell using at [OF that] keep unfolding keeps_pages_def by blast
  ultimately show "source_ok s2 (src + chunk rem) (unat (rem - chunk rem)) P2 N2" by (simp add: source_ok_def)
  show "m_mem s2 (src + chunk rem - va_offset s2 + of_nat i) = m_mem s (?a + of_nat (?c + i))"
    if "i < unat (rem - chunk rem)"
    unfolding cell using at [OF that] keep unfolding keeps_pages_def by blast
qed

lemma page_at_shift: "page_at (va + PAGE_SIZE) j = page_at va (Suc j)"
  by (simp add: page_at_def algebra_simps)

text \<open>The first page and the rest of the image make the image.\<close>

lemma image_at_cons:
  assumes rem: "rem > 0"
    and q: "q \<in> P2 - P - ran N2" "look root s2 va = Some (leaf_pte q image_perm)"
      "\<forall>i < 4096. m_mem s2 (q + of_nat i) = (if i < unat (chunk rem) then bytes i else 0)"
    and rest: "image_at root (va + PAGE_SIZE) (rem - chunk rem) (\<lambda>i. bytes (unat (chunk rem) + i)) P2 g s' P' N'"
    and keep: "keeps_pages s2 P2 N2 s' P' N'" and sub: "P \<subseteq> P2"
    and va: "look root s' va = look root s2 va"
  shows "image_at root va rem bytes P (case_nat q g) s' P' N'"
proof -
  let ?r = "rem - chunk rem"
  have n: "image_pages rem = Suc (image_pages ?r)" by (rule image_pages_rest [OF rem])
  have g: "g j \<in> P' - P2 - ran N'" "look root s' (page_at (va + PAGE_SIZE) j) = Some (leaf_pte (g j) image_perm)"
      "\<forall>i < 4096. m_mem s' (g j + of_nat i) = (if 4096 * j + i < unat ?r then bytes (unat (chunk rem) + (4096 * j + i)) else 0)"
    if "j < image_pages ?r" for j
    using rest that unfolding image_at_def by blast+
  have q': "q \<in> P'" "q \<notin> ran N'" "\<forall>x \<in> page_cells q. m_mem s' x = m_mem s2 x"
    using keep q(1) unfolding keeps_pages_def by blast+
  have cells: "m_mem s' (q + of_nat i) = (if i < unat rem then bytes i else 0)" if "i < 4096" for i
  proof -
    have "q + of_nat i \<in> page_cells q" using that by (simp add: page_cells_def unat_of_nat64)
    then have "m_mem s' (q + of_nat i) = m_mem s2 (q + of_nat i)" using q'(3) by blast
    then show ?thesis using q(3) that by (simp add: unat_chunk)
  qed
  have full: "unat (chunk rem) = 4096" if "j < image_pages ?r" for j
    using that by (auto simp: image_pages_def unat_rest unat_chunk min_def split: if_splits)
  have "inj_on (case_nat q g) {..<image_pages rem}"
  proof (rule inj_onI)
    fix x y assume "x \<in> {..<image_pages rem}" "y \<in> {..<image_pages rem}" "case_nat q g x = case_nat q g y"
    then show "x = y"
      using rest g(1) q(1) unfolding n image_at_def inj_on_def by (cases x; cases y) auto
  qed
  moreover have "case_nat q g j \<in> P' - P - ran N' \<and>
      look root s' (page_at va j) = Some (leaf_pte (case_nat q g j) image_perm) \<and>
      (\<forall>i < 4096. m_mem s' (case_nat q g j + of_nat i) = (if 4096 * j + i < unat rem then bytes (4096 * j + i) else 0))"
    if j: "j < image_pages rem" for j
  proof (cases j)
    case 0
    then show ?thesis using q(1,2) q'(1,2) va cells by simp
  next
    case (Suc k)
    then have k: "k < image_pages ?r" using j n by simp
    have "4096 * Suc k + i < unat rem \<longleftrightarrow> 4096 * k + i < unat ?r" for i
      using full [OF k] by (auto simp: unat_rest)
    then show ?thesis
      using Suc g [OF k] full [OF k] sub by (auto simp: page_at_shift add.assoc)
  qed
  ultimately show ?thesis unfolding image_at_def by blast
qed

lemma load_binary_ok:
  fixes s :: "'z kernel_scheme"
  assumes "pt_space root s P N" and "unat va + 4096 * image_pages rem \<le> 2 ^ 39"
    and "\<And>j. j < image_pages rem \<Longrightarrow> look root s (page_at va j) = None"
    and "source_ok s src (unat rem) P N"
  shows "\<exists>ok v s' P' N'. load_binary root va src rem s = Inr ((ok, v), s') \<and>
    pt_space root s' P' N' \<and> alloc_frame s' = alloc_frame s \<and> keeps_pages s P N s' P' N' \<and>
    (\<forall>vb. (\<forall>j < image_pages rem. \<not> same_page (page_at va j) vb) \<longrightarrow> look root s' vb = look root s vb) \<and>
    (ok \<longrightarrow> v = page_at va (image_pages rem) \<and>
       (\<exists>f. image_at root va rem (\<lambda>i. m_mem s (src - va_offset s + of_nat i)) P f s' P' N')) \<and>
    (\<forall>m. pages_left (3 * image_pages rem + m) s \<longrightarrow> ok \<and> pages_left m s')"
  using assms
proof (induction "unat rem" arbitrary: va src rem s P N rule: less_induct)
  case less
  note sp = less.prems(1) and bound = less.prems(2) and none = less.prems(3) and src = less.prems(4)
  show ?case
  proof (cases "rem = 0")
    case True
    then have "load_binary root va src rem s = Inr ((True, va), s)" by (subst load_binary.simps) simp
    then show ?thesis using sp True
      by (intro exI [of _ True] exI [of _ va] exI [of _ s] exI [of _ P] exI [of _ N])
        (simp add: keeps_pages_refl image_at_def image_pages_def)
  next
    case False
    then have rem: "rem > 0" by (simp add: word_gt_0)
    let ?r = "rem - chunk rem" and ?n = "image_pages rem"
    have n: "?n = Suc (image_pages ?r)" by (rule image_pages_rest [OF rem])
    have src1: "source_ok s src (unat (chunk rem)) P N"
      using src by (auto simp: source_ok_def ram_range_def Let_def unat_chunk)
    have none0: "look root s va = None" using none [of 0] n by simp
    obtain ok q s2 P2 N2 where st: "load_binary root va src rem s =
        (if ok then load_binary root (va + PAGE_SIZE) (src + chunk rem) ?r s2 else Inr ((False, va), s2))"
      "pt_space root s2 P2 N2" "alloc_frame s2 = alloc_frame s" "keeps_pages s P N s2 P2 N2"
      "\<forall>vb. \<not> same_page va vb \<longrightarrow> look root s2 vb = look root s vb"
      "ok \<longrightarrow> q \<in> P2 - P - ran N2 \<and> look root s2 va = Some (leaf_pte q image_perm) \<and>
       (\<forall>i < 4096. m_mem s2 (q + of_nat i) =
          (if i < unat (chunk rem) then m_mem s (src - va_offset s + of_nat i) else 0))"
      "\<forall>m. pages_left (3 + m) s \<longrightarrow> ok \<and> pages_left m s2"
      using load_page [OF sp none0 rem src1] by blast
    have off: "va_offset s2 = va_offset s" using alloc_frame_fields [OF st(3)] by simp
    show ?thesis
    proof (cases ok)
      case False
      then have "\<not> pages_left (3 * ?n + m) s" for m
        using st(7) [rule_format, of "3 * image_pages ?r + m"] n by (auto simp: add.assoc)
      moreover have "\<forall>vb. (\<forall>j < ?n. \<not> same_page (page_at va j) vb) \<longrightarrow> look root s2 vb = look root s vb"
        using st(5) n by (metis page_at_0 zero_less_Suc)
      ultimately show ?thesis using st(1-4) False by auto
    next
      case True
      have apart: "\<not> same_page va (page_at (va + PAGE_SIZE) j)" if "j < image_pages ?r" for j
        using page_at_same [of va 0 "Suc j"] that bound n unfolding page_at_shift by simp
      have "unat (va + PAGE_SIZE) + 4096 * image_pages ?r \<le> 2 ^ 39"
        using bound n by (subst unat_add64) (simp_all add: PAGE_SIZE_def)
      moreover have "unat ?r < unat rem" using rem by (simp add: unat_rest unat_chunk word_less_nat_alt)
      moreover have "look root s2 (page_at (va + PAGE_SIZE) j) = None" if "j < image_pages ?r" for j
        using st(5) apart [OF that] none [of "Suc j"] that n by (simp add: page_at_shift)
      ultimately obtain ok' v s' P' N' where r: "load_binary root (va + PAGE_SIZE) (src + chunk rem) ?r s2 = Inr ((ok', v), s')"
        "pt_space root s' P' N'" "alloc_frame s' = alloc_frame s2" "keeps_pages s2 P2 N2 s' P' N'"
        "\<forall>vb. (\<forall>j < image_pages ?r. \<not> same_page (page_at (va + PAGE_SIZE) j) vb) \<longrightarrow> look root s' vb = look root s2 vb"
        "ok' \<longrightarrow> v = page_at (va + PAGE_SIZE) (image_pages ?r) \<and> (\<exists>f. image_at root (va + PAGE_SIZE) ?r
           (\<lambda>i. m_mem s2 (src + chunk rem - va_offset s2 + of_nat i)) P2 f s' P' N')"
        "\<forall>m. pages_left (3 * image_pages ?r + m) s2 \<longrightarrow> ok' \<and> pages_left m s'"
        using less.hyps [of ?r s2 P2 N2 "va + PAGE_SIZE" "src + chunk rem"] st(2) source_rest(1) [OF src st(4) off] by blast
      have look': "look root s' vb = look root s vb" if "\<forall>j < ?n. \<not> same_page (page_at va j) vb" for vb
      proof -
        have "\<not> same_page va vb" "\<forall>j < image_pages ?r. \<not> same_page (page_at (va + PAGE_SIZE) j) vb"
          using that n by (auto simp: page_at_shift dest: spec [of _ 0])
        then show ?thesis using r(5) st(5) by simp
      qed
      have image: "v = page_at va ?n \<and> (\<exists>f. image_at root va rem (\<lambda>i. m_mem s (src - va_offset s + of_nat i)) P f s' P' N')"
        if ok'
      proof -
        obtain g where g: "image_at root (va + PAGE_SIZE) ?r (\<lambda>i. m_mem s2 (src + chunk rem - va_offset s2 + of_nat i)) P2 g s' P' N'"
          and v: "v = page_at va ?n"
          using r(6) \<open>ok'\<close> n by (auto simp: page_at_shift)
        have g': "image_at root (va + PAGE_SIZE) ?r (\<lambda>i. m_mem s (src - va_offset s + of_nat (unat (chunk rem) + i))) P2 g s' P' N'"
          by (rule image_at_cong [THEN iffD1, OF _ g]) (rule source_rest(2) [OF src st(4) off])
        have "look root s' va = look root s2 va" using r(5) apart same_page_sym by blast
        then show ?thesis
          using image_at_cons [OF rem _ _ _ g' r(4)] st(4,6) True v unfolding keeps_pages_def by blast
      qed
      have left: "ok' \<and> pages_left m s'" if "pages_left (3 * ?n + m) s" for m
      proof -
        have "pages_left (3 + (3 * image_pages ?r + m)) s" using that n by (simp add: add.assoc)
        then show ?thesis using st(7) r(7) by blast
      qed
      show ?thesis
        using st(1) True r(1-3) st(3) keeps_pages_trans [OF st(4) r(4)] look' image left by auto
    qed
  qed
qed

end
