(* ===== verification/Proc_Props.thy ===== *)
theory Proc_Props
  imports Load_Image Syscall_Props
begin

text \<open>
  The part of \<open>create_proc\<close> that builds the user memory of a process: the binary, the heap bounds and
  the stack.
\<close>

section \<open>Process records do not matter to the tables\<close>

lemma pages_own_procs [simp]:
  fixes s :: "'z kernel_scheme"
  shows "pages_own P (s\<lparr>procs := h\<rparr>) \<longleftrightarrow> pages_own P s"
  by (simp add: pages_own_def pages_inv_def static_page_def lock_ready_def buddy_inv_def buddy_static_def page_pa_def)

lemma pages_left_procs [simp]:
  fixes s :: "'z kernel_scheme"
  shows "pages_left n (s\<lparr>procs := h\<rparr>) \<longleftrightarrow> pages_left n s"
  by (simp add: pages_left_def buddy_inv_def buddy_static_def)

lemma pt_space_procs [simp]:
  fixes s :: "'z kernel_scheme"
  shows "pt_space root (s\<lparr>procs := h\<rparr>) P N \<longleftrightarrow> pt_space root s P N"
  by (simp add: pt_space_def linear_map_def)

lemma keeps_pages_procs [simp]:
  fixes s :: "'z kernel_scheme"
  shows "keeps_pages (s\<lparr>procs := h\<rparr>) P N t Q M \<longleftrightarrow> keeps_pages s P N t Q M"
    and "keeps_pages t Q M (s\<lparr>procs := h\<rparr>) P N \<longleftrightarrow> keeps_pages t Q M s P N"
  by (simp_all add: keeps_pages_def)

section \<open>The image survives later mappings\<close>

lemma image_at_keep:
  assumes "image_at root va rem bytes P f s1 P1 N1" and "keeps_pages s1 P1 N1 s2 P2 N2"
    and "\<And>j. j < image_pages rem \<Longrightarrow> look root s2 (page_at va j) = look root s1 (page_at va j)"
  shows "image_at root va rem bytes P f s2 P2 N2"
proof -
  have "f j \<in> P2 - P - ran N2 \<and> look root s2 (page_at va j) = Some (leaf_pte (f j) image_perm) \<and>
      (\<forall>i < 4096. m_mem s2 (f j + of_nat i) = (if 4096 * j + i < unat rem then bytes (4096 * j + i) else 0))"
    if j: "j < image_pages rem" for j
  proof -
    have a: "f j \<in> P1 - ran N1" "f j \<notin> P" "look root s1 (page_at va j) = Some (leaf_pte (f j) image_perm)"
        "\<forall>i < 4096. m_mem s1 (f j + of_nat i) = (if 4096 * j + i < unat rem then bytes (4096 * j + i) else 0)"
      using assms(1) j unfolding image_at_def by blast+
    then have k: "f j \<in> P2" "f j \<notin> ran N2" "\<forall>x \<in> page_cells (f j). m_mem s2 x = m_mem s1 x"
      using assms(2) unfolding keeps_pages_def by blast+
    have "f j + of_nat i \<in> page_cells (f j)" if "i < 4096" for i
      using that by (simp add: page_cells_def unat_of_nat64)
    then show ?thesis using a k assms(3) [OF j] by simp
  qed
  then show ?thesis using assms(1) unfolding image_at_def by blast
qed

definition stack_page :: ulong where "stack_page = USER_STACK_TOP - USER_STACK_SIZE"

lemma unat_stack_page: "unat stack_page = 0x77FF000"
  by (simp add: stack_page_def USER_STACK_TOP_def USER_STACK_SIZE_def USER_END_VA_def PAGE_SIZE_def)

lemma image_below_stack:
  assumes "4096 * image_pages rem \<le> unat stack_page" and "j < image_pages rem"
  shows "\<not> same_page (page_at USER_START_VA j) stack_page"
proof -
  have s: "stack_page = page_at USER_START_VA 0x77FF"
    by (simp add: stack_page_def page_at_def USER_STACK_TOP_def USER_STACK_SIZE_def USER_END_VA_def USER_START_VA_def PAGE_SIZE_def)
  have "j < 0x77FF" using assms unat_stack_page by simp
  then show ?thesis unfolding s by (subst page_at_same) (simp_all add: USER_START_VA_def)
qed

section \<open>The stack page\<close>

text \<open>The last step of the image: a fresh page, recorded as the stack and mapped at the top of the user
  range.\<close>

lemma stack_step_ok:
  fixes s :: "'z kernel_scheme"
  assumes p: "procs s p = Some v" and sp: "pt_space root s P N" and none: "look root s stack_page = None"
  obtains ok us s' P' N' where
    "rbind (alloc_page s) (\<lambda>(us, s). rbind (upd_proc p (\<lambda>v. v\<lparr>ustack := us\<rparr>) s) (\<lambda>s.
       if us = 0 then Inr (False, s) else try_map root stack_page us (PTE_R OR PTE_W OR PTE_U) s)) = Inr (ok, s')"
    and "pt_space root s' P' N'" and "keeps_pages s P N s' P' N'" and "procs s' = (procs s)(p \<mapsto> v\<lparr>ustack := us\<rparr>)"
    and "\<forall>vb. \<not> same_page stack_page vb \<longrightarrow> look root s' vb = look root s vb"
    and "ok \<longrightarrow> us \<in> P' - P - ran N' \<and> (\<forall>x \<in> page_cells us. m_mem s' x = 0) \<and>
      look root s' stack_page = Some (leaf_pte us heap_perm)"
    and "pages_left 3 s \<longrightarrow> ok"
proof -
  obtain us t where a: "alloc_page s = Inr (us, t)"
    using own_pages.alloc_total sp unfolding pt_space_def by blast
  note al = pt_space_alloc [OF sp a]
  define t2 where "t2 = t\<lparr>procs := (procs s)(p \<mapsto> v\<lparr>ustack := us\<rparr>)\<rparr>"
  have run: "rbind (alloc_page s) (\<lambda>(us, s). rbind (upd_proc p (\<lambda>v. v\<lparr>ustack := us\<rparr>) s) (\<lambda>s.
       if us = 0 then Inr (False, s) else try_map root stack_page us (PTE_R OR PTE_W OR PTE_U) s)) =
     (if us = 0 then Inr (False, t2) else try_map root stack_page us (PTE_R OR PTE_W OR PTE_U) t2)"
    using a p alloc_frame_kernel(1) [OF al(1)] by (simp add: upd_proc_def get_proc_def t2_def)
  have look: "look root t2 vb = look root s vb" for vb using al(2) by (simp add: t2_def)
  have left: "us \<noteq> 0 \<and> pages_left 2 t2" if "pages_left 3 s"
    using al(5) [of 2] that by (simp add: t2_def numeral_3_eq_3 numeral_2_eq_2)
  show thesis
  proof (cases "us = 0")
    case True
    have sp2: "pt_space root t2 P N" "keeps_pages s P N t2 P N" using al(3) [OF True] by (simp_all add: t2_def)
    show ?thesis by (rule that [OF _ sp2, of False us]) (use run True look left in \<open>auto simp: t2_def\<close>)
  next
    case False
    then have n: "us \<notin> P" "pt_space root t2 (insert us P) N" "keeps_pages s P N t2 (insert us P) N" "us \<notin> ran N"
        "\<And>x. x \<in> page_cells us \<Longrightarrow> m_mem t2 x = 0" using al(4) by (auto simp: t2_def)
    have nt: "look root t2 stack_page = None" using none look by simp
    obtain ret s' P' N' where r: "map_page root stack_page us heap_perm t2 = Inr (ret, s')" "pt_space root s' P' N'"
        "alloc_frame s' = alloc_frame t2" "keeps_pages s P N s' P' N'" "us \<in> P' - P - ran N'"
        "\<forall>x \<in> page_cells us. m_mem s' x = m_mem t2 x"
        "\<forall>vb. \<not> same_page stack_page vb \<longrightarrow> look root s' vb = look root t2 vb"
        "ret \<noteq> -1 \<longrightarrow> look root s' stack_page = Some (leaf_pte us heap_perm)"
        "\<forall>k. pages_left (2 + k) t2 \<longrightarrow> pages_left k s' \<and> ret \<noteq> -1"
      using pt_space_map_fresh [OF n(2,3,1,4) nt, where perm = heap_perm] by blast
    have "procs s' = (procs s)(p \<mapsto> v\<lparr>ustack := us\<rparr>)" using alloc_frame_kernel(1) [OF r(3)] by (simp add: t2_def)
    then show ?thesis
      using that [of "ret \<noteq> -1" s' P' N' us] run False r(1,2,4-8) spec [OF r(9), of 0] n(5) look left
      by (simp add: try_map_def heap_perm_eq)
  qed
qed

text \<open>The image once the binary is loaded.\<close>

lemma create_image_loaded:
  fixes s s1 :: "'z kernel_scheme"
  assumes p: "procs s p = Some v" and l: "load_binary (p_pagetable v) USER_START_VA binary sz s = Inr ((ok, va), s1)"
    and fr: "alloc_frame s1 = alloc_frame s"
  shows "\<not> ok \<Longrightarrow> create_image p binary sz s = Inr (False, s1)"
    and "ok \<Longrightarrow> va = page_at USER_START_VA n \<Longrightarrow> 4096 * n \<le> unat stack_page \<Longrightarrow> create_image p binary sz s =
      rbind (alloc_page (s1\<lparr>procs := (procs s1)(p \<mapsto> v\<lparr>heap_start := va, heap_end := va\<rparr>)\<rparr>)) (\<lambda>(us, s).
      rbind (upd_proc p (\<lambda>v. v\<lparr>ustack := us\<rparr>) s) (\<lambda>s.
        if us = 0 then Inr (False, s) else try_map (p_pagetable v) stack_page us (PTE_R OR PTE_W OR PTE_U) s))"
proof -
  have pr: "procs s1 p = Some v" using alloc_frame_kernel(1) [OF fr] p by simp
  show "\<not> ok \<Longrightarrow> create_image p binary sz s = Inr (False, s1)"
    using p l by (simp add: create_image_def get_proc_def Let_def)
  assume ok: ok and va: "va = page_at USER_START_VA n" and n: "4096 * n \<le> unat stack_page"
  have "ALIGN_UP va = va"
    using n unat_stack_page unat_page_at [of USER_START_VA n] unfolding va
    by (intro ALIGN_UP_aligned) (simp_all add: USER_START_VA_def)
  then show "create_image p binary sz s =
      rbind (alloc_page (s1\<lparr>procs := (procs s1)(p \<mapsto> v\<lparr>heap_start := va, heap_end := va\<rparr>)\<rparr>)) (\<lambda>(us, s).
      rbind (upd_proc p (\<lambda>v. v\<lparr>ustack := us\<rparr>) s) (\<lambda>s.
        if us = 0 then Inr (False, s) else try_map (p_pagetable v) stack_page us (PTE_R OR PTE_W OR PTE_U) s))"
    unfolding stack_page_def using p l ok pr by (simp add: create_image_def get_proc_def upd_proc_def Let_def)
qed

section \<open>Properties\<close>

text \<open>C38. \<open>create_image\<close> loads a binary that ends below the stack page into the page table of a process
  that has nothing there. If it succeeds, every page from \<open>USER_START_VA\<close> on translates, readable and
  executable for the user, to a page of its own with the bytes of the binary, padded with zeros; the
  heap starts, empty, right after it; and the stack page is a fresh zero page, readable and
  writable. In every case translations of other pages stay as they were. Three free pages per page
  of the image and three more are enough.\<close>

theorem create_image_correct:
  fixes s :: "'z kernel_scheme"
  assumes p: "procs s p = Some v" and sp: "pt_space (p_pagetable v) s P N"
    and src: "source_ok s binary (unat sz) P N"
    and fits: "4096 * image_pages sz \<le> unat stack_page"
    and none: "\<And>j. j < image_pages sz \<Longrightarrow> pt_lookup (m_mem s) (p_pagetable v) (page_at USER_START_VA j) = None"
      "pt_lookup (m_mem s) (p_pagetable v) stack_page = None"
  shows "\<exists>ok s' P' N'. create_image p binary sz s = Inr (ok, s') \<and> pt_space (p_pagetable v) s' P' N' \<and>
     (\<forall>vb. (\<forall>j < image_pages sz. \<not> same_page (page_at USER_START_VA j) vb) \<longrightarrow> \<not> same_page stack_page vb \<longrightarrow>
        pt_lookup (m_mem s') (p_pagetable v) vb = pt_lookup (m_mem s) (p_pagetable v) vb) \<and>
     (pages_left (3 * image_pages sz + 3) s \<longrightarrow> ok) \<and>
     (ok \<longrightarrow> (\<exists>f us. image_at (p_pagetable v) USER_START_VA sz (\<lambda>i. m_mem s (binary - va_offset s + of_nat i)) P f s' P' N' \<and>
        procs s' = (procs s)(p \<mapsto> v\<lparr>heap_start := page_at USER_START_VA (image_pages sz),
          heap_end := page_at USER_START_VA (image_pages sz), ustack := us\<rparr>) \<and>
        us \<in> P' - P - ran N' \<and> us \<notin> f ` {..<image_pages sz} \<and> (\<forall>x \<in> page_cells us. m_mem s' x = 0) \<and>
        pt_lookup (m_mem s') (p_pagetable v) stack_page = Some (leaf_pte us heap_perm)))"
proof -
  let ?root = "p_pagetable v" and ?n = "image_pages sz"
  let ?bytes = "\<lambda>i. m_mem s (binary - va_offset s + of_nat i)"
  have bound: "unat USER_START_VA + 4096 * ?n \<le> 2 ^ 39" using fits unat_stack_page by (simp add: USER_START_VA_def)
  obtain ok va s1 P1 N1 where l: "load_binary ?root USER_START_VA binary sz s = Inr ((ok, va), s1)"
      "pt_space ?root s1 P1 N1" "alloc_frame s1 = alloc_frame s" "keeps_pages s P N s1 P1 N1"
      "\<forall>vb. (\<forall>j < ?n. \<not> same_page (page_at USER_START_VA j) vb) \<longrightarrow> look ?root s1 vb = look ?root s vb"
      "ok \<longrightarrow> va = page_at USER_START_VA ?n \<and> (\<exists>f. image_at ?root USER_START_VA sz ?bytes P f s1 P1 N1)"
      "\<forall>m. pages_left (3 * ?n + m) s \<longrightarrow> ok \<and> pages_left m s1"
    using load_binary_ok [OF sp bound none(1) src] by blast
  have off_stack: "look ?root s1 stack_page = None" using l(5) image_below_stack [OF fits] none(2) by simp
  note run = create_image_loaded [OF p l(1,3)]
  show ?thesis
  proof (cases ok)
    case False
    then have "\<not> pages_left (3 * ?n + 3) s" using l(7) by blast
    then show ?thesis using False run(1) l(2,5) by (intro exI [of _ False] exI [of _ s1] exI [of _ P1] exI [of _ N1]) simp
  next
    case True
    obtain f where va: "va = page_at USER_START_VA ?n" and f: "image_at ?root USER_START_VA sz ?bytes P f s1 P1 N1"
      using l(6) True by blast
    let ?v1 = "v\<lparr>heap_start := va, heap_end := va\<rparr>"
    let ?s1 = "s1\<lparr>procs := (procs s1)(p \<mapsto> ?v1)\<rparr>"
    have p1: "procs ?s1 p = Some ?v1" "pt_space ?root ?s1 P1 N1" "look ?root ?s1 stack_page = None"
      using l(2) off_stack by simp_all
    obtain full us s' P' N' where r: "create_image p binary sz s = Inr (full, s')"
        "pt_space ?root s' P' N'" "keeps_pages ?s1 P1 N1 s' P' N'" "procs s' = (procs ?s1)(p \<mapsto> ?v1\<lparr>ustack := us\<rparr>)"
        "\<forall>vb. \<not> same_page stack_page vb \<longrightarrow> look ?root s' vb = look ?root ?s1 vb"
        "full \<longrightarrow> us \<in> P' - P1 - ran N' \<and> (\<forall>x \<in> page_cells us. m_mem s' x = 0) \<and>
           look ?root s' stack_page = Some (leaf_pte us heap_perm)" "pages_left 3 ?s1 \<longrightarrow> full"
      by (rule stack_step_ok [OF p1]) (use run(2) [OF True va fits] in simp)
    have image: "image_at ?root USER_START_VA sz ?bytes P f s' P' N'"
      by (rule image_at_keep [OF f]) (use r(3,5) image_below_stack [OF fits] same_page_sym in auto)
    have "us \<notin> P \<and> us \<notin> f ` {..<?n}" if "us \<notin> P1" using that f l(4) unfolding image_at_def keeps_pages_def by blast
    moreover have "procs s' = (procs s)(p \<mapsto> ?v1\<lparr>ustack := us\<rparr>)" using r(4) alloc_frame_kernel(1) [OF l(3)] by simp
    moreover have "full" if "pages_left (3 * ?n + 3) s" using l(7) that r(7) by auto
    moreover have "look ?root s' vb = look ?root s vb"
      if "\<forall>j < ?n. \<not> same_page (page_at USER_START_VA j) vb" "\<not> same_page stack_page vb" for vb
      using r(5) l(5) that by simp
    ultimately show ?thesis using r(1,2,6) image va
      by (intro exI [of _ full] exI [of _ s'] exI [of _ P'] exI [of _ N']) blast
  qed
qed

text \<open>A process with an empty page table and a binary of two pages, with one byte that is not zero.\<close>

definition image_sample :: kernel where
  "image_sample = sbrk_sample\<lparr>m_mem := (m_mem sbrk_sample)(0x86000000 := 0x13)\<rparr>"

lemma pt_wf_more: "pt_wf m P N \<Longrightarrow> P \<subseteq> Q \<Longrightarrow> \<forall>q \<in> Q. page_ok q \<Longrightarrow> pt_wf m Q N"
  unfolding pt_wf_def by blast

lemma image_sample_space:
  defines "P \<equiv> {0x87000000, 0x86000000, 0x86001000}"
  shows "pt_space 0x87000000 image_sample P [[] \<mapsto> 0x87000000]"
    and "pt_lookup (m_mem image_sample) 0x87000000 va = None" and "pages_left 512 image_sample"
    and "source_ok image_sample (0x86000000 + VA_OFFSET) 0x1001 P [[] \<mapsto> 0x87000000]"
proof -
  have ok: "page_ok 0x87000000" "page_ok 0x86000000" "page_ok 0x86001000" by (simp_all add: page_ok_def)
  have sp: "pt_wf (m_mem sbrk_sample) {0x87000000} [[] \<mapsto> 0x87000000]" "pages_own {0x87000000} sbrk_sample" "linear_map sbrk_sample"
    using sample_empty_space(1) by (simp_all add: pt_space_def)
  have base: "static_page sbrk_sample x" if "x \<in> P" for x
    using that ok by (auto simp: P_def static_page_def sbrk_sample_def sample_kernel_def sample_with_def)
  obtain Q where Q: "pages_inv Q sbrk_sample" using sp(2) by (auto simp: pages_own_def)
  have "pages_inv {} sbrk_sample" using Q by (auto simp: pages_inv_def)
  then have own: "pages_own P image_sample" unfolding image_sample_def using base by (simp add: pages_own_static)
  have "m_mem image_sample x = m_mem sbrk_sample x" if "x \<in> page_cells 0x87000000" for x
    using that ok by (auto simp: image_sample_def page_cells_unat)
  then have wf: "pt_wf (m_mem image_sample) {0x87000000} [[] \<mapsto> 0x87000000]"
      "leaf_of (m_mem image_sample) [[] \<mapsto> 0x87000000] va = leaf_of (m_mem sbrk_sample) [[] \<mapsto> 0x87000000] va" for va
    by (intro pt_wf_outside [OF sp(1)]; auto)+
  show "pt_space 0x87000000 image_sample P [[] \<mapsto> 0x87000000]"
    unfolding pt_space_def using pt_wf_more [OF wf(1)] ok own sp(3) by (auto simp: P_def linear_map_def image_sample_def)
  show "pt_lookup (m_mem image_sample) 0x87000000 va = None"
    using pt_lookup_tree [OF wf(1)] wf(2) pt_lookup_tree [OF sp(1)] sample_empty_space(2) by simp
  show "pages_left 512 image_sample" using sample_empty_space(3) by (simp add: image_sample_def)
  have off: "va_offset image_sample = VA_OFFSET" by (simp add: image_sample_def sbrk_sample_def sample_kernel_def sample_with_def)
  have "\<exists>q \<in> P - ran [[] \<mapsto> 0x87000000]. (0x86000000 :: ulong) + of_nat i \<in> page_cells q" if "i < 0x1001" for i
  proof (cases "i < 4096")
    case True
    then have "(0x86000000 :: ulong) + of_nat i \<in> page_cells 0x86000000" by (simp add: page_cells_def unat_of_nat64)
    then show ?thesis by (auto simp: P_def)
  next
    case False
    then have "i = 4096" using that by simp
    then have "(0x86000000 :: ulong) + of_nat i \<in> page_cells 0x86001000" by (simp add: page_cells_def)
    then show ?thesis by (auto simp: P_def)
  qed
  then show "source_ok image_sample (0x86000000 + VA_OFFSET) 0x1001 P [[] \<mapsto> 0x87000000]"
    by (simp add: source_ok_def off ram_range_def KERNEL_START_def USER_END_def)
qed

theorem create_image_witness:
  "\<exists>s' e. create_image 0x2000 (0x86000000 + VA_OFFSET) 0x1001 image_sample = Inr (True, s') \<and>
     pt_lookup (m_mem s') 0x87000000 0 = Some (leaf_pte e image_perm) \<and> m_mem s' e = 0x13 \<and>
     map_option heap_start (procs s' 0x2000) = Some 0x2000"
proof -
  let ?v = "proc_zero\<lparr>pid := 1, p_state := RUNNING, p_pagetable := 0x87000000, heap_start := 0x1000, heap_end := 0x1000\<rparr>"
  let ?P = "{0x87000000, 0x86000000, 0x86001000}" and ?N = "[[] \<mapsto> 0x87000000]"
  let ?b = "0x86000000 + VA_OFFSET"
  have p: "procs image_sample 0x2000 = Some ?v" by (simp add: image_sample_def sbrk_sample_def)
  have n: "image_pages 0x1001 = 2" by (simp add: image_pages_def)
  have pt: "p_pagetable ?v = 0x87000000" by simp
  have left: "pages_left 9 image_sample" by (rule pages_left_mono [OF image_sample_space(3)]) simp
  have sz: "unat (0x1001 :: ulong) = 0x1001" by simp
  have off: "va_offset image_sample = VA_OFFSET" by (simp add: image_sample_def sbrk_sample_def sample_kernel_def sample_with_def)
  obtain s' P' N' f us where r: "create_image 0x2000 ?b 0x1001 image_sample = Inr (True, s')"
      "image_at 0x87000000 USER_START_VA 0x1001 (\<lambda>i. m_mem image_sample (?b - va_offset image_sample + of_nat i)) ?P f s' P' N'"
      "procs s' = (procs image_sample)(0x2000 \<mapsto> ?v\<lparr>heap_start := page_at USER_START_VA 2,
          heap_end := page_at USER_START_VA 2, ustack := us\<rparr>)"
    using create_image_correct [OF p, unfolded pt, OF image_sample_space(1) image_sample_space(4) [folded sz]]
      image_sample_space(2) left unat_stack_page n by auto
  have two: "(0 :: nat) < 2" by simp
  have z: "look 0x87000000 s' (page_at USER_START_VA 0) = Some (leaf_pte (f 0) image_perm)"
      "\<forall>i < 4096. m_mem s' (f 0 + of_nat i) = (if 4096 * 0 + i < unat (0x1001 :: ulong)
        then m_mem image_sample (?b - va_offset image_sample + of_nat (4096 * 0 + i)) else 0)"
    using r(2) two unfolding image_at_def n by blast+
  have "m_mem s' (f 0) = m_mem image_sample 0x86000000" using z(2) [rule_format, of 0] by (simp add: off)
  moreover have "m_mem image_sample 0x86000000 = 0x13" by (simp add: image_sample_def)
  ultimately show ?thesis using r(1,3) z(1)
    by (intro exI [of _ s'] exI [of _ "f 0"]) (simp add: USER_START_VA_def page_at_def PAGE_SIZE_def)
qed

end
