(* ===== verification/Dump_Props.thy ===== *)
theory Dump_Props
  imports Syscall_Props
begin

text \<open>
  The debugging printers of \<^verbatim>\<open>proc.c\<close>: \<open>dump_pagetable_recursive\<close> returns on every well-formed
  tree of tables and does nothing but print.
\<close>

section \<open>Code that only prints\<close>

definition only_prints :: "('z machine_scheme \<Rightarrow> 'z machine_scheme kres) \<Rightarrow> bool" where
  "only_prints f \<longleftrightarrow> (\<forall>s. \<exists>out. f s = Inr (s\<lparr>uart_out := uart_out s @ out\<rparr>))"

lemma only_printsD: "only_prints f \<Longrightarrow> \<exists>out. f s = Inr (s\<lparr>uart_out := uart_out s @ out\<rparr>)"
  by (simp add: only_prints_def)

lemma only_prints_skip [simp]: "only_prints Inr"
  unfolding only_prints_def by (intro allI exI [of _ "[]"]) simp

lemma only_prints_bind:
  assumes "only_prints f" and "only_prints g"
  shows "only_prints (\<lambda>s. rbind (f s) g)"
  unfolding only_prints_def
proof
  fix s
  obtain out where f: "f s = Inr (s\<lparr>uart_out := uart_out s @ out\<rparr>)" using only_printsD [OF assms(1)] by blast
  obtain out' where "g (s\<lparr>uart_out := uart_out s @ out\<rparr>) =
      Inr (s\<lparr>uart_out := uart_out s @ out\<rparr>\<lparr>uart_out := uart_out (s\<lparr>uart_out := uart_out s @ out\<rparr>) @ out'\<rparr>)"
    using only_printsD [OF assms(2)] by blast
  with f show "\<exists>out. rbind (f s) g = Inr (s\<lparr>uart_out := uart_out s @ out\<rparr>)"
    by (intro exI [of _ "out @ out'"]) simp
qed

lemma only_prints_putc [simp]: "only_prints (\<lambda>s. Inr (uart_putc c s))"
  by (auto simp: only_prints_def uart_putc_def)

lemma only_prints_after_putc: "only_prints f \<Longrightarrow> only_prints (\<lambda>s. f (uart_putc c s))"
  using only_prints_bind [OF only_prints_putc] by simp

lemma only_prints_puts: "0 \<notin> set (map of_char cs :: byte list) \<Longrightarrow> only_prints (uart_puts (cstr cs))"
  unfolding only_prints_def cstr_def using uart_puts_cstring by blast

lemma only_prints_hex_loop: "\<exists>out. uart_puthex_loop n x s = s\<lparr>uart_out := uart_out s @ out\<rparr>"
proof (induction n arbitrary: s)
  case 0
  show ?case by (intro exI [of _ "[]"]) simp
next
  case (Suc n)
  let ?c = "hex_digit (drop_bit (n * 4) x AND 0xf)"
  obtain out where "uart_puthex_loop n x (uart_putc ?c s) =
      (uart_putc ?c s)\<lparr>uart_out := uart_out (uart_putc ?c s) @ out\<rparr>"
    using Suc by blast
  then show ?case by (intro exI [of _ "?c # out"]) (simp add: uart_putc_def)
qed

lemma only_prints_hex [simp]: "only_prints (uart_puthex x)"
proof -
  have "only_prints (uart_puts [48, 120, 0])" using only_prints_puts [of "''0x''"] by (simp add: cstr_def)
  moreover have "only_prints (\<lambda>s. Inr (uart_puthex_loop 16 x s))"
    by (simp add: only_prints_def only_prints_hex_loop)
  ultimately show ?thesis using only_prints_bind by (fastforce simp: uart_puthex_def [abs_def])
qed

lemma only_prints_line: "only_prints (dump_line i level va pte)"
  unfolding dump_line_def
  by (intro only_prints_bind only_prints_puts only_prints_hex only_prints_putc
      only_prints_after_putc [where f = "uart_puts (cstr '' Entry '')"])
    (cases "pte AND (PTE_R OR PTE_W OR PTE_X) = 0";
     simp add: only_prints_bind only_prints_puts)+

section \<open>The recursion\<close>

lemma dump_entries_loop:
  fixes s :: "'z kernel_scheme"
  assumes p: "page_ok p"
    and child: "\<And>(t :: 'z kernel_scheme) i level va. \<lbrakk>m_mem t = m; i < 512; tab m p i AND PTE_V \<noteq> 0;
      tab m p i AND (PTE_R OR PTE_W OR PTE_X) = 0\<rbrakk> \<Longrightarrow>
      \<exists>out. dump_entries d 512 (PHYS_TO_VIRT t (PTE2PA (tab m p i))) level va t = Inr (t\<lparr>uart_out := uart_out t @ out\<rparr>)"
  shows "m_mem s = m \<Longrightarrow>
    \<exists>out. dump_entries (Suc d) n (PHYS_TO_VIRT s p) level va s = Inr (s\<lparr>uart_out := uart_out s @ out\<rparr>)"
proof (induction n arbitrary: s)
  case 0
  show ?case by (intro exI [of _ "[]"]) (simp add: dump_entries.simps)
next
  case (Suc n)
  let ?i = "PTE_COUNT - Suc n"
  let ?e = "tab m p ?i"
  let ?va = "va OR push_bit (nat (12 + 9 * level)) (of_nat ?i)"
  have i: "?i < 512" by (simp add: PTE_COUNT_def)
  have e: "load64 s (pte_at (PHYS_TO_VIRT s p) ?i) = Inr ?e"
    using load_pte [OF p i, of s] Suc.prems by (simp add: tab_def)
  let ?body = "if ?e AND PTE_V = 0 then Inr s
      else rbind (dump_line ?i level ?va ?e s) (\<lambda>s.
           if ?e AND (PTE_R OR PTE_W OR PTE_X) = 0
           then dump_entries d PTE_COUNT (PHYS_TO_VIRT s (PTE2PA ?e)) (level - 1) ?va s else Inr s)"
  have run: "dump_entries (Suc d) (Suc n) (PHYS_TO_VIRT s p) level va s =
      rbind ?body (\<lambda>s'. dump_entries (Suc d) n (PHYS_TO_VIRT s p) level va s')"
    using e by (simp add: dump_entries.simps Let_def)
  have "\<exists>out. ?body = Inr (s\<lparr>uart_out := uart_out s @ out\<rparr>)"
  proof (cases "?e AND PTE_V = 0")
    case True
    then show ?thesis by (intro exI [of _ "[]"]) simp
  next
    case False
    obtain o1 where l: "dump_line ?i level ?va ?e s = Inr (s\<lparr>uart_out := uart_out s @ o1\<rparr>)"
      using only_printsD [OF only_prints_line] by blast
    show ?thesis
    proof (cases "?e AND (PTE_R OR PTE_W OR PTE_X) = 0")
      case True
      let ?t = "s\<lparr>uart_out := uart_out s @ o1\<rparr>"
      obtain o2 where "dump_entries d 512 (PHYS_TO_VIRT ?t (PTE2PA ?e)) (level - 1) ?va ?t =
          Inr (?t\<lparr>uart_out := uart_out ?t @ o2\<rparr>)"
        using child [of ?t ?i "level - 1" ?va] Suc.prems i False True by auto
      then show ?thesis using l False True by (intro exI [of _ "o1 @ o2"]) (simp add: PTE_COUNT_def)
    qed (use l False in auto)
  qed
  then obtain o1 where b: "?body = Inr (s\<lparr>uart_out := uart_out s @ o1\<rparr>)" by blast
  let ?t = "s\<lparr>uart_out := uart_out s @ o1\<rparr>"
  obtain o2 where "dump_entries (Suc d) n (PHYS_TO_VIRT ?t p) level va ?t = Inr (?t\<lparr>uart_out := uart_out ?t @ o2\<rparr>)"
    using Suc.IH [of ?t] Suc.prems by auto
  then show ?case
    unfolding run b by (intro exI [of _ "o1 @ o2"]) (simp add: PHYS_TO_VIRT_def)
qed

lemma dump_entries_prints:
  fixes s :: "'z kernel_scheme"
  assumes wf: "pt_wf m P N"
    and leaves: "\<And>\<pi> q j. \<lbrakk>N \<pi> = Some q; length \<pi> = 2; j < 512; tab m q j AND PTE_V \<noteq> 0\<rbrakk> \<Longrightarrow>
      tab m q j AND (PTE_R OR PTE_W OR PTE_X) \<noteq> 0"
  shows "\<lbrakk>N \<pi> = Some p; 2 - length \<pi> \<le> d; m_mem s = m\<rbrakk> \<Longrightarrow>
    \<exists>out. dump_entries (Suc d) n (PHYS_TO_VIRT s p) level va s = Inr (s\<lparr>uart_out := uart_out s @ out\<rparr>)"
proof (induction d arbitrary: \<pi> p level va s n)
  case (0 \<pi> p level va s n)
  then have "length \<pi> = 2" using pt_wf_lengthD [OF wf 0(1)] by simp
  then show ?case
    using leaves [OF 0(1)] pt_wf_pageD [OF wf 0(1)] 0(3) by (intro dump_entries_loop) auto
next
  case (Suc d \<pi> p level va s n)
  have child: "\<exists>out. dump_entries (Suc d) 512 (PHYS_TO_VIRT t (PTE2PA (tab m p i))) level va t =
      Inr (t\<lparr>uart_out := uart_out t @ out\<rparr>)"
    if t: "m_mem t = m" and i: "i < 512" and v: "tab m p i AND PTE_V \<noteq> 0" "tab m p i AND (PTE_R OR PTE_W OR PTE_X) = 0"
    for t :: "'z kernel_scheme" and i level va
  proof -
    have l: "length \<pi> < 2"
      using leaves [OF Suc.prems(1) _ i v(1)] v(2) pt_wf_lengthD [OF wf Suc.prems(1)] by (cases "length \<pi> = 2") auto
    obtain q where q: "N (\<pi> @ [i]) = Some q"
      using pt_wf_invalidD [OF wf Suc.prems(1) l i] v(1) by (cases "N (\<pi> @ [i])") auto
    have "PTE2PA (tab m p i) = q"
      using pt_wf_validD [OF wf Suc.prems(1) l i q] inner_entry(1) [of q] pt_wf_pageD [OF wf q] by simp
    then show ?thesis using Suc.IH [OF q _ t] Suc.prems(2) by simp
  qed
  show ?case by (rule dump_entries_loop [OF _ child]) (use pt_wf_pageD [OF wf Suc.prems(1)] Suc.prems(3) in auto)
qed

section \<open>Property\<close>

text \<open>C40. \<open>dump_pagetable_recursive\<close> on a well-formed tree of tables, whose last level holds only entries
  with a permission, ends, and changes nothing but the console output; the recursion never goes deeper
  than the three levels of the tree, at low addresses and at high ones.\<close>

theorem dump_pagetable_returns:
  fixes s :: "'z kernel_scheme"
  assumes "pt_wf (m_mem s) P N" and "N [] = Some root"
    and "\<And>\<pi> q j. N \<pi> = Some q \<Longrightarrow> length \<pi> = 2 \<Longrightarrow> j < 512 \<Longrightarrow> tab (m_mem s) q j AND PTE_V \<noteq> 0 \<Longrightarrow>
      tab (m_mem s) q j AND (PTE_R OR PTE_W OR PTE_X) \<noteq> 0"
  shows "\<exists>out. dump_pagetable_recursive (PHYS_TO_VIRT s root) level va_base s =
    Inr (s\<lparr>uart_out := uart_out s @ out\<rparr>)"
proof -
  have "\<exists>out. dump_entries (Suc 0x8001) PTE_COUNT (PHYS_TO_VIRT s root) level va_base s =
      Inr (s\<lparr>uart_out := uart_out s @ out\<rparr>)"
    by (rule dump_entries_prints [OF assms(1,3), where \<pi> = "[]"]) (use assms(2) in simp_all)
  then show ?thesis by (simp add: dump_pagetable_recursive_def)
qed

theorem dump_pagetable_witness:
  "\<exists>out. dump_pagetable_recursive (PHYS_TO_VIRT sbrk_sample 0x87000000) 2 0 sbrk_sample =
     Inr (sbrk_sample\<lparr>uart_out := uart_out sbrk_sample @ out\<rparr>)"
proof -
  have "pt_wf (m_mem sbrk_sample) {0x87000000} [[] \<mapsto> 0x87000000]"
    using sample_empty_space(1) by (simp add: pt_space_def)
  then show ?thesis by (rule dump_pagetable_returns) (auto split: if_splits)
qed

end
