(* ===== verification/Kernel_Copy.thy ===== *)
theory Kernel_Copy
  imports Proc_Props Dump_Props Paging_Props
begin

text \<open>
  The last part of \<open>create_proc\<close>: \<open>copy_kernel_mappings\<close> gives a process the kernel's translations of
  the kernel's image, then the console is mapped and the process joins the run queue.
\<close>

section \<open>Output does not matter to the tables\<close>

lemma uart_out_irrelevant [simp]:
  fixes s :: "'z buddy_scheme"
  shows "pages_own P (s\<lparr>uart_out := out\<rparr>) \<longleftrightarrow> pages_own P s"
    "pages_left n (s\<lparr>uart_out := out\<rparr>) \<longleftrightarrow> pages_left n s"
    "pt_space root (s\<lparr>uart_out := out\<rparr>) P N \<longleftrightarrow> pt_space root s P N"
    "keeps_pages s' P' N' (s\<lparr>uart_out := out\<rparr>) P N \<longleftrightarrow> keeps_pages s' P' N' s P N"
  by (simp_all add: pages_own_def pages_left_def pages_inv_def static_page_def lock_ready_def buddy_inv_def
      buddy_static_def page_pa_def pt_space_def linear_map_def keeps_pages_def)

text \<open>Nothing but memory, the allocator and the console's output has changed.\<close>

definition quiet_frame_of :: "'z buddy_scheme \<Rightarrow> 'z buddy_scheme \<Rightarrow> bool" where
  "quiet_frame_of s t \<longleftrightarrow> (\<exists>out. alloc_frame t = alloc_frame (s\<lparr>uart_out := out\<rparr>))"

lemma alloc_frame_out: "alloc_frame (s\<lparr>uart_out := out\<rparr>) = (alloc_frame s)\<lparr>uart_out := out\<rparr>"
  by (simp add: alloc_frame_def)

lemma quiet_frame_of_trans: "quiet_frame_of s t \<Longrightarrow> quiet_frame_of t u \<Longrightarrow> quiet_frame_of s u"
  unfolding quiet_frame_of_def alloc_frame_out by auto

lemma quiet_frame_of_print: "alloc_frame t = alloc_frame s \<Longrightarrow> quiet_frame_of s (t\<lparr>uart_out := out\<rparr>)"
  unfolding quiet_frame_of_def alloc_frame_out by auto

lemma quiet_frame_of_alloc: "alloc_frame t = alloc_frame s \<Longrightarrow> quiet_frame_of s t"
  using quiet_frame_of_print [of t s "uart_out t"] by simp

lemma quiet_frame_of_offset: "quiet_frame_of s t \<Longrightarrow> va_offset t = va_offset s"
  unfolding quiet_frame_of_def using alloc_frame_fields(1) by fastforce

section \<open>The source tree\<close>

text \<open>A second tree of tables, of the same owner, that shares no table with the first.\<close>

definition other_tree :: "ulong \<Rightarrow> 'z buddy_scheme \<Rightarrow> ulong set \<Rightarrow> (nat list \<rightharpoonup> ulong) \<Rightarrow> (nat list \<rightharpoonup> ulong) \<Rightarrow> bool" where
  "other_tree src s P N M \<longleftrightarrow> pt_wf (m_mem s) P M \<and> M [] = Some src \<and> ran M \<inter> ran N = {}"

lemma other_tree_look: "other_tree src s P N M \<Longrightarrow> look src s va = leaf_of (m_mem s) M va"
  unfolding other_tree_def by (rule pt_lookup_tree) auto

lemma other_tree_keep:
  assumes o: "other_tree src s P N M" and k: "keeps_pages s P N t Q K" and sp: "pt_space root t Q K"
  shows "other_tree src t Q K M" and "look src t va = look src s va"
proof -
  have w: "pt_wf (m_mem s) P M" and dis: "ran M \<inter> ran N = {}" using o by (simp_all add: other_tree_def)
  have inP: "ran M \<subseteq> P" using pt_wf_pageD [OF w] by (auto simp: ran_def)
  have kq: "q \<notin> ran K \<and> (\<forall>x \<in> page_cells q. m_mem t x = m_mem s x)" if "q \<in> ran M" for q
    using k inP dis that unfolding keeps_pages_def by blast
  then have out: "pt_wf (m_mem t) P M" "leaf_of (m_mem t) M vb = leaf_of (m_mem s) M vb" for vb
    by (intro pt_wf_outside [OF w]; blast)+
  have "\<forall>q \<in> Q. page_ok q" using sp pt_wf_okD by (auto simp: pt_space_def)
  then have "pt_wf (m_mem t) Q M" using pt_wf_more [OF out(1)] k by (simp add: keeps_pages_def)
  then show ot: "other_tree src t Q K M" using o kq by (auto simp: other_tree_def)
  show "look src t va = look src s va" using other_tree_look [OF ot] other_tree_look [OF o] out(2) by simp
qed

section \<open>One page\<close>

definition recopied :: "pte_t \<Rightarrow> pte_t" where
  "recopied e = leaf_pte (PTE2PA e) (c_int (PTE_FLAGS e))"

text \<open>The entries that \<open>map_page\<close> writes are copied bit by bit.\<close>

lemma recopied_leaf:
  assumes "4096 dvd unat pa" and "0 \<le> perm" "perm < 1024"
  shows "recopied (leaf_pte pa perm) = leaf_pte pa perm"
proof -
  let ?e = "leaf_pte pa perm"
  have pa: "PTE2PA ?e = pa" using leaf_pte_roundtrip [OF assms] by simp
  have "unat (PTE_FLAGS ?e) < 1024"
  proof -
    have "PTE_FLAGS ?e = take_bit 10 ?e" by (simp add: PTE_FLAGS_def take_bit_eq_mask mask_eq_exp_minus_1)
    then show ?thesis using take_bit_nat_less_exp [of 10 "unat ?e"] by (simp add: unsigned_take_bit_eq)
  qed
  then have "c_int (PTE_FLAGS ?e) = int (unat (PTE_FLAGS ?e))" by (intro c_int_small) simp
  then have f: "(word_of_int (c_int (PTE_FLAGS ?e)) :: ulong) = PTE_FLAGS ?e" by simp
  have low: "\<not> bit (word_of_int perm :: ulong) n" if "n \<ge> 10" for n
  proof -
    have "take_bit 10 perm = perm" using assms(2,3) by (simp add: take_bit_int_eq_self_iff)
    then have "bit perm n \<longleftrightarrow> n < 10 \<and> bit perm n" by (metis bit_take_bit_iff)
    then show ?thesis using that by (simp add: bit_word_of_int_iff)
  qed
  have "PA2PTE pa OR PTE_FLAGS ?e OR PTE_V OR PTE_A OR PTE_D = ?e"
  proof (rule bit_eqI)
    fix n
    have "PTE_FLAGS x = take_bit 10 x" for x by (simp add: PTE_FLAGS_def take_bit_eq_mask mask_eq_exp_minus_1)
    then have f: "bit (PTE_FLAGS x) n \<longleftrightarrow> n < 10 \<and> bit x n" for x by (simp add: bit_take_bit_iff)
    show "bit (PA2PTE pa OR PTE_FLAGS ?e OR PTE_V OR PTE_A OR PTE_D) n \<longleftrightarrow> bit ?e n"
      unfolding bit_or_iff f using low [of n] by (cases "n < 10") (auto simp: leaf_pte_def bit_or_iff)
  qed
  then show ?thesis unfolding recopied_def pa leaf_pte_def [of pa "c_int (PTE_FLAGS ?e)"] f .
qed

text \<open>Reading an entry: a missing table and an entry that is not valid both count as no entry.\<close>

lemma read_entry:
  assumes wf: "pt_wf (m_mem s) P M" "M [] = Some src" and lin: "linear_map s"
  shows "rbind (walk (PHYS_TO_VIRT s src) va 0 s) (\<lambda>(p, s). rbind (if p = 0 then Inr 0 else load64 s p) (\<lambda>v.
      if p = 0 \<or> v AND PTE_V = 0 then A s else B v s)) =
    (case look src s va of None \<Rightarrow> A s | Some e \<Rightarrow> B e s)"
proof (cases "M (vpath va 0)")
  case None
  then show ?thesis using walk_lookup [OF wf] pt_lookup_tree [OF wf] by (simp add: leaf_of_eq)
next
  case (Some q)
  have q: "page_ok q" using pt_wf_pageD [OF wf(1) Some] by simp
  show ?thesis
    using walk_lookup [OF wf, of va] pt_lookup_tree [OF wf] Some pte_virt_nonzero [OF q vpn_level_less lin]
      load_pte [OF q vpn_level_less, of s va 0]
    by (simp add: leaf_of_eq entry_value_def tab_def)
qed

lemma only_prints_message:
  assumes "0 \<notin> set (map of_char msg :: byte list)"
  obtains out where "rbind (uart_puts (cstr msg) s) (\<lambda>s. rbind (uart_puthex va s) (\<lambda>s. Inr (ok, uart_putc 10 s))) =
    Inr (ok, s\<lparr>uart_out := out\<rparr>)"
proof -
  have "only_prints (\<lambda>s. rbind (uart_puts (cstr msg) s) (\<lambda>s. rbind (uart_puthex va s) (\<lambda>s. Inr (uart_putc 10 s))))"
    using assms by (intro only_prints_bind only_prints_puts only_prints_hex only_prints_putc)
  from only_printsD [OF this, of s]
  obtain out where "rbind (uart_puts (cstr msg) s) (\<lambda>s. rbind (uart_puthex va s) (\<lambda>s. Inr (uart_putc 10 s))) =
      Inr (s\<lparr>uart_out := uart_out s @ out\<rparr>)" by blast
  then show thesis
    by (intro that [of "uart_out s @ out"])
      (cases "uart_puts (cstr msg) s", simp, rename_tac t, case_tac "uart_puthex va t", auto)
qed

lemma copy_mapping_ok:
  fixes s :: "'z kernel_scheme"
  assumes sp: "pt_space dst s P N" and o: "other_tree src s P N M" and none: "look dst s va = None"
  shows "\<exists>t P' N'. copy_mapping dst (PHYS_TO_VIRT s src) va s = Inr (True, t) \<and> pt_space dst t P' N' \<and>
     keeps_pages s P N t P' N' \<and> quiet_frame_of s t \<and>
     (\<forall>vb. \<not> same_page va vb \<longrightarrow> look dst t vb = look dst s vb) \<and>
     look dst t va \<in> {None, map_option recopied (look src s va)} \<and>
     (\<forall>k. pages_left (2 + k) s \<longrightarrow> pages_left k t \<and> look dst t va = map_option recopied (look src s va))"
proof -
  have w: "pt_wf (m_mem s) P M" "M [] = Some src" using o by (simp_all add: other_tree_def)
  have lin: "linear_map s" using sp by (simp add: pt_space_def)
  note read = read_entry [OF w lin]
  have mono: "pages_left k s" if "pages_left (2 + k) s" for k by (rule pages_left_mono [OF that]) simp
  show ?thesis
  proof (cases "look src s va")
    case None
    obtain out where out: "rbind (uart_puts (cstr ''copy_kernel_mappings: missing PTE at '') s) (\<lambda>s.
        rbind (uart_puthex va s) (\<lambda>s. Inr (True, uart_putc 10 s))) = Inr (True, s\<lparr>uart_out := out\<rparr>)"
      by (rule only_prints_message [of "''copy_kernel_mappings: missing PTE at ''"]) simp_all
    have "copy_mapping dst (PHYS_TO_VIRT s src) va s = Inr (True, s\<lparr>uart_out := out\<rparr>)"
      unfolding copy_mapping_def read None using out by simp
    then show ?thesis using sp none None mono quiet_frame_of_print [of s s out]
      by (intro exI [of _ "s\<lparr>uart_out := out\<rparr>"] exI [of _ P] exI [of _ N]) (simp add: keeps_pages_refl)
  next
    case (Some e)
    obtain ret t P' N' where r: "map_page dst va (PTE2PA e) (c_int (PTE_FLAGS e)) s = Inr (ret, t)" "pt_space dst t P' N'"
        "alloc_frame t = alloc_frame s" "keeps_pages s P N t P' N'"
        "ret = -1 \<and> look dst t = look dst s \<or>
         ret = 0 \<and> (\<forall>vb. look dst t vb = (if same_page va vb then Some (recopied e) else look dst s vb))"
        "\<And>k. pages_left (2 + k) s \<Longrightarrow> pages_left k t \<and> ret = 0"
      using pt_space_map [OF sp none, of "PTE2PA e" "c_int (PTE_FLAGS e)"] unfolding recopied_def by metis
    obtain out where out: "rbind (uart_puts (cstr ''copy_kernel_mappings: map_page failed at '') t) (\<lambda>s.
        rbind (uart_puthex va s) (\<lambda>s. Inr (True, uart_putc 10 s))) = Inr (True, t\<lparr>uart_out := out\<rparr>)"
      by (rule only_prints_message [of "''copy_kernel_mappings: map_page failed at ''"]) simp_all
    define u where "u = (if ret = 0 then t else t\<lparr>uart_out := out\<rparr>)"
    have u: "pt_space dst u P' N'" "keeps_pages s P N u P' N'" "m_mem u = m_mem t" "quiet_frame_of s u"
        "pages_left k u = pages_left k t" for k
      using r(2-4) quiet_frame_of_print [OF r(3)] quiet_frame_of_alloc [OF r(3)] by (simp_all add: u_def)
    have "copy_mapping dst (PHYS_TO_VIRT s src) va s = Inr (True, u)"
      unfolding copy_mapping_def read Some using r(1) out by (simp add: u_def)
    moreover have "look dst u vb = look dst s vb" if "\<not> same_page va vb" for vb using r(5) u(3) that by auto
    moreover have "look dst u va = (if ret = 0 then Some (recopied e) else None)" using r(5) none u(3) by auto
    ultimately show ?thesis using u r(6) Some
      by (intro exI [of _ u] exI [of _ P'] exI [of _ N']) auto
  qed
qed

section \<open>All pages\<close>

lemma kernel_range_apart:
  assumes "unat end_va \<le> 2 ^ 64 - 4096" "j < page_count KERNEL_START_VA end_va" "k < page_count KERNEL_START_VA end_va"
  shows "same_page (page_at KERNEL_START_VA j) (page_at KERNEL_START_VA k) \<longleftrightarrow> j = k"
  using assms unfolding page_count_iff by (intro page_at_same) (simp_all add: KERNEL_START_VA_def)

lemma copy_kernel_mappings_ok:
  fixes s :: "'z kernel_scheme" and L :: symbols
  defines "n \<equiv> page_count KERNEL_START_VA (sym_kernel_end L)"
  assumes sp: "pt_space dst s P N" and o: "other_tree src s P N M"
    and ke: "KERNEL_START_VA \<le> sym_kernel_end L" "unat (sym_kernel_end L) \<le> 2 ^ 64 - 4096"
    and none: "\<And>k. k < n \<Longrightarrow> look dst s (page_at KERNEL_START_VA k) = None"
  shows "\<exists>t P' N'. copy_kernel_mappings L dst (PHYS_TO_VIRT s src) s = Inr t \<and> pt_space dst t P' N' \<and>
     keeps_pages s P N t P' N' \<and> quiet_frame_of s t \<and>
     (\<forall>vb. (\<forall>j < n. \<not> same_page (page_at KERNEL_START_VA j) vb) \<longrightarrow> look dst t vb = look dst s vb) \<and>
     (\<forall>j < n. look dst t (page_at KERNEL_START_VA j) \<in> {None, map_option recopied (look src s (page_at KERNEL_START_VA j))}) \<and>
     (\<forall>m. pages_left (2 * n + m) s \<longrightarrow> pages_left m t \<and>
        (\<forall>j < n. look dst t (page_at KERNEL_START_VA j) = map_option recopied (look src s (page_at KERNEL_START_VA j))))"
proof -
  let ?va = "page_at KERNEL_START_VA"
  let ?I = "\<lambda>k t. \<exists>P' N'. pt_space dst t P' N' \<and> keeps_pages s P N t P' N' \<and> quiet_frame_of s t \<and>
     (\<forall>vb. (\<forall>j < k. \<not> same_page (?va j) vb) \<longrightarrow> look dst t vb = look dst s vb) \<and>
     (\<forall>j < k. look dst t (?va j) \<in> {None, map_option recopied (look src s (?va j))}) \<and>
     (\<forall>m. pages_left (2 * k + m) s \<longrightarrow> pages_left m t \<and>
        (\<forall>j < k. look dst t (?va j) = map_option recopied (look src s (?va j))))"
  have apart: "\<not> same_page (?va j) (?va k)" if "j < n" "k < n" "j \<noteq> k" for j k
    using kernel_range_apart [OF ke(2)] that by (simp add: n_def)
  have step: "\<exists>r. copy_mapping dst (PHYS_TO_VIRT s src) (?va k) t = Inr r \<and> (if fst r then ?I (Suc k) (snd r) else False)"
    if k: "k < page_count KERNEL_START_VA (sym_kernel_end L)" and I: "?I k t" for k t
  proof -
    have kn: "k < n" using k by (simp add: n_def)
    obtain P1 N1 where t: "pt_space dst t P1 N1" "keeps_pages s P N t P1 N1" "quiet_frame_of s t"
        "\<forall>vb. (\<forall>j < k. \<not> same_page (?va j) vb) \<longrightarrow> look dst t vb = look dst s vb"
        "\<forall>j < k. look dst t (?va j) \<in> {None, map_option recopied (look src s (?va j))}"
        "\<forall>m. pages_left (2 * k + m) s \<longrightarrow> pages_left m t \<and>
           (\<forall>j < k. look dst t (?va j) = map_option recopied (look src s (?va j)))"
      using I by blast
    note ot = other_tree_keep [OF o t(2,1)]
    have fresh: "look dst t (?va k) = None" using t(4) apart kn none [OF kn] by simp
    have pv: "PHYS_TO_VIRT t src = PHYS_TO_VIRT s src" using quiet_frame_of_offset [OF t(3)] by (simp add: PHYS_TO_VIRT_def)
    obtain u P2 N2 where u: "copy_mapping dst (PHYS_TO_VIRT s src) (?va k) t = Inr (True, u)" "pt_space dst u P2 N2"
        "keeps_pages t P1 N1 u P2 N2" "quiet_frame_of t u"
        "\<forall>vb. \<not> same_page (?va k) vb \<longrightarrow> look dst u vb = look dst t vb"
        "look dst u (?va k) \<in> {None, map_option recopied (look src s (?va k))}"
        "\<forall>m. pages_left (2 + m) t \<longrightarrow> pages_left m u \<and> look dst u (?va k) = map_option recopied (look src s (?va k))"
      using copy_mapping_ok [OF t(1) ot(1) fresh] unfolding pv ot(2) by blast
    have old: "look dst u (?va j) = look dst t (?va j)" if "j < k" for j using u(5) apart [of k j] that kn by simp
    have "pages_left m u \<and> (\<forall>j < Suc k. look dst u (?va j) = map_option recopied (look src s (?va j)))"
      if "pages_left (2 * Suc k + m) s" for m
    proof -
      have "pages_left (2 * k + (2 + m)) s" using that by (simp add: add.assoc)
      then have a: "pages_left (2 + m) t" "\<forall>j < k. look dst t (?va j) = map_option recopied (look src s (?va j))"
        using t(6) by blast+
      then show ?thesis using u(7) old by (simp add: less_Suc_eq)
    qed
    moreover have "look dst u vb = look dst s vb" if "\<forall>j < Suc k. \<not> same_page (?va j) vb" for vb
      using t(4) u(5) that by simp
    moreover have "\<forall>j < Suc k. look dst u (?va j) \<in> {None, map_option recopied (look src s (?va j))}"
      using t(5) u(6) old by (simp add: less_Suc_eq)
    ultimately show ?thesis
      using u(1,2) keeps_pages_trans [OF t(2) u(3)] quiet_frame_of_trans [OF t(3) u(4)]
      by (intro exI [of _ "(True, u)"]) auto
  qed
  have I0: "?I 0 s"
    using sp quiet_frame_of_alloc [of s s] by (intro exI [of _ P] exI [of _ N]) (simp add: keeps_pages_refl)
  obtain go t where r: "for_pages KERNEL_START_VA (sym_kernel_end L) (copy_mapping dst (PHYS_TO_VIRT s src)) s = Inr (go, t)"
      "if go then ?I (page_count KERNEL_START_VA (sym_kernel_end L)) t else \<exists>k < page_count KERNEL_START_VA (sym_kernel_end L). False"
    using for_pages_rule [OF ke, of ?I s "copy_mapping dst (PHYS_TO_VIRT s src)" "\<lambda>_ _. False", OF I0 step] by blast
  then have "?I n t" unfolding n_def by (cases go) simp_all
  then show ?thesis using r(1) by (auto simp: copy_kernel_mappings_def)
qed

section \<open>Joining the run queue\<close>

lemma uart_apart:
  assumes "unat end_va \<le> 2 ^ 64 - 4096" "k < page_count KERNEL_START_VA end_va"
  shows "\<not> same_page (page_at KERNEL_START_VA k) UART0"
proof -
  have k: "k < 2 ^ 19" using assms unfolding page_count_iff by (simp add: KERNEL_START_VA_def)
  then have "unat (page_at KERNEL_START_VA k) = unat KERNEL_START_VA + 4096 * k"
    by (intro unat_page_at) (simp add: KERNEL_START_VA_def)
  then have "unat (page_at KERNEL_START_VA k) div 4096 = (0x7F80000 + k) + 33554431 * 2 ^ 27"
    by (simp add: KERNEL_START_VA_def)
  then have "unat (page_at KERNEL_START_VA k) div 4096 mod 2 ^ 27 = 0x7F80000 + k"
    using k by (simp only: mod_mult_self1) simp
  then show ?thesis using k by (simp add: same_page_div UART0_def VA_OFFSET_eq)
qed

lemma console_perm: "c_int (PTE_R OR PTE_W) = 6"
  by (simp add: c_int_def PTE_R_def PTE_W_def)

lemma quiet_frame_of_kernel:
  fixes s t :: "'z kernel_scheme"
  assumes "quiet_frame_of s t"
  shows "procs t = procs s" "nodes t = nodes s" "tp t = tp s" "cpu_id (m_hart t) = cpu_id (m_hart s)"
proof -
  obtain out where f: "alloc_frame t = alloc_frame (s\<lparr>uart_out := out\<rparr>)" using assms by (auto simp: quiet_frame_of_def)
  show "procs t = procs s" "nodes t = nodes s" "tp t = tp s" "cpu_id (m_hart t) = cpu_id (m_hart s)"
    using alloc_frame_kernel [OF f] alloc_frame_fields(12) [OF f] by simp_all
qed

definition kernel_pages :: "symbols \<Rightarrow> nat" where
  "kernel_pages L = page_count KERNEL_START_VA (sym_kernel_end L)"

abbreviation kernel_page :: "nat \<Rightarrow> ulong" where
  "kernel_page k \<equiv> page_at KERNEL_START_VA k"

text \<open>The kernel's entries are entries that \<open>map_page\<close> has written.\<close>

definition leaves_ok :: "symbols \<Rightarrow> 'z buddy_scheme \<Rightarrow> bool" where
  "leaves_ok L s \<longleftrightarrow> (\<forall>k < kernel_pages L. \<forall>e. look (kernel_pagetable s) s (kernel_page k) = Some e \<longrightarrow>
     (\<exists>pa perm. e = leaf_pte pa perm \<and> 4096 dvd unat pa \<and> 0 \<le> perm \<and> perm < 1024))"

lemma create_publish_ok:
  fixes s :: "'z kernel_scheme"
  assumes p: "procs s p = Some v" "is_idle v = 0"
    and sp: "pt_space (p_pagetable v) s P N" and o: "other_tree (kernel_pagetable s) s P N M"
    and ke: "KERNEL_START_VA \<le> sym_kernel_end L" "unat (sym_kernel_end L) \<le> 2 ^ 64 - 4096" and leaf: "leaves_ok L s"
    and none: "\<And>k. k < kernel_pages L \<Longrightarrow> pt_lookup (m_mem s) (p_pagetable v) (kernel_page k) = None"
      "pt_lookup (m_mem s) (p_pagetable v) UART0 = None"
    and off: "va_offset s = VA_OFFSET" and left: "pages_left (2 * kernel_pages L + 2) s"
    and Q: "queues s run slp" "off_queues s run slp p" "tp s = sym_cpus L + ucast (cpu_id (m_hart s)) * sizeof_cpu_t"
  shows "\<exists>t. create_publish L p s = Inr (True, t) \<and> procs t = (procs s)(p \<mapsto> v\<lparr>p_state := RUNNABLE\<rparr>) \<and>
     queues t (run @ [p]) slp \<and>
     (\<forall>k < kernel_pages L. pt_lookup (m_mem t) (p_pagetable v) (kernel_page k) =
        pt_lookup (m_mem s) (kernel_pagetable s) (kernel_page k)) \<and>
     pt_lookup (m_mem t) (p_pagetable v) UART0 = Some (leaf_pte 0x10000000 6) \<and>
     (\<forall>vb. (\<forall>k < kernel_pages L. \<not> same_page (kernel_page k) vb) \<longrightarrow> \<not> same_page UART0 vb \<longrightarrow>
        pt_lookup (m_mem t) (p_pagetable v) vb = pt_lookup (m_mem s) (p_pagetable v) vb)"
proof -
  let ?pt = "p_pagetable v" and ?kpt = "kernel_pagetable s" and ?n = "kernel_pages L"
  obtain t P1 N1 where t: "copy_kernel_mappings L ?pt (PHYS_TO_VIRT s ?kpt) s = Inr t" "pt_space ?pt t P1 N1" "quiet_frame_of s t"
      "\<forall>vb. (\<forall>j < ?n. \<not> same_page (kernel_page j) vb) \<longrightarrow> look ?pt t vb = look ?pt s vb" "pages_left 2 t"
      "\<forall>j < ?n. look ?pt t (kernel_page j) = map_option recopied (look ?kpt s (kernel_page j))"
    using copy_kernel_mappings_ok [OF sp o ke] none(1) left unfolding kernel_pages_def by blast
  have same: "look ?pt t (kernel_page j) = look ?kpt s (kernel_page j)" if "j < ?n" for j
    using t(6) leaf that recopied_leaf unfolding leaves_ok_def by (cases "look ?kpt s (kernel_page j)") fastforce+
  have apart: "\<not> same_page (kernel_page j) UART0" if "j < ?n" for j
    using uart_apart [OF ke(2)] that by (simp add: kernel_pages_def)
  have free: "look ?pt t UART0 = None" using t(4) apart none(2) by simp
  have pa: "VIRT_TO_PHYS t UART0 = 0x10000000"
    using quiet_frame_of_offset [OF t(3)] off by (simp add: VIRT_TO_PHYS_def UART0_def)
  obtain ret u P2 N2 where m: "map_page ?pt UART0 0x10000000 6 t = Inr (ret, u)" "pt_space ?pt u P2 N2" "alloc_frame u = alloc_frame t"
      "ret = -1 \<and> look ?pt u = look ?pt t \<or>
       ret = 0 \<and> (\<forall>vb. look ?pt u vb = (if same_page UART0 vb then Some (leaf_pte 0x10000000 6) else look ?pt t vb))"
      "\<And>k. pages_left (2 + k) t \<Longrightarrow> pages_left k u \<and> ret = 0"
    using pt_space_map [OF t(2) free] by metis
  have z: "ret = 0" using m(5) [of 0] t(5) by simp
  note fr = quiet_frame_of_kernel [OF quiet_frame_of_trans [OF t(3) quiet_frame_of_alloc [OF m(3)]]]
  let ?w = "v\<lparr>p_state := RUNNABLE\<rparr>"
  have Qu: "queues u run slp" "off_queues u run slp p"
    by (rule queues_cong [OF Q(1)], use fr in simp_all, rule off_queues_cong [OF Q(2)], use fr in simp_all)
  obtain h where h: "list_add_tail (q_node p) (run_queue (tp u)) (nodes u) = Inr h" "queues (moved h p ?w u) (run @ [p]) slp"
    using run_push [OF Qu, of ?w] p(2) by auto
  have "create_publish L p s = Inr (True, moved h p ?w u)"
    using p(1) t(1) pa m(1) z fr Q(3) h(1)
    by (simp add: create_publish_def heap_access try_map_def console_perm)
  moreover have "look ?pt u (kernel_page j) = look ?kpt s (kernel_page j)" if "j < ?n" for j
    using m(4) z same [OF that] apart [OF that] same_page_sym by auto
  moreover have "look ?pt u vb = look ?pt s vb"
    if "\<forall>k < ?n. \<not> same_page (kernel_page k) vb" "\<not> same_page UART0 vb" for vb
    using m(4) z t(4) that by auto
  ultimately show ?thesis using m(4) z h(2) fr(1) by (intro exI [of _ "moved h p ?w u"]) simp
qed

text \<open>C39. The end of \<open>create_proc\<close>, for a process whose table has nothing at the kernel's addresses: the
  process translates every page of the kernel's image exactly as the kernel does, the same frames
  with the same permissions, so that none of them is open to the user that the kernel does not
  open; it maps the console for the kernel, keeps its other translations, and is the last of its
  hart's run queue, runnable. Two pages per kernel page and two more are enough.\<close>

theorem create_publish_correct:
  fixes s :: "'z kernel_scheme"
  assumes p: "procs s p = Some v" "is_idle v = 0"
    and sp: "pt_space (p_pagetable v) s P N" and o: "other_tree (kernel_pagetable s) s P N M"
    and ke: "KERNEL_START_VA \<le> sym_kernel_end L" "unat (sym_kernel_end L) \<le> 2 ^ 64 - 4096" and leaf: "leaves_ok L s"
    and none: "\<And>k. k < kernel_pages L \<Longrightarrow> pt_lookup (m_mem s) (p_pagetable v) (kernel_page k) = None"
      "pt_lookup (m_mem s) (p_pagetable v) UART0 = None"
    and off: "va_offset s = VA_OFFSET" and left: "pages_left (2 * kernel_pages L + 2) s"
    and Q: "queues s run slp" "off_queues s run slp p" "tp s = sym_cpus L + ucast (cpu_id (m_hart s)) * sizeof_cpu_t"
  shows "\<exists>t. create_publish L p s = Inr (True, t) \<and> procs t = (procs s)(p \<mapsto> v\<lparr>p_state := RUNNABLE\<rparr>) \<and>
     queues t (run @ [p]) slp \<and>
     (\<forall>k < kernel_pages L. pt_lookup (m_mem t) (p_pagetable v) (kernel_page k) =
        pt_lookup (m_mem s) (kernel_pagetable s) (kernel_page k)) \<and>
     pt_lookup (m_mem t) (p_pagetable v) UART0 = Some (leaf_pte 0x10000000 6) \<and>
     (\<forall>vb. (\<forall>k < kernel_pages L. \<not> same_page (kernel_page k) vb) \<longrightarrow> \<not> same_page UART0 vb \<longrightarrow>
        pt_lookup (m_mem t) (p_pagetable v) vb = pt_lookup (m_mem s) (p_pagetable v) vb)"
  by (rule create_publish_ok [OF assms])

text \<open>The table has nothing new after the image: what \<^verbatim>\<open>buddy_allocator_init\<close> places there, the kernel's
  page table and \<^verbatim>\<open>page_array\<close>, is not mapped for a process unless it was before.\<close>

lemma beyond_image:
  assumes ke: "KERNEL_START_VA \<le> sym_kernel_end L" "unat (sym_kernel_end L) \<le> 2 ^ 64 - 4096"
    and va: "unat (ALIGN_UP (sym_kernel_end L)) \<le> unat va"
  shows "k < kernel_pages L \<Longrightarrow> \<not> same_page (kernel_page k) va" "\<not> same_page UART0 va"
proof -
  let ?e = "unat (sym_kernel_end L)" and ?V = "unat va div 4096"
  have up: "unat (ALIGN_UP (sym_kernel_end L)) = (?e + 4095) div 4096 * 4096" using ke(2) by (intro unat_ALIGN_UP) simp
  then have V: "(?e + 4095) div 4096 \<le> ?V" using va by simp
  have lo: "0xffffffff80000000 \<le> ?e" using ke(1) by (simp add: word_le_nat_alt KERNEL_START_VA_def)
  then have "0xffffffff80000 \<le> (?e + 4095) div 4096" by linarith
  moreover have hi: "?V < 2 ^ 52" using unat_lt64 [of va] by (simp add: less_mult_imp_div_less)
  ultimately obtain r where r: "?V = r + 33554431 * 2 ^ 27" "r < 2 ^ 27" "0x7F80000 \<le> r"
    using V by (intro that [of "?V - 33554431 * 2 ^ 27"]) simp_all
  then have m: "?V mod 2 ^ 27 = r" by (simp only: mod_mult_self1) simp
  show "\<not> same_page UART0 va" using r(3) m by (simp add: same_page_div UART0_def VA_OFFSET_eq)
  assume k: "k < kernel_pages L"
  then have kl: "unat KERNEL_START_VA + 4096 * k < ?e" by (simp add: kernel_pages_def page_count_iff)
  have k19: "k < 2 ^ 19" using kl ke(2) by (simp add: KERNEL_START_VA_def)
  have "unat (kernel_page k) = unat KERNEL_START_VA + 4096 * k"
    using k19 by (intro unat_page_at) (simp add: KERNEL_START_VA_def)
  then have Q: "unat (kernel_page k) div 4096 = (0x7F80000 + k) + 33554431 * 2 ^ 27" by (simp add: KERNEL_START_VA_def)
  then have q: "unat (kernel_page k) div 4096 mod 2 ^ 27 = 0x7F80000 + k"
    using k19 by (simp only: mod_mult_self1) simp
  have "0xffffffff80000 + k < (?e + 4095) div 4096" using kl by (simp add: KERNEL_START_VA_def)
  then have "0x7F80000 + k < r" using V r(1) by simp
  then show "\<not> same_page (kernel_page k) va" unfolding same_page_div q m by simp
qed

theorem create_publish_maps_no_more:
  fixes s :: "'z kernel_scheme"
  assumes p: "procs s p = Some v" "is_idle v = 0"
    and sp: "pt_space (p_pagetable v) s P N" and o: "other_tree (kernel_pagetable s) s P N M"
    and ke: "KERNEL_START_VA \<le> sym_kernel_end L" "unat (sym_kernel_end L) \<le> 2 ^ 64 - 4096" and leaf: "leaves_ok L s"
    and none: "\<And>k. k < kernel_pages L \<Longrightarrow> pt_lookup (m_mem s) (p_pagetable v) (kernel_page k) = None"
      "pt_lookup (m_mem s) (p_pagetable v) UART0 = None"
    and off: "va_offset s = VA_OFFSET" and left: "pages_left (2 * kernel_pages L + 2) s"
    and Q: "queues s run slp" "off_queues s run slp p" "tp s = sym_cpus L + ucast (cpu_id (m_hart s)) * sizeof_cpu_t"
  shows "\<exists>t. create_publish L p s = Inr (True, t) \<and> (\<forall>va. unat (ALIGN_UP (sym_kernel_end L)) \<le> unat va \<longrightarrow>
     pt_lookup (m_mem t) (p_pagetable v) va = pt_lookup (m_mem s) (p_pagetable v) va)"
  using create_publish_ok [OF assms] beyond_image [OF ke] by blast

text \<open>A process with an empty table, and a kernel table that has nothing; then the kernel maps its first
  page and the process is published.\<close>

definition publish_sample :: kernel where
  "publish_sample = sbrk_sample\<lparr>kernel_pagetable := 0x86000000\<rparr>"

lemma publish_sample_space:
  "pt_space 0x86000000 publish_sample {0x86000000, 0x87000000} [[] \<mapsto> 0x86000000]"
  "pt_lookup (m_mem publish_sample) 0x86000000 va = None" "pages_left 512 publish_sample"
  "m_mem publish_sample x = 0"
proof -
  let ?P = "{0x86000000, 0x87000000}"
  have ok: "page_ok 0x86000000" "page_ok 0x87000000" by (simp_all add: page_ok_def)
  show z: "m_mem publish_sample x = 0" for x
    by (simp add: publish_sample_def sbrk_sample_def sample_kernel_def sample_with_def)
  have e: "pt_wf (m_mem publish_sample) {0x86000000} [[] \<mapsto> 0x86000000]"
    and leaf: "leaf_of (m_mem publish_sample) [[] \<mapsto> 0x86000000] vb = None" for vb
    using empty_table_wf [OF ok(1), of "m_mem publish_sample"] z by (simp_all add: tab_def mem_get64_zero)
  have wf: "pt_wf (m_mem publish_sample) ?P [[] \<mapsto> 0x86000000]" by (rule pt_wf_more [OF e]) (use ok in auto)
  have "pages_own {0x87000000} sbrk_sample" using sample_empty_space(1) by (simp add: pt_space_def)
  then obtain Q where "pages_inv Q sbrk_sample" by (auto simp: pages_own_def)
  then have inv: "pages_inv {} sbrk_sample" by (auto simp: pages_inv_def)
  have st: "static_page sbrk_sample x" if "x \<in> ?P" for x
    using that ok by (auto simp: static_page_def sbrk_sample_def sample_kernel_def sample_with_def)
  have "pages_own ?P sbrk_sample" by (rule pages_own_static [OF inv st])
  then have own: "pages_own ?P publish_sample"
    by (simp add: publish_sample_def pages_own_def pages_inv_def static_page_def lock_ready_def buddy_inv_def buddy_static_def page_pa_def)
  have "linear_map publish_sample"
    by (simp add: linear_map_def publish_sample_def sbrk_sample_def sample_kernel_def sample_with_def)
  then show sp: "pt_space 0x86000000 publish_sample ?P [[] \<mapsto> 0x86000000]" using wf own by (simp add: pt_space_def)
  show "pt_lookup (m_mem publish_sample) 0x86000000 va = None" using look_tree [OF sp] leaf by simp
  show "pages_left 512 publish_sample"
    using sample_empty_space(3) by (simp add: publish_sample_def pages_left_def buddy_inv_def buddy_static_def)
qed

lemma publish_sample_mapped:
  obtains s P N where "map_page 0x86000000 KERNEL_START_VA 0x80000000 0xA publish_sample = Inr (0, s)"
    and "pt_space 0x87000000 s P [[] \<mapsto> 0x87000000]" and "other_tree 0x86000000 s P [[] \<mapsto> 0x87000000] N"
    and "alloc_frame s = alloc_frame publish_sample" and "\<forall>va. pt_lookup (m_mem s) 0x87000000 va = None"
    and "\<forall>va. pt_lookup (m_mem s) 0x86000000 va =
      (if same_page KERNEL_START_VA va then Some (leaf_pte 0x80000000 0xA) else None)" and "pages_left 510 s"
proof -
  obtain ret s P N where m: "map_page 0x86000000 KERNEL_START_VA 0x80000000 0xA publish_sample = Inr (ret, s)"
      "pt_space 0x86000000 s P N" "alloc_frame s = alloc_frame publish_sample"
      "keeps_pages publish_sample {0x86000000, 0x87000000} [[] \<mapsto> 0x86000000] s P N"
      "ret = -1 \<and> look 0x86000000 s = look 0x86000000 publish_sample \<or>
       ret = 0 \<and> (\<forall>vb. look 0x86000000 s vb =
         (if same_page KERNEL_START_VA vb then Some (leaf_pte 0x80000000 0xA) else look 0x86000000 publish_sample vb))"
      "\<forall>k. pages_left (2 + k) publish_sample \<longrightarrow> pages_left k s \<and> ret = 0"
    by (rule pt_space_map [OF publish_sample_space(1,2), of KERNEL_START_VA "0x80000000" "0xA"]) blast
  have l: "pages_left 510 s" "ret = 0" using spec [OF m(6), of 510] publish_sample_space(3) by simp_all
  have "(0x87000000 :: ulong) \<in> {0x86000000, 0x87000000} - ran [[] \<mapsto> 0x86000000]" by simp
  then have u: "0x87000000 \<in> P" "0x87000000 \<notin> ran N" "\<forall>x \<in> page_cells 0x87000000. m_mem s x = m_mem publish_sample x"
    using m(4) unfolding keeps_pages_def by blast+
  have ok: "page_ok 0x87000000" by (simp add: page_ok_def)
  have "tab (m_mem s) 0x87000000 i = 0" if "i < 512" for i
    unfolding tab_def using u(3) pte_cell_in_page [OF ok that] publish_sample_space(4) by (intro mem_get64_zero) simp
  note w = empty_table_wf [OF ok this]
  have P: "\<forall>q \<in> P. page_ok q" using m(2) pt_wf_okD by (auto simp: pt_space_def)
  have wf: "pt_wf (m_mem s) P [[] \<mapsto> 0x87000000]" by (rule pt_wf_more [OF w(1)]) (use u(1) P in auto)
  have sp: "pt_space 0x87000000 s P [[] \<mapsto> 0x87000000]" using wf m(2) by (simp add: pt_space_def)
  have "other_tree 0x86000000 s P [[] \<mapsto> 0x87000000] N"
    using m(2) u(2) by (simp add: other_tree_def pt_space_def)
  moreover have "\<forall>va. look 0x87000000 s va = None" using look_tree [OF sp] w(2) by simp
  ultimately show thesis using that m(1,3,5) l sp publish_sample_space(2) by simp
qed

theorem create_publish_witness:
  "\<exists>s t. map_page 0x86000000 KERNEL_START_VA 0x80000000 0xA publish_sample = Inr (0, s) \<and>
     create_publish sample_symbols 0x2000 s = Inr (True, t) \<and>
     pt_lookup (m_mem t) 0x87000000 KERNEL_START_VA = Some (leaf_pte 0x80000000 0xA) \<and>
     pt_lookup (m_mem t) 0x87000000 (kernel_page 1) = None \<and> queues t [0x2000] []"
proof -
  obtain s P N where s: "map_page 0x86000000 KERNEL_START_VA 0x80000000 0xA publish_sample = Inr (0, s)"
      "pt_space 0x87000000 s P [[] \<mapsto> 0x87000000]" "other_tree 0x86000000 s P [[] \<mapsto> 0x87000000] N"
      "alloc_frame s = alloc_frame publish_sample" "\<forall>va. look 0x87000000 s va = None"
      "\<forall>va. look 0x86000000 s va = (if same_page KERNEL_START_VA va then Some (leaf_pte 0x80000000 0xA) else None)"
      "pages_left 510 s"
    using publish_sample_mapped by blast
  let ?v = "proc_zero\<lparr>pid := 1, p_state := RUNNING, p_pagetable := 0x87000000, heap_start := 0x1000, heap_end := 0x1000\<rparr>"
  have n: "kernel_pages sample_symbols = 16"
    by (simp add: kernel_pages_def page_count_def sample_symbols_def KERNEL_START_VA_def)
  note f = alloc_frame_kernel [OF s(4)] alloc_frame_fields [OF s(4)]
  have p: "procs s 0x2000 = Some ?v" "kernel_pagetable s = 0x86000000" "va_offset s = VA_OFFSET"
    using f by (simp_all add: publish_sample_def sbrk_sample_def sample_kernel_def sample_with_def)
  have v: "is_idle ?v = 0" "p_pagetable ?v = 0x87000000" by (simp_all add: proc_zero_def)
  have ke: "KERNEL_START_VA \<le> sym_kernel_end sample_symbols" "unat (sym_kernel_end sample_symbols) \<le> 2 ^ 64 - 4096"
    by (simp_all add: sample_symbols_def KERNEL_START_VA_def)
  have Q: "queues s [] []"
    by (rule queues_cong [OF sample_queues(2)]) (use f in \<open>simp_all add: publish_sample_def sbrk_sample_def\<close>)
  have Q': "off_queues s [] [] 0x2000"
    by (rule off_queues_cong [OF sample_off(2)]) (use f in \<open>simp_all add: publish_sample_def sbrk_sample_def\<close>)
  have tp: "tp s = sym_cpus sample_symbols + ucast (cpu_id (m_hart s)) * sizeof_cpu_t"
    using f by (simp add: publish_sample_def sbrk_sample_def sample_kernel_def sample_with_def sample_symbols_def sample_hart_def)
  have "leaves_ok sample_symbols s"
    unfolding leaves_ok_def p(2) s(6) [rule_format]
  proof (intro allI impI)
    fix k e assume "(if same_page KERNEL_START_VA (kernel_page k) then Some (leaf_pte 0x80000000 0xA) else None) = Some e"
    then have "e = leaf_pte 0x80000000 0xA" by (simp split: if_splits)
    then show "\<exists>pa perm. e = leaf_pte pa perm \<and> 4096 dvd unat pa \<and> 0 \<le> perm \<and> perm < 1024"
      by (intro exI [of _ "0x80000000"] exI [of _ "0xA"]) simp
  qed
  moreover have "pages_left 34 s" by (rule pages_left_mono [OF s(7)]) simp
  ultimately obtain t where t: "create_publish sample_symbols 0x2000 s = Inr (True, t)" "queues t [0x2000] []"
      "\<forall>k < 16. look 0x87000000 t (kernel_page k) = look 0x86000000 s (kernel_page k)"
    using create_publish_correct [OF p(1) _ _ _ ke _ _ _ p(3) _ Q Q' tp, of P "[[] \<mapsto> 0x87000000]" N] s(2,3,5)
    by (auto simp: p(2) n v)
  have "\<not> same_page KERNEL_START_VA (kernel_page 1)"
    using page_at_same [of KERNEL_START_VA 0 1] by (simp add: KERNEL_START_VA_def)
  then show ?thesis
    using s(1,6) t(1,2) t(3) [rule_format, of 0] t(3) [rule_format, of 1] by (intro exI [of _ s] exI [of _ t]) simp
qed

end
