(* ===== verification/Vfs.thy ===== *)
theory Vfs
  imports Kernel_Prelude
begin

text \<open>
  \<^verbatim>\<open>fs/vfs.h\<close> and \<^verbatim>\<open>fs/vfs.c\<close>: the layer between file descriptors and a mounted file system.
  Pointers to inodes, open files, mounted file systems and operation tables are references: a
  static object of the program, or the object returned by the \<open>n\<close>-th call of \<^verbatim>\<open>malloc\<close>. NULL is
  \<open>None\<close>. Whether the \<open>n\<close>-th allocation succeeds, and what a fresh block contains, is given by
  the environment. A function pointer is resolved by the argument \<open>prog\<close>, which gives the
  operation table behind a reference.
\<close>

section \<open>Data\<close>

definition MAX_NAME_LEN :: nat where "MAX_NAME_LEN = 64"
definition MAX_PATH_LEN :: nat where "MAX_PATH_LEN = 256"
definition MAX_OPEN_FILES :: nat where "MAX_OPEN_FILES = 64"
definition VFS_MODE_DIR :: uint where "VFS_MODE_DIR = 0x4000"
definition VFS_MODE_FILE :: uint where "VFS_MODE_FILE = 0x8000"

datatype ref = Static nat | Heap nat

text \<open>\<open>internal\<close> is the pointer into the private table of the file system: an index.\<close>

record inode =
  inode_no :: ulong
  i_size :: ulong
  i_mode :: uint
  i_fs :: "ref option"
  internal :: "nat option"

record file_t =
  f_inode :: "ref option"
  f_offset :: ulong
  f_flags :: int

record filesystem =
  fs_name :: "byte list"
  fs_ops :: "ref option"
  fs_root :: "ref option"

record vfs =
  root_fs :: "ref option"
  open_files :: "ref option list"
  files :: "ref \<rightharpoonup> file_t"
  inodes :: "ref \<rightharpoonup> inode"
  filesystems :: "ref \<rightharpoonup> filesystem"
  n_alloc :: nat

text \<open>A buffer is the byte array it points to; a call that fills it returns the new array.\<close>

record 's filesystem_ops =
  op_lookup :: "ref option \<Rightarrow> byte list \<Rightarrow> 's \<Rightarrow> (ref option \<times> 's) kres"
  op_read :: "ref \<Rightarrow> ulong \<Rightarrow> byte list \<Rightarrow> ulong \<Rightarrow> 's \<Rightarrow> (int \<times> byte list \<times> 's) kres"
  op_write :: "ref \<Rightarrow> ulong \<Rightarrow> byte list \<Rightarrow> ulong \<Rightarrow> 's \<Rightarrow> (int \<times> 's) kres"
  op_create :: "ref option \<Rightarrow> byte list \<Rightarrow> uint \<Rightarrow> 's \<Rightarrow> (int \<times> 's) kres"
  op_mkdir :: "ref option \<Rightarrow> byte list \<Rightarrow> 's \<Rightarrow> (int \<times> 's) kres"

text \<open>
  The environment: the outcomes of the allocator and the contents of the \<open>n\<close>-th block it returns.
\<close>

record fs_env =
  malloc_ok :: "nat \<Rightarrow> bool"
  fresh_bytes :: "nat \<Rightarrow> nat \<Rightarrow> byte"

section \<open>The C library\<close>

definition malloc :: "'e fs_env_scheme \<Rightarrow> 'z vfs_scheme \<Rightarrow> ref option \<times> 'z vfs_scheme" where
  "malloc env s =
     (if malloc_ok env (n_alloc s) then Some (Heap (n_alloc s)) else None, s\<lparr>n_alloc := n_alloc s + 1\<rparr>)"

definition realloc :: "'e fs_env_scheme \<Rightarrow> byte list \<Rightarrow> nat \<Rightarrow> 'z vfs_scheme \<Rightarrow> byte list option \<times> 'z vfs_scheme" where
  "realloc env old n s =
     (if malloc_ok env (n_alloc s)
      then Some (take n old @ map (fresh_bytes env (n_alloc s)) [length old..<n]) else None,
      s\<lparr>n_alloc := n_alloc s + 1\<rparr>)"

text \<open>Reading past the end of an array is \<open>Bounds\<close>.\<close>

fun strcmp :: "byte list \<Rightarrow> byte list \<Rightarrow> int kres" where
  "strcmp (a # as) (b # bs) =
     (if a \<noteq> b then Inr (uint a - uint b) else if a = 0 then Inr 0 else strcmp as bs)"
| "strcmp _ _ = Inl Bounds"

text \<open>The \<open>n\<close> bytes that \<^verbatim>\<open>strncpy (d, src, n)\<close> stores.\<close>

fun strncpy_bytes :: "byte list \<Rightarrow> nat \<Rightarrow> byte list kres" where
  "strncpy_bytes src 0 = Inr []"
| "strncpy_bytes [] (Suc n) = Inl Bounds"
| "strncpy_bytes (c # cs) (Suc n) =
     (if c = 0 then Inr (replicate (Suc n) 0)
      else rbind (strncpy_bytes cs n) (\<lambda>bs. Inr (c # bs)))"

definition strncpy :: "byte list \<Rightarrow> byte list \<Rightarrow> nat \<Rightarrow> byte list kres" where
  "strncpy d src n =
     rbind (strncpy_bytes src n) (\<lambda>bs. if length d < n then Inl Bounds else Inr (bs @ drop n d))"

definition deref :: "(ref \<rightharpoonup> 'a) \<Rightarrow> ref option \<Rightarrow> 'a kres" where
  "deref h p = (case p of None \<Rightarrow> Inl (Fault 0) | Some r \<Rightarrow> (case h r of None \<Rightarrow> Inl Bounds | Some v \<Rightarrow> Inr v))"

section \<open>Descriptors\<close>

function install_loop :: "ref option \<Rightarrow> nat \<Rightarrow> 'z vfs_scheme \<Rightarrow> (int \<times> 'z vfs_scheme) kres" where
  "install_loop f i s =
     (if i < MAX_OPEN_FILES
      then if i < length (open_files s)
           then if open_files s ! i = None
                then Inr (int i, s\<lparr>open_files := (open_files s)[i := f]\<rparr>)
                else install_loop f (i + 1) s
           else Inl Bounds
      else Inr (-1, s))"
  by pat_completeness auto
termination
  by (relation "measure (\<lambda>(f, i, s). MAX_OPEN_FILES - i)") auto

declare install_loop.simps [simp del]

definition vfs_install_fd :: "ref option \<Rightarrow> 'z vfs_scheme \<Rightarrow> (int \<times> 'z vfs_scheme) kres" where
  "vfs_install_fd f s = install_loop f 0 s"

definition vfs_get_file :: "int \<Rightarrow> 'z vfs_scheme \<Rightarrow> ref option kres" where
  "vfs_get_file fd s =
     (if fd < 0 \<or> int MAX_OPEN_FILES \<le> fd then Inr None
      else if nat fd < length (open_files s) then Inr (open_files s ! nat fd)
      else Inl Bounds)"

section \<open>Mounting and path lookup\<close>

definition vfs_init :: "'z vfs_scheme \<Rightarrow> 'z vfs_scheme" where
  "vfs_init s = s"

definition vfs_mount :: "ref option \<Rightarrow> 'z vfs_scheme \<Rightarrow> (int \<times> 'z vfs_scheme) kres" where
  "vfs_mount fs s =
     (if fs = None then Inr (-1, s)
      else rbind (deref (filesystems s) fs) (\<lambda>v.
           if fs_root v = None then Inr (-1, s) else Inr (0, s\<lparr>root_fs := fs\<rparr>)))"

text \<open>\<^verbatim>\<open>inode->fs->ops\<close>, resolved to the table of functions.\<close>

definition ops_of :: "(ref \<Rightarrow> 's filesystem_ops) \<Rightarrow> ref option \<Rightarrow> (ref \<rightharpoonup> filesystem) \<Rightarrow> 's filesystem_ops kres" where
  "ops_of prog fs h =
     rbind (deref h fs) (\<lambda>v. case fs_ops v of None \<Rightarrow> Inl (Fault 0) | Some t \<Rightarrow> Inr (prog t))"

fun lookup_walk :: "(ref \<Rightarrow> 'z vfs_scheme filesystem_ops) \<Rightarrow> byte list list \<Rightarrow> ref option
    \<Rightarrow> 'z vfs_scheme \<Rightarrow> (ref option \<times> 'z vfs_scheme) kres" where
  "lookup_walk prog [] node s = Inr (node, s)"
| "lookup_walk prog (token # tokens) node s =
     (if node = None then Inr (None, s)
      else rbind (deref (inodes s) node) (\<lambda>v.
           if i_mode v AND VFS_MODE_DIR = 0 then Inr (node, s)
           else rbind (ops_of prog (i_fs v) (filesystems s)) (\<lambda>ops.
                rbind (op_lookup ops node token s) (\<lambda>(node, s). lookup_walk prog tokens node s))))"

text \<open>
  \<open>vfs_lookup\<close> hands the buffer \<^verbatim>\<open>temp\<close> to \<^verbatim>\<open>strtok\<close> before it is declared and filled, so the source
  does not determine the tokens: they are the argument \<open>tokens\<close>. The copy of the path into
  \<^verbatim>\<open>temp\<close> remains as an access to the path.
\<close>

definition vfs_lookup :: "(ref \<Rightarrow> 'z vfs_scheme filesystem_ops) \<Rightarrow> byte list list \<Rightarrow> byte list option
    \<Rightarrow> 'z vfs_scheme \<Rightarrow> (ref option \<times> 'z vfs_scheme) kres" where
  "vfs_lookup prog tokens path s =
     (case path of
        None \<Rightarrow> Inr (None, s)
      | Some [] \<Rightarrow> Inl Bounds
      | Some (c # cs) \<Rightarrow>
          if c \<noteq> of_char CHR ''/'' \<or> root_fs s = None then Inr (None, s)
          else rbind (deref (filesystems s) (root_fs s)) (\<lambda>fs.
               rbind (strncpy_bytes (c # cs) MAX_PATH_LEN) (\<lambda>_.
               lookup_walk prog tokens (fs_root fs) s)))"

section \<open>Operations on paths and descriptors\<close>

definition vfs_open :: "'e fs_env_scheme \<Rightarrow> (ref \<Rightarrow> 'z vfs_scheme filesystem_ops) \<Rightarrow> byte list list
    \<Rightarrow> byte list option \<Rightarrow> 'z vfs_scheme \<Rightarrow> (int \<times> 'z vfs_scheme) kres" where
  "vfs_open env prog tokens path s =
     rbind (vfs_lookup prog tokens path s) (\<lambda>(node, s).
     if node = None then Inr (-1, s)
     else case malloc env s of
            (None, s) \<Rightarrow> Inr (-1, s)
          | (Some f, s) \<Rightarrow>
              vfs_install_fd (Some f)
                (s\<lparr>files := (files s)(f \<mapsto> \<lparr>f_inode = node, f_offset = 0, f_flags = 0\<rparr>)\<rparr>))"

text \<open>The test with which \<open>vfs_read\<close> and \<open>vfs_write\<close> start: the open file and its inode, if the
  descriptor is open on something with the file bit.\<close>

definition regular_file :: "int \<Rightarrow> 'z vfs_scheme \<Rightarrow> (ref \<times> file_t \<times> ref \<times> inode) option kres" where
  "regular_file fd s =
     rbind (vfs_get_file fd s) (\<lambda>f.
     case f of
       None \<Rightarrow> Inr None
     | Some r \<Rightarrow>
         rbind (deref (files s) f) (\<lambda>v.
         case f_inode v of
           None \<Rightarrow> Inr None
         | Some i \<Rightarrow>
             rbind (deref (inodes s) (f_inode v)) (\<lambda>n.
             Inr (if i_mode n AND VFS_MODE_FILE = 0 then None else Some (r, v, i, n)))))"

definition advance :: "ref \<Rightarrow> int \<Rightarrow> 'z vfs_scheme \<Rightarrow> 'z vfs_scheme kres" where
  "advance f n s =
     (if 0 < n
      then rbind (deref (files s) (Some f)) (\<lambda>v.
           Inr (s\<lparr>files := (files s)(f \<mapsto> v\<lparr>f_offset := f_offset v + word_of_int n\<rparr>)\<rparr>))
      else Inr s)"

definition vfs_read :: "(ref \<Rightarrow> 'z vfs_scheme filesystem_ops) \<Rightarrow> int \<Rightarrow> byte list \<Rightarrow> ulong
    \<Rightarrow> 'z vfs_scheme \<Rightarrow> (int \<times> byte list \<times> 'z vfs_scheme) kres" where
  "vfs_read prog fd buf len s =
     rbind (regular_file fd s) (\<lambda>x.
     case x of
       None \<Rightarrow> Inr (-1, buf, s)
     | Some (f, v, i, node) \<Rightarrow>
         rbind (ops_of prog (i_fs node) (filesystems s)) (\<lambda>ops.
         rbind (op_read ops i (f_offset v) buf len s) (\<lambda>(n, buf, s).
         rbind (advance f n s) (\<lambda>s. Inr (n, buf, s)))))"

definition vfs_write :: "(ref \<Rightarrow> 'z vfs_scheme filesystem_ops) \<Rightarrow> int \<Rightarrow> byte list \<Rightarrow> ulong
    \<Rightarrow> 'z vfs_scheme \<Rightarrow> (int \<times> 'z vfs_scheme) kres" where
  "vfs_write prog fd buf len s =
     rbind (regular_file fd s) (\<lambda>x.
     case x of
       None \<Rightarrow> Inr (-1, s)
     | Some (f, v, i, node) \<Rightarrow>
         rbind (ops_of prog (i_fs node) (filesystems s)) (\<lambda>ops.
         rbind (op_write ops i (f_offset v) buf len s) (\<lambda>(n, s).
         rbind (advance f n s) (\<lambda>s. Inr (n, s)))))"

text \<open>\<^verbatim>\<open>path + 1\<close>, which the callee reads.\<close>

definition vfs_create :: "(ref \<Rightarrow> 'z vfs_scheme filesystem_ops) \<Rightarrow> byte list option \<Rightarrow> uint
    \<Rightarrow> 'z vfs_scheme \<Rightarrow> (int \<times> 'z vfs_scheme) kres" where
  "vfs_create prog path mode s =
     (if path = None \<or> root_fs s = None then Inr (-1, s)
      else rbind (deref (filesystems s) (root_fs s)) (\<lambda>fs.
           rbind (ops_of prog (root_fs s) (filesystems s)) (\<lambda>ops.
           op_create ops (fs_root fs) (tl (the path)) mode s)))"

definition vfs_mkdir :: "(ref \<Rightarrow> 'z vfs_scheme filesystem_ops) \<Rightarrow> byte list option
    \<Rightarrow> 'z vfs_scheme \<Rightarrow> (int \<times> 'z vfs_scheme) kres" where
  "vfs_mkdir prog path s =
     (if path = None \<or> root_fs s = None then Inr (-1, s)
      else rbind (deref (filesystems s) (root_fs s)) (\<lambda>fs.
           rbind (ops_of prog (root_fs s) (filesystems s)) (\<lambda>ops.
           op_mkdir ops (fs_root fs) (tl (the path)) s)))"

end
