(* ===== verification/Ramfs.thy ===== *)
theory Ramfs
  imports Vfs
begin

text \<open>
  \<^verbatim>\<open>fs/ramfs.c\<close>: a file system of one directory, kept in a static table. The constants
  \<^verbatim>\<open>RAMFS_MAX_FILES\<close> and \<^verbatim>\<open>RAMFS_NAME_LEN\<close> are used by the source and not defined in it, so
  they are part of the environment. The data block of a file is owned by its table entry and is
  kept there (\<open>None\<close> for NULL).
\<close>

section \<open>State\<close>

record ramfs_file =
  rf_name :: "byte list"
  rf_data :: "byte list option"
  rf_size :: ulong
  rf_mode :: uint
  rf_inode :: "ref option"

record ramfs = vfs +
  file_table :: "ramfs_file list"
  next_inode_no :: ulong

record ramfs_env = fs_env +
  RAMFS_MAX_FILES :: nat
  RAMFS_NAME_LEN :: nat

definition ramfs_fs :: ref where "ramfs_fs = Static 0"
definition root_inode :: ref where "root_inode = Static 1"
definition ramfs_ops_table :: ref where "ramfs_ops_table = Static 2"

section \<open>Lookup\<close>

function find_loop :: "'e ramfs_env_scheme \<Rightarrow> byte list \<Rightarrow> nat \<Rightarrow> 'z ramfs_scheme \<Rightarrow> nat option kres" where
  "find_loop env name i s =
     (if i < RAMFS_MAX_FILES env
      then if i < length (file_table s)
           then let f = file_table s ! i
                in if rf_inode f = None then find_loop env name (i + 1) s
                   else rbind (strcmp (rf_name f) name) (\<lambda>c.
                        if c = 0 then Inr (Some i) else find_loop env name (i + 1) s)
           else Inl Bounds
      else Inr None)"
  by pat_completeness auto
termination
  by (relation "measure (\<lambda>(env, name, i, s). RAMFS_MAX_FILES env - i)") auto

declare find_loop.simps [simp del]

definition ramfs_find :: "'e ramfs_env_scheme \<Rightarrow> byte list \<Rightarrow> 'z ramfs_scheme \<Rightarrow> nat option kres" where
  "ramfs_find env name s = find_loop env name 0 s"

definition ramfs_lookup :: "'e ramfs_env_scheme \<Rightarrow> ref option \<Rightarrow> byte list
    \<Rightarrow> 'z ramfs_scheme \<Rightarrow> (ref option \<times> 'z ramfs_scheme) kres" where
  "ramfs_lookup env dir name s =
     rbind (ramfs_find env name s) (\<lambda>f.
     case f of None \<Rightarrow> Inr (None, s) | Some i \<Rightarrow> Inr (rf_inode (file_table s ! i), s))"

section \<open>Reading and writing\<close>

definition block :: "ramfs_file \<Rightarrow> byte list" where
  "block f = (case rf_data f of None \<Rightarrow> [] | Some bs \<Rightarrow> bs)"

text \<open>\<open>inode->internal\<close> as a table entry; \<open>None\<close> where the functions return \<open>-1\<close> at once.\<close>

definition ramfs_entry :: "ref \<Rightarrow> 'z ramfs_scheme \<Rightarrow> nat option kres" where
  "ramfs_entry node s =
     rbind (deref (inodes s) (Some node)) (\<lambda>v.
     case internal v of
       None \<Rightarrow> Inr None
     | Some i \<Rightarrow>
         if i < length (file_table s)
         then Inr (if rf_mode (file_table s ! i) \<noteq> VFS_MODE_FILE then None else Some i)
         else Inl Bounds)"

definition ramfs_read :: "ref \<Rightarrow> ulong \<Rightarrow> byte list \<Rightarrow> ulong
    \<Rightarrow> 'z ramfs_scheme \<Rightarrow> (int \<times> byte list \<times> 'z ramfs_scheme) kres" where
  "ramfs_read node offset buf len s =
     rbind (ramfs_entry node s) (\<lambda>x.
     case x of
       None \<Rightarrow> Inr (-1, buf, s)
     | Some i \<Rightarrow>
         let f = file_table s ! i
         in if rf_size f \<le> offset then Inr (0, buf, s)
            else let to_read = (if rf_size f < offset + len then rf_size f - offset else len);
                     n = unat to_read
                 in if n \<noteq> 0 \<and> (length (block f) < unat offset + n \<or> length buf < n) then Inl Bounds
                    else Inr (c_int to_read, take n (drop (unat offset) (block f)) @ drop n buf, s))"

text \<open>\<^verbatim>\<open>memcpy (f->data + offset, buf, len)\<close> on the block of entry \<open>i\<close>.\<close>

definition store_data :: "nat \<Rightarrow> ulong \<Rightarrow> byte list \<Rightarrow> ulong \<Rightarrow> 'z ramfs_scheme \<Rightarrow> 'z ramfs_scheme kres" where
  "store_data i offset buf len s =
     (let f = file_table s ! i; k = unat offset; n = unat len
      in if n = 0 then Inr s
         else if length (block f) < k + n \<or> length buf < n then Inl Bounds
         else Inr (s\<lparr>file_table := (file_table s)[i := f\<lparr>rf_data :=
                Some (take k (block f) @ take n buf @ drop (k + n) (block f))\<rparr>]\<rparr>))"

definition ramfs_write :: "'e ramfs_env_scheme \<Rightarrow> ref \<Rightarrow> ulong \<Rightarrow> byte list \<Rightarrow> ulong
    \<Rightarrow> 'z ramfs_scheme \<Rightarrow> (int \<times> 'z ramfs_scheme) kres" where
  "ramfs_write env node offset buf len s =
     rbind (ramfs_entry node s) (\<lambda>x.
     case x of
       None \<Rightarrow> Inr (-1, s)
     | Some i \<Rightarrow>
         let f = file_table s ! i; new_size = offset + len
         in if rf_size f < new_size
            then case realloc env (block f) (unat new_size) s of
                   (None, s) \<Rightarrow> Inr (-1, s)
                 | (Some new_data, s) \<Rightarrow>
                     rbind (deref (inodes s) (Some node)) (\<lambda>v.
                     rbind (store_data i offset buf len
                       (s\<lparr>file_table := (file_table s)[i := f\<lparr>rf_data := Some new_data, rf_size := new_size\<rparr>],
                          inodes := (inodes s)(node \<mapsto> v\<lparr>i_size := new_size\<rparr>)\<rparr>)) (\<lambda>s.
                     Inr (c_int len, s)))
            else rbind (store_data i offset buf len s) (\<lambda>s. Inr (c_int len, s)))"

section \<open>Creating files\<close>

definition ramfs_fill :: "'e ramfs_env_scheme \<Rightarrow> nat \<Rightarrow> byte list \<Rightarrow> uint
    \<Rightarrow> 'z ramfs_scheme \<Rightarrow> (int \<times> 'z ramfs_scheme) kres" where
  "ramfs_fill env i name mode s =
     (let f = file_table s ! i
      in rbind (strncpy (rf_name f) name (RAMFS_NAME_LEN env)) (\<lambda>nm.
         let f = f\<lparr>rf_name := nm, rf_mode := mode, rf_data := None, rf_size := 0\<rparr>
         in case malloc env (s\<lparr>file_table := (file_table s)[i := f]\<rparr>) of
              (None, s) \<Rightarrow> Inr (-1, s)
            | (Some node, s) \<Rightarrow>
                Inr (0, s\<lparr>inodes := (inodes s)(node \<mapsto>
                            \<lparr>inode_no = next_inode_no s, i_size = 0, i_mode = mode,
                             i_fs = Some ramfs_fs, internal = Some i\<rparr>),
                          next_inode_no := next_inode_no s + 1,
                          file_table := (file_table s)[i := f\<lparr>rf_inode := Some node\<rparr>]\<rparr>)))"

function create_loop :: "'e ramfs_env_scheme \<Rightarrow> byte list \<Rightarrow> uint \<Rightarrow> nat
    \<Rightarrow> 'z ramfs_scheme \<Rightarrow> (int \<times> 'z ramfs_scheme) kres" where
  "create_loop env name mode i s =
     (if i < RAMFS_MAX_FILES env
      then if i < length (file_table s)
           then if rf_inode (file_table s ! i) = None then ramfs_fill env i name mode s
                else create_loop env name mode (i + 1) s
           else Inl Bounds
      else Inr (-1, s))"
  by pat_completeness auto
termination
  by (relation "measure (\<lambda>(env, name, mode, i, s). RAMFS_MAX_FILES env - i)") auto

declare create_loop.simps [simp del]

definition ramfs_create :: "'e ramfs_env_scheme \<Rightarrow> ref option \<Rightarrow> byte list \<Rightarrow> uint
    \<Rightarrow> 'z ramfs_scheme \<Rightarrow> (int \<times> 'z ramfs_scheme) kres" where
  "ramfs_create env dir name mode s = create_loop env name mode 0 s"

definition ramfs_mkdir :: "ref option \<Rightarrow> byte list \<Rightarrow> 'z ramfs_scheme \<Rightarrow> (int \<times> 'z ramfs_scheme) kres" where
  "ramfs_mkdir dir name s = Inr (-1, s)"

definition ramfs_ops :: "'e ramfs_env_scheme \<Rightarrow> 'z ramfs_scheme filesystem_ops" where
  "ramfs_ops env =
     \<lparr>op_lookup = ramfs_lookup env, op_read = ramfs_read, op_write = ramfs_write env,
      op_create = ramfs_create env, op_mkdir = ramfs_mkdir\<rparr>"

text \<open>The operation table that references resolve to: the program has one.\<close>

definition ramfs_prog :: "'e ramfs_env_scheme \<Rightarrow> ref \<Rightarrow> 'z ramfs_scheme filesystem_ops" where
  "ramfs_prog env t = ramfs_ops env"

section \<open>The file system object\<close>

text \<open>The second function called \<^verbatim>\<open>ramfs_create\<close>, the one without arguments.\<close>

definition empty_entry :: ramfs_file where
  "empty_entry = \<lparr>rf_name = replicate MAX_NAME_LEN 0, rf_data = None, rf_size = 0, rf_mode = 0, rf_inode = None\<rparr>"

definition ramfs_create_fs :: "'z ramfs_scheme \<Rightarrow> ref option \<times> 'z ramfs_scheme" where
  "ramfs_create_fs s =
     (Some ramfs_fs,
      s\<lparr>file_table := replicate MAX_OPEN_FILES empty_entry,
        inodes := (inodes s)(root_inode \<mapsto>
          \<lparr>inode_no = 0, i_size = 0, i_mode = VFS_MODE_DIR, i_fs = Some ramfs_fs, internal = None\<rparr>),
        filesystems := (filesystems s)(ramfs_fs \<mapsto>
          \<lparr>fs_name = cstr ''ramfs'', fs_ops = Some ramfs_ops_table, fs_root = Some root_inode\<rparr>)\<rparr>)"

end
