(* ===== verification/Vfs_Spec.thy ===== *)
theory Vfs_Spec
  imports Vfs
begin

text \<open>
  What the virtual file system promises: an abstract state of open descriptors (file and
  position) and file contents, the contract of a mounted file system as a locale, and, inside
  it, the proof that the functions of \<^verbatim>\<open>vfs.c\<close> implement the abstract operations.
\<close>

section \<open>Strings in arrays\<close>

definition c_text :: "byte list \<Rightarrow> byte list" where
  "c_text bs = takeWhile (\<lambda>b. b \<noteq> 0) bs"

definition terminated :: "byte list \<Rightarrow> bool" where
  "terminated bs \<longleftrightarrow> 0 \<in> set bs"

lemma terminated_simps [simp]:
  "\<not> terminated []" "terminated (b # bs) \<longleftrightarrow> b = 0 \<or> terminated bs"
  by (auto simp: terminated_def)

lemma c_text_simps [simp]:
  "c_text [] = []" "c_text (b # bs) = (if b = 0 then [] else b # c_text bs)"
  by (simp_all add: c_text_def)

lemma strcmp_terminated:
  assumes "terminated as" and "terminated bs"
  shows "\<exists>c. strcmp as bs = Inr c \<and> (c = 0 \<longleftrightarrow> c_text as = c_text bs)"
  using assms
proof (induction as bs rule: strcmp.induct)
  case (1 a as b bs)
  have "uint a - uint b = 0 \<longleftrightarrow> a = b" by (simp add: word_uint_eq_iff)
  with 1 show ?case by (cases "a = b") auto
qed auto

lemma strncpy_bytes_short:
  assumes "terminated bs" and "length (c_text bs) < n"
  shows "strncpy_bytes bs n = Inr (c_text bs @ replicate (n - length (c_text bs)) 0)"
  using assms
proof (induction bs n rule: strncpy_bytes.induct)
  case (3 c cs n)
  then show ?case by (cases "c = 0") (auto simp: Suc_diff_le)
qed auto

lemma strncpy_bytes_returns:
  assumes "terminated bs"
  shows "\<exists>r. strncpy_bytes bs n = Inr r"
  using assms by (induction bs n rule: strncpy_bytes.induct) auto

lemma c_text_append_zero:
  assumes "0 \<notin> set as"
  shows "c_text (as @ 0 # bs) = as"
  using assms by (induction as) auto

lemma strncpy_short:
  assumes "terminated bs" and "length (c_text bs) < n" and "n \<le> length d"
  shows "\<exists>r. strncpy d bs n = Inr r \<and> length r = length d \<and> terminated r \<and> c_text r = c_text bs"
proof -
  let ?k = "length (c_text bs)"
  let ?r = "c_text bs @ replicate (n - ?k) 0 @ drop n d"
  obtain m where k: "n - ?k = Suc m" using assms(2) by (metis Suc_diff_Suc)
  have "c_text ?r = c_text bs"
    unfolding k replicate_Suc append_Cons
    by (rule c_text_append_zero) (auto simp: c_text_def dest: set_takeWhileD)
  moreover have "terminated ?r" using assms(2) by (auto simp: terminated_def)
  moreover have "strncpy d bs n = Inr ?r"
    using assms by (simp add: strncpy_def strncpy_bytes_short)
  moreover have "length ?r = length d" using assms by simp
  ultimately show ?thesis by blast
qed

section \<open>The abstract file system\<close>

record abstract_fs =
  a_files :: "ref \<rightharpoonup> byte list"
  a_handles :: "int \<rightharpoonup> ref \<times> nat"

definition overwrite :: "byte list \<Rightarrow> nat \<Rightarrow> byte list \<Rightarrow> byte list" where
  "overwrite xs k ws = take k xs @ ws @ drop (k + length ws) xs"

definition a_write :: "int \<Rightarrow> byte list \<Rightarrow> abstract_fs \<Rightarrow> abstract_fs" where
  "a_write fd ws a =
     (case a_handles a fd of
        None \<Rightarrow> a
      | Some (i, k) \<Rightarrow>
          (case a_files a i of
             None \<Rightarrow> a
           | Some xs \<Rightarrow> a\<lparr>a_files := (a_files a)(i \<mapsto> overwrite xs k ws),
                          a_handles := (a_handles a)(fd \<mapsto> (i, k + length ws))\<rparr>))"

definition a_read :: "int \<Rightarrow> nat \<Rightarrow> abstract_fs \<Rightarrow> byte list \<times> abstract_fs" where
  "a_read fd n a =
     (case a_handles a fd of
        None \<Rightarrow> ([], a)
      | Some (i, k) \<Rightarrow>
          (case a_files a i of
             None \<Rightarrow> ([], a)
           | Some xs \<Rightarrow> let bs = take n (drop k xs)
                        in (bs, a\<lparr>a_handles := (a_handles a)(fd \<mapsto> (i, k + length bs))\<rparr>)))"

definition a_open :: "int \<Rightarrow> ref \<Rightarrow> abstract_fs \<Rightarrow> abstract_fs" where
  "a_open fd i a = a\<lparr>a_handles := (a_handles a)(fd \<mapsto> (i, 0))\<rparr>"

lemma length_overwrite: "k \<le> length xs \<Longrightarrow> length (overwrite xs k ws) = max (length xs) (k + length ws)"
  by (auto simp: overwrite_def)

lemma overwrite_end: "overwrite xs (length xs) ws = xs @ ws"
  by (simp add: overwrite_def)

section \<open>Descriptors\<close>

definition handle :: "'z vfs_scheme \<Rightarrow> int \<Rightarrow> (ref \<times> nat) option" where
  "handle s fd =
     (if fd < 0 \<or> int MAX_OPEN_FILES \<le> fd then None
      else case open_files s ! nat fd of
             None \<Rightarrow> None
           | Some f \<Rightarrow> (case files s f of
               None \<Rightarrow> None
             | Some v \<Rightarrow> (case f_inode v of None \<Rightarrow> None | Some i \<Rightarrow> Some (i, unat (f_offset v)))))"

text \<open>The table of descriptors: 64 entries, each free or an open file of its own on an inode.\<close>

definition handles_ok :: "'z vfs_scheme \<Rightarrow> bool" where
  "handles_ok s \<longleftrightarrow>
     length (open_files s) = MAX_OPEN_FILES \<and>
     (\<forall>k < MAX_OPEN_FILES. \<forall>f. open_files s ! k = Some f \<longrightarrow>
        (\<exists>v i. files s f = Some v \<and> f_inode v = Some i \<and> i \<in> dom (inodes s)) \<and>
        (\<exists>n < n_alloc s. f = Heap n)) \<and>
     (\<forall>k < MAX_OPEN_FILES. \<forall>l < MAX_OPEN_FILES. \<forall>f.
        open_files s ! k = Some f \<longrightarrow> open_files s ! l = Some f \<longrightarrow> k = l)"

lemma handle_cases:
  assumes "handles_ok s" and "handle s fd = Some (i, k)"
  obtains f v where "0 \<le> fd" "fd < int MAX_OPEN_FILES" "open_files s ! nat fd = Some f"
    "files s f = Some v" "f_inode v = Some i" "unat (f_offset v) = k" "vfs_get_file fd s = Inr (Some f)"
  using assms
  by (auto simp: handle_def handles_ok_def vfs_get_file_def split: if_splits option.splits)

lemma handle_inode:
  assumes "handles_ok s" and "handle s fd = Some (i, k)"
  shows "i \<in> dom (inodes s)"
proof -
  obtain f v where f: "0 \<le> fd" "fd < int MAX_OPEN_FILES" "open_files s ! nat fd = Some f"
    "files s f = Some v" "f_inode v = Some i"
    using handle_cases [OF assms] by blast
  then have "nat fd < MAX_OPEN_FILES" by linarith
  then obtain v' j where "files s f = Some v'" "f_inode v' = Some j" "j \<in> dom (inodes s)"
    using assms(1) f(3) unfolding handles_ok_def by blast
  with f show ?thesis by simp
qed

lemma handle_other_file:
  assumes "handles_ok s" and "0 \<le> fd" "fd < int MAX_OPEN_FILES" "open_files s ! nat fd = Some f"
    and "fd' \<noteq> fd"
  shows "handle (s\<lparr>files := (files s)(f \<mapsto> v)\<rparr>) fd' = handle s fd'"
proof (cases "fd' < 0 \<or> int MAX_OPEN_FILES \<le> fd'")
  case False
  then have "nat fd' \<noteq> nat fd" "nat fd' < MAX_OPEN_FILES" "nat fd < MAX_OPEN_FILES"
    using assms by auto
  then have "open_files s ! nat fd' \<noteq> Some f"
    using assms(1,4) unfolding handles_ok_def by blast
  then show ?thesis by (auto simp: handle_def split: option.splits)
qed (simp add: handle_def)

text \<open>Moving the position of one descriptor.\<close>

lemma advance_handle:
  assumes ok: "handles_ok s" and fd: "0 \<le> fd" "fd < int MAX_OPEN_FILES" "open_files s ! nat fd = Some f"
    and f: "files s f = Some v" "f_inode v = Some i"
    and n: "unat (f_offset v) + n < 2 ^ 64"
  obtains s' where "advance f (int n) s = Inr s'" "handles_ok s'"
    "handle s' = (handle s)(fd \<mapsto> (i, unat (f_offset v) + n))"
    "\<exists>h. s' = s\<lparr>files := h\<rparr>"
proof -
  let ?v = "v\<lparr>f_offset := f_offset v + of_nat n\<rparr>"
  let ?s = "s\<lparr>files := (files s)(f \<mapsto> ?v)\<rparr>"
  have u: "unat (f_offset v + of_nat n) = unat (f_offset v) + n"
    using n by (subst unat_add64) (simp_all add: unat_of_nat64)
  have "advance f (int n) s = Inr ?s"
  proof (cases "n = 0")
    case True
    then have "?s = s" using f(1) by (simp add: fun_upd_idem)
    with True show ?thesis by (simp add: advance_def)
  qed (simp add: advance_def deref_def f(1))
  moreover have "handles_ok ?s"
    using ok f by (fastforce simp: handles_ok_def)
  moreover have "handle ?s = (handle s)(fd \<mapsto> (i, unat (f_offset v) + n))"
  proof
    fix fd'
    show "handle ?s fd' = ((handle s)(fd \<mapsto> (i, unat (f_offset v) + n))) fd'"
    proof (cases "fd' = fd")
      case True
      then show ?thesis using fd f u by (simp add: handle_def)
    next
      case False
      then show ?thesis using handle_other_file [OF ok fd False] by simp
    qed
  qed
  ultimately show ?thesis using that by blast
qed

text \<open>\<open>vfs_install_fd\<close> takes the lowest free slot.\<close>

lemma install_loop_lowest:
  assumes "length (open_files s) = MAX_OPEN_FILES" and "i \<le> MAX_OPEN_FILES"
  shows "(\<exists>k. i \<le> k \<and> k < MAX_OPEN_FILES \<and> open_files s ! k = None \<and>
             (\<forall>j. i \<le> j \<longrightarrow> j < k \<longrightarrow> open_files s ! j \<noteq> None) \<and>
             install_loop f i s = Inr (int k, s\<lparr>open_files := (open_files s)[k := f]\<rparr>)) \<or>
         (\<forall>j. i \<le> j \<longrightarrow> j < MAX_OPEN_FILES \<longrightarrow> open_files s ! j \<noteq> None) \<and> install_loop f i s = Inr (-1, s)"
  using assms(2)
proof (induction "MAX_OPEN_FILES - i" arbitrary: i)
  case 0
  then show ?case by (intro disjI2) (subst install_loop.simps, simp)
next
  case (Suc d)
  then have i: "i < MAX_OPEN_FILES" by simp
  show ?case
  proof (cases "open_files s ! i = None")
    case True
    then have "install_loop f i s = Inr (int i, s\<lparr>open_files := (open_files s)[i := f]\<rparr>)"
      using i assms(1) by (subst install_loop.simps) simp
    with True i show ?thesis by (intro disjI1 exI [of _ i]) simp
  next
    case False
    then have run: "install_loop f i s = install_loop f (i + 1) s"
      using i assms(1) by (subst install_loop.simps) (simp del: not_None_eq)
    have step: "open_files s ! j \<noteq> None" if "i \<le> j" "i + 1 \<le> j \<longrightarrow> open_files s ! j \<noteq> None" for j
      using that False by (cases "j = i") auto
    have hyp: "(\<exists>k. i + 1 \<le> k \<and> k < MAX_OPEN_FILES \<and> open_files s ! k = None \<and>
             (\<forall>j. i + 1 \<le> j \<longrightarrow> j < k \<longrightarrow> open_files s ! j \<noteq> None) \<and>
             install_loop f (i + 1) s = Inr (int k, s\<lparr>open_files := (open_files s)[k := f]\<rparr>)) \<or>
         (\<forall>j. i + 1 \<le> j \<longrightarrow> j < MAX_OPEN_FILES \<longrightarrow> open_files s ! j \<noteq> None) \<and> install_loop f (i + 1) s = Inr (-1, s)"
      using Suc.hyps(1) [of "i + 1"] Suc.hyps(2) i by simp
    then show ?thesis
    proof (elim disjE exE conjE)
      fix k
      assume "i + 1 \<le> k" "k < MAX_OPEN_FILES" "open_files s ! k = None"
        "\<forall>j. i + 1 \<le> j \<longrightarrow> j < k \<longrightarrow> open_files s ! j \<noteq> None"
        "install_loop f (i + 1) s = Inr (int k, s\<lparr>open_files := (open_files s)[k := f]\<rparr>)"
      then show ?thesis using run step by (intro disjI1 exI [of _ k]) auto
    next
      assume "\<forall>j. i + 1 \<le> j \<longrightarrow> j < MAX_OPEN_FILES \<longrightarrow> open_files s ! j \<noteq> None"
        "install_loop f (i + 1) s = Inr (-1, s)"
      then show ?thesis using run step by (intro disjI2) auto
    qed
  qed
qed

text \<open>Opening a file: the table gets one more open file, at position 0.\<close>

definition with_file :: "nat \<Rightarrow> ref \<Rightarrow> ref \<Rightarrow> 'z vfs_scheme \<Rightarrow> 'z vfs_scheme" where
  "with_file k f i s =
     s\<lparr>files := (files s)(f \<mapsto> \<lparr>f_inode = Some i, f_offset = 0, f_flags = 0\<rparr>),
       open_files := (open_files s)[k := Some f]\<rparr>"

lemma with_file_ok:
  assumes ok: "handles_ok s" and k: "k < MAX_OPEN_FILES" "open_files s ! k = None" and i: "i \<in> dom (inodes s)"
  shows "handles_ok (with_file k (Heap (n_alloc s)) i (s\<lparr>n_alloc := n_alloc s + 1\<rparr>))" (is ?ok)
    and "handle (with_file k (Heap (n_alloc s)) i (s\<lparr>n_alloc := n_alloc s + 1\<rparr>)) = (handle s)(int k \<mapsto> (i, 0))"
      (is ?handle)
proof -
  have fresh: "open_files s ! l \<noteq> Some (Heap (n_alloc s))" if "l < MAX_OPEN_FILES" for l
    using ok that unfolding handles_ok_def by (metis less_irrefl ref.inject(2))
  have len: "length (open_files s) = MAX_OPEN_FILES" using ok by (simp add: handles_ok_def)
  have entry: "\<exists>v j. files s f = Some v \<and> f_inode v = Some j \<and> j \<in> dom (inodes s)"
      and heap: "\<exists>n < n_alloc s. f = Heap n" and one: "open_files s ! m = Some f \<Longrightarrow> m < MAX_OPEN_FILES \<Longrightarrow> l = m"
    if "l < MAX_OPEN_FILES" "open_files s ! l = Some f" for l m f
    using ok that unfolding handles_ok_def by blast+
  let ?h = "Heap (n_alloc s)"
  let ?s = "with_file k ?h i (s\<lparr>n_alloc := n_alloc s + 1\<rparr>)"
  have nth: "open_files ?s ! l = (if l = k then Some ?h else open_files s ! l)" if "l < MAX_OPEN_FILES" for l
    using that len by (simp add: with_file_def nth_list_update)
  have old: "files ?s f = files s f" if "l < MAX_OPEN_FILES" "open_files s ! l = Some f" for l f
    using that fresh [of l] by (auto simp: with_file_def)
  show ?ok
    unfolding handles_ok_def
  proof (intro conjI allI impI)
    fix l f
    assume l: "l < MAX_OPEN_FILES" "open_files ?s ! l = Some f"
    show "\<exists>v j. files ?s f = Some v \<and> f_inode v = Some j \<and> j \<in> dom (inodes ?s)"
      using l i nth [of l] entry [of l f] old [of l f] by (cases "l = k") (auto simp: with_file_def)
    show "\<exists>n < n_alloc ?s. f = Heap n"
      using l nth [of l] heap [of l f] by (cases "l = k") (auto simp: with_file_def intro: less_SucI)
  next
    fix l m f
    assume "l < MAX_OPEN_FILES" "m < MAX_OPEN_FILES" "open_files ?s ! l = Some f" "open_files ?s ! m = Some f"
    then show "l = m"
      using fresh [of l] fresh [of m] one [of l f m] nth [of l] nth [of m] by (auto split: if_splits)
  qed (simp add: with_file_def len)
  have fresh_fd: "open_files s ! nat fd \<noteq> Some ?h" if "\<not> fd < 0" "\<not> int MAX_OPEN_FILES \<le> fd" for fd
    using that fresh [of "nat fd"] by linarith
  show ?handle
  proof
    fix fd
    show "handle (with_file k (Heap (n_alloc s)) i (s\<lparr>n_alloc := n_alloc s + 1\<rparr>)) fd
        = ((handle s)(int k \<mapsto> (i, 0))) fd"
      using len k fresh_fd [of fd]
      by (auto simp: handle_def with_file_def nth_list_update split: option.splits)
  qed
qed

lemma handle_None_iff:
  assumes "handles_ok s" and "k < MAX_OPEN_FILES"
  shows "handle s (int k) = None \<longleftrightarrow> open_files s ! k = None"
  using assms by (auto simp: handle_def handles_ok_def split: option.splits)

text \<open>An open file that gets no slot stays out of reach.\<close>

lemma lost_file_ok:
  assumes ok: "handles_ok s"
  shows "handles_ok (s\<lparr>n_alloc := n_alloc s + 1, files := (files s)(Heap (n_alloc s) \<mapsto> v)\<rparr>)" (is "handles_ok ?s")
    and "handle (s\<lparr>n_alloc := n_alloc s + 1, files := (files s)(Heap (n_alloc s) \<mapsto> v)\<rparr>) = handle s"
proof -
  have heap: "\<exists>n < n_alloc s. f = Heap n" if "l < MAX_OPEN_FILES" "open_files s ! l = Some f" for l f
    using ok that unfolding handles_ok_def by blast
  have old: "files ?s f = files s f" if "l < MAX_OPEN_FILES" "open_files s ! l = Some f" for l f
    using heap [OF that] by auto
  show "handles_ok ?s"
    unfolding handles_ok_def
  proof (intro conjI allI impI)
    fix l f
    assume l: "l < MAX_OPEN_FILES" "open_files ?s ! l = Some f"
    then have l': "open_files s ! l = Some f" by simp
    show "\<exists>v i. files ?s f = Some v \<and> f_inode v = Some i \<and> i \<in> dom (inodes ?s)"
      unfolding old [OF l(1) l'] using ok l(1) l' by (simp add: handles_ok_def)
    show "\<exists>n < n_alloc ?s. f = Heap n" using heap [OF l(1) l'] by (auto intro: less_SucI)
  qed (use ok in \<open>auto simp: handles_ok_def\<close>)
  show "handle ?s = handle s"
  proof
    fix fd
    have "nat fd < MAX_OPEN_FILES" if "\<not> fd < 0" "\<not> int MAX_OPEN_FILES \<le> fd" using that by linarith
    then show "handle ?s fd = handle s fd"
      using old [of "nat fd"] by (auto simp: handle_def split: option.splits)
  qed
qed

end
