(* ===== verification/Vfs_Layer.thy ===== *)
theory Vfs_Layer
  imports Vfs_Spec
begin

text \<open>
  The contract between \<^verbatim>\<open>vfs.c\<close> and a mounted file system, as a locale over the operation table,
  and the functions of \<^verbatim>\<open>vfs.c\<close> proved once against it. A file system keeps an invariant, gives
  the contents of its regular files and the names of its directory, and promises what its five
  operations do to them.
\<close>

section \<open>What a file system may touch\<close>

definition same_layer :: "'z vfs_scheme \<Rightarrow> 'z vfs_scheme \<Rightarrow> bool" where
  "same_layer s s' \<longleftrightarrow>
     files s' = files s \<and> open_files s' = open_files s \<and> root_fs s' = root_fs s \<and>
     filesystems s' = filesystems s \<and> n_alloc s \<le> n_alloc s' \<and> dom (inodes s) \<subseteq> dom (inodes s')"

lemma same_layer_refl [simp]: "same_layer s s"
  by (simp add: same_layer_def)

lemma same_layer_handle: "same_layer s s' \<Longrightarrow> handle s' = handle s"
  by (rule ext) (auto simp: same_layer_def handle_def split: option.splits)

lemma same_layer_ok:
  assumes "same_layer s s'" and "handles_ok s"
  shows "handles_ok s'"
  unfolding handles_ok_def
proof (intro conjI allI impI)
  fix k f
  assume k: "k < MAX_OPEN_FILES" "open_files s' ! k = Some f"
  then have f: "(\<exists>v i. files s f = Some v \<and> f_inode v = Some i \<and> i \<in> dom (inodes s)) \<and> (\<exists>n < n_alloc s. f = Heap n)"
    using assms unfolding handles_ok_def same_layer_def by metis
  then show "\<exists>v i. files s' f = Some v \<and> f_inode v = Some i \<and> i \<in> dom (inodes s')"
    using assms(1) unfolding same_layer_def by (metis subsetD)
  show "\<exists>n < n_alloc s'. f = Heap n" using f assms(1) by (auto simp: same_layer_def)
qed (use assms in \<open>auto simp: handles_ok_def same_layer_def\<close>)

text \<open>The abstract state behind a state of the layer, given the contents of the regular files, and
  the invariant of the layer: positions never pass the end of a file.\<close>

definition abs_fs :: "('z vfs_scheme \<Rightarrow> ref \<rightharpoonup> byte list) \<Rightarrow> 'z vfs_scheme \<Rightarrow> abstract_fs" where
  "abs_fs contents s = \<lparr>a_files = contents s, a_handles = handle s\<rparr>"

definition vfs_ok :: "('z vfs_scheme \<Rightarrow> bool) \<Rightarrow> ('z vfs_scheme \<Rightarrow> ref \<rightharpoonup> byte list) \<Rightarrow> 'z vfs_scheme \<Rightarrow> bool" where
  "vfs_ok invar contents s \<longleftrightarrow> invar s \<and> handles_ok s \<and>
     (\<forall>fd i k xs. handle s fd = Some (i, k) \<longrightarrow> contents s i = Some xs \<longrightarrow> k \<le> length xs)"

text \<open>What a path broken into tokens denotes in a file system with one directory.\<close>

definition token_target :: "ref \<Rightarrow> (byte list \<rightharpoonup> ref) \<Rightarrow> byte list list \<Rightarrow> ref option" where
  "token_target root names toks = (case toks of [] \<Rightarrow> Some root | t # ts \<Rightarrow> names (c_text t))"

section \<open>The contract\<close>

locale file_system =
  fixes prog :: "ref \<Rightarrow> 'z vfs_scheme filesystem_ops"
    and ops :: "'z vfs_scheme filesystem_ops"
    and invar :: "'z vfs_scheme \<Rightarrow> bool"
    and contents :: "'z vfs_scheme \<Rightarrow> ref \<Rightarrow> byte list option"
    and names :: "'z vfs_scheme \<Rightarrow> byte list \<Rightarrow> ref option"
    and fs :: ref and root :: ref
    and env :: "'e fs_env_scheme"
    and name_ok :: "byte list \<Rightarrow> bool"
    and full :: "'z vfs_scheme \<Rightarrow> bool"
  assumes inv_files: "invar s \<Longrightarrow> invar (s\<lparr>files := a\<rparr>)"
    and inv_open_files: "invar s \<Longrightarrow> invar (s\<lparr>open_files := b\<rparr>)"
    and inv_root: "invar s \<Longrightarrow> invar (s\<lparr>root_fs := c\<rparr>)"
    and inv_alloc: "invar s \<Longrightarrow> invar (s\<lparr>n_alloc := n_alloc s + 1\<rparr>)"
    and contents_files: "contents (s\<lparr>files := a\<rparr>) = contents s"
    and contents_open_files: "contents (s\<lparr>open_files := b\<rparr>) = contents s"
    and contents_root: "contents (s\<lparr>root_fs := c\<rparr>) = contents s"
    and contents_alloc: "contents (s\<lparr>n_alloc := d\<rparr>) = contents s"
    and names_files: "names (s\<lparr>files := a\<rparr>) = names s"
    and names_open_files: "names (s\<lparr>open_files := b\<rparr>) = names s"
    and names_root: "names (s\<lparr>root_fs := c\<rparr>) = names s"
    and names_alloc: "names (s\<lparr>n_alloc := d\<rparr>) = names s"
    and mounted: "invar s \<Longrightarrow> \<exists>v t. filesystems s fs = Some v \<and> fs_root v = Some root \<and> fs_ops v = Some t \<and> prog t = ops"
    and directory: "invar s \<Longrightarrow> \<exists>v. inodes s root = Some v \<and> i_mode v AND VFS_MODE_DIR \<noteq> 0 \<and> i_fs v = Some fs"
    and regular: "invar s \<Longrightarrow> contents s i = Some xs \<Longrightarrow>
      \<exists>v. inodes s i = Some v \<and> i_mode v AND VFS_MODE_FILE \<noteq> 0 \<and> i_mode v AND VFS_MODE_DIR = 0 \<and> i_fs v = Some fs"
    and lookup_law: "invar s \<Longrightarrow> terminated name \<Longrightarrow> op_lookup ops (Some root) name s = Inr (names s (c_text name), s)"
    and names_inode: "invar s \<Longrightarrow> names s nm = Some i \<Longrightarrow> i \<in> dom (inodes s)"
    and read_law: "invar s \<Longrightarrow> contents s i = Some xs \<Longrightarrow> unat off \<le> length xs \<Longrightarrow> length xs < 2 ^ 31 \<Longrightarrow>
      unat off + unat len < 2 ^ 64 \<Longrightarrow> unat len \<le> length buf \<Longrightarrow>
      bs = take (unat len) (drop (unat off) xs) \<Longrightarrow>
      op_read ops i off buf len s = Inr (int (length bs), bs @ drop (length bs) buf, s)"
    and write_law: "invar s \<Longrightarrow> contents s i = Some xs \<Longrightarrow> unat off \<le> length xs \<Longrightarrow>
      unat off + unat len < 2 ^ 31 \<Longrightarrow> unat len \<le> length buf \<Longrightarrow>
      \<exists>r s'. op_write ops i off buf len s = Inr (r, s') \<and> invar s' \<and> same_layer s s' \<and> names s' = names s \<and>
        (r = int (unat len) \<and> contents s' = (contents s)(i \<mapsto> overwrite xs (unat off) (take (unat len) buf)) \<or>
         r = -1 \<and> \<not> malloc_ok env (n_alloc s) \<and> contents s' = contents s)"
    and create_law: "invar s \<Longrightarrow> name_ok name \<Longrightarrow>
      \<exists>r s'. op_create ops (Some root) name mode s = Inr (r, s') \<and> invar s' \<and> same_layer s s' \<and>
        (r = 0 \<and> Heap (n_alloc s) \<notin> dom (inodes s) \<and>
         contents s' = (if mode = VFS_MODE_FILE then (contents s)(Heap (n_alloc s) \<mapsto> []) else contents s) \<and>
         names s' = (if names s (c_text name) = None then (names s)(c_text name \<mapsto> Heap (n_alloc s)) else names s) \<or>
         r = -1 \<and> (\<not> malloc_ok env (n_alloc s) \<or> full s) \<and> contents s' = contents s \<and> names s' = names s)"
begin

lemma fs_ops_of: "invar s \<Longrightarrow> ops_of prog (Some fs) (filesystems s) = Inr ops"
  using mounted [of s] by (auto simp: ops_of_def deref_def)

lemma regular_file_ok:
  assumes "vfs_ok invar contents s" and "handle s fd = Some (i, k)" and "contents s i = Some xs"
  obtains f v node where "regular_file fd s = Inr (Some (f, v, i, node))"
    "0 \<le> fd" "fd < int MAX_OPEN_FILES" "open_files s ! nat fd = Some f" "files s f = Some v"
    "f_inode v = Some i" "unat (f_offset v) = k" "i_fs node = Some fs"
proof -
  have ok: "handles_ok s" and invar: "invar s" using assms(1) by (auto simp: vfs_ok_def)
  obtain f v where f: "0 \<le> fd" "fd < int MAX_OPEN_FILES" "open_files s ! nat fd = Some f"
    "files s f = Some v" "f_inode v = Some i" "unat (f_offset v) = k" "vfs_get_file fd s = Inr (Some f)"
    using handle_cases [OF ok assms(2)] by blast
  obtain node where node: "inodes s i = Some node" "i_mode node AND VFS_MODE_FILE \<noteq> 0" "i_fs node = Some fs"
    using regular [OF invar assms(3)] by blast
  have "regular_file fd s = Inr (Some (f, v, i, node))"
    using f node by (simp add: regular_file_def deref_def)
  then show ?thesis using that f node by blast
qed

text \<open>\<open>vfs_write\<close> writes at the position of the descriptor and moves it.\<close>

lemma vfs_write_abs:
  assumes ok: "vfs_ok invar contents s" and h: "handle s fd = Some (i, k)" and xs: "contents s i = Some xs"
    and len: "k + unat len < 2 ^ 31" "unat len \<le> length buf"
  shows "\<exists>r s'. vfs_write prog fd buf len s = Inr (r, s') \<and> vfs_ok invar contents s' \<and>
    root_fs s' = root_fs s \<and> names s' = names s \<and>
    (r = int (unat len) \<and> abs_fs contents s' = a_write fd (take (unat len) buf) (abs_fs contents s) \<or>
     r = -1 \<and> \<not> malloc_ok env (n_alloc s) \<and> abs_fs contents s' = abs_fs contents s)"
proof -
  have invar: "invar s" and hok: "handles_ok s" and k: "k \<le> length xs"
    using ok h xs by (auto simp: vfs_ok_def)
  obtain f v node where f: "regular_file fd s = Inr (Some (f, v, i, node))"
    "0 \<le> fd" "fd < int MAX_OPEN_FILES" "open_files s ! nat fd = Some f" "files s f = Some v"
    "f_inode v = Some i" "unat (f_offset v) = k" "i_fs node = Some fs"
    using regular_file_ok [OF ok h xs] by blast
  obtain r s1 where w: "op_write ops i (f_offset v) buf len s = Inr (r, s1)" "invar s1" "same_layer s s1" "names s1 = names s"
    and cases: "r = int (unat len) \<and> contents s1 = (contents s)(i \<mapsto> overwrite xs k (take (unat len) buf)) \<or>
         r = -1 \<and> \<not> malloc_ok env (n_alloc s) \<and> contents s1 = contents s"
    using write_law [OF invar xs, of "f_offset v" len buf] f(7) k len by auto
  have run: "vfs_write prog fd buf len s = rbind (advance f r s1) (\<lambda>s. Inr (r, s))"
    using f(1,8) w(1) fs_ops_of [OF invar] by (simp add: vfs_write_def)
  note h1 = same_layer_handle [OF w(3)] and ok1 = same_layer_ok [OF w(3) hok]
  have s1: "open_files s1 = open_files s" "files s1 = files s" "root_fs s1 = root_fs s"
    using w(3) by (simp_all add: same_layer_def)
  show ?thesis
  proof (cases "r = int (unat len)")
    case False
    then have True: "r = -1" using cases by blast
    have "contents s1 = contents s" "\<not> malloc_ok env (n_alloc s)" using cases False by blast+
    moreover have "vfs_ok invar contents s1" using calculation ok w(2) ok1 h1 by (simp add: vfs_ok_def)
    ultimately show ?thesis using True run h1 s1 w(4)
      by (intro exI [of _ r] exI [of _ s1]) (simp add: advance_def abs_fs_def)
  next
    case True
    then have r: "r = int (unat len)" "contents s1 = (contents s)(i \<mapsto> overwrite xs k (take (unat len) buf))"
      using cases by (metis int_eq_iff of_nat_less_0_iff neg_less_0_iff_less zero_less_one)+
    obtain s2 where s2: "advance f (int (unat len)) s1 = Inr s2" "handles_ok s2"
      "handle s2 = (handle s1)(fd \<mapsto> (i, unat (f_offset v) + unat len))" "\<exists>h. s2 = s1\<lparr>files := h\<rparr>"
      by (rule advance_handle [OF ok1 f(2,3), of f v i "unat len"]) (use f s1 len in auto)
    have inv2: "invar s2" and c2: "contents s2 = contents s1" and r2: "root_fs s2 = root_fs s1"
        and n2: "names s2 = names s1"
      using s2(4) inv_files [OF w(2)] by (auto simp: contents_files names_files)
    have pos: "k' \<le> length ys" if "handle s2 fd' = Some (j, k')" "contents s2 j = Some ys" for fd' j k' ys
    proof -
      have grow: "length xs \<le> length (overwrite xs k (take (unat len) buf))"
        "k + unat len \<le> length (overwrite xs k (take (unat len) buf))"
        using k len(2) by (auto simp: length_overwrite)
      show ?thesis
      proof (cases "fd' = fd")
        case True
        then show ?thesis using that s2(3) f(7) c2 r(2) grow by auto
      next
        case False
        then have "handle s fd' = Some (j, k')" using that(1) s2(3) h1 by simp
        moreover have "j = i \<Longrightarrow> k' \<le> length xs" using calculation ok xs by (auto simp: vfs_ok_def)
        ultimately show ?thesis using that(2) c2 r(2) grow ok
          by (cases "j = i") (auto simp: vfs_ok_def)
      qed
    qed
    have "vfs_ok invar contents s2" using inv2 s2(2) pos by (auto simp: vfs_ok_def)
    moreover have "abs_fs contents s2 = a_write fd (take (unat len) buf) (abs_fs contents s)"
      using h xs c2 r(2) s2(3) h1 f(7) len(2) by (simp add: abs_fs_def a_write_def min_absorb2)
    ultimately show ?thesis using run r(1) s2(1) r2 n2 s1(3) w(4)
      by (intro exI [of _ r] exI [of _ s2]) simp
  qed
qed

text \<open>\<open>vfs_read\<close> gives the bytes from the position on and moves it past them.\<close>

lemma vfs_read_abs:
  assumes ok: "vfs_ok invar contents s" and h: "handle s fd = Some (i, k)" and xs: "contents s i = Some xs"
    and len: "length xs < 2 ^ 31" "k + unat len < 2 ^ 64" "unat len \<le> length buf"
    and bs: "bs = fst (a_read fd (unat len) (abs_fs contents s))"
  shows "\<exists>s'. vfs_read prog fd buf len s = Inr (int (length bs), bs @ drop (length bs) buf, s') \<and> vfs_ok invar contents s' \<and>
    root_fs s' = root_fs s \<and> abs_fs contents s' = snd (a_read fd (unat len) (abs_fs contents s))"
proof -
  have invar: "invar s" and hok: "handles_ok s" and k: "k \<le> length xs"
    using ok h xs by (auto simp: vfs_ok_def)
  have b: "bs = take (unat len) (drop k xs)" using bs h xs by (simp add: a_read_def abs_fs_def Let_def)
  obtain f v node where f: "regular_file fd s = Inr (Some (f, v, i, node))"
    "0 \<le> fd" "fd < int MAX_OPEN_FILES" "open_files s ! nat fd = Some f" "files s f = Some v"
    "f_inode v = Some i" "unat (f_offset v) = k" "i_fs node = Some fs"
    using regular_file_ok [OF ok h xs] by blast
  have "op_read ops i (f_offset v) buf len s = Inr (int (length bs), bs @ drop (length bs) buf, s)"
    by (rule read_law [OF invar xs]) (use f(7) k len b in auto)
  then have run: "vfs_read prog fd buf len s =
      rbind (advance f (int (length bs)) s) (\<lambda>s. Inr (int (length bs), bs @ drop (length bs) buf, s))"
    using f(1,8) fs_ops_of [OF invar] by (simp add: vfs_read_def)
  have small: "k + length bs \<le> length xs" using k b by simp
  obtain s2 where s2: "advance f (int (length bs)) s = Inr s2" "handles_ok s2"
    "handle s2 = (handle s)(fd \<mapsto> (i, unat (f_offset v) + length bs))" "\<exists>h. s2 = s\<lparr>files := h\<rparr>"
    by (rule advance_handle [OF hok f(2,3), of f v i "length bs"]) (use f len small in auto)
  have inv2: "invar s2" and c2: "contents s2 = contents s" and r2: "root_fs s2 = root_fs s"
    using s2(4) inv_files [OF invar] by (auto simp: contents_files)
  have "vfs_ok invar contents s2"
    using ok inv2 s2(2,3) c2 small f(7) xs by (auto simp: vfs_ok_def split: if_splits)
  moreover have "abs_fs contents s2 = snd (a_read fd (unat len) (abs_fs contents s))"
    using h xs c2 s2(3) f(7) b by (simp add: abs_fs_def a_read_def Let_def)
  ultimately show ?thesis using run s2(1) r2 by simp
qed

text \<open>The inode a list of tokens leads to: the root directory without a token, else what the first one
  names. A regular file ends the walk, so the tokens after it have no effect.\<close>

lemma lookup_walk_none: "lookup_walk prog ts None s = Inr (None, s)"
  by (cases ts) simp_all

lemma vfs_lookup_tokens:
  assumes iv: "invar s" and fs: "root_fs s = Some fs" and path: "terminated path" and ts: "\<forall>t \<in> set toks. terminated t"
    and i: "token_target root (names s) toks = io"
      "\<forall>j. io = Some j \<longrightarrow> length toks \<le> 1 \<or> contents s j \<noteq> None"
  shows "vfs_lookup prog toks (Some (of_char CHR ''/'' # path)) s = Inr (io, s)" "io = Some i \<Longrightarrow> i \<in> dom (inodes s)"
proof -
  obtain v t where v: "filesystems s fs = Some v" "fs_root v = Some root" "fs_ops v = Some t" "prog t = ops"
    using mounted [OF iv] by blast
  obtain d where d: "inodes s root = Some d" "i_mode d AND VFS_MODE_DIR \<noteq> 0" "i_fs d = Some fs"
    using directory [OF iv] by blast
  obtain r where r: "strncpy_bytes (of_char CHR ''/'' # path) MAX_PATH_LEN = Inr r"
    using strncpy_bytes_returns [of "of_char CHR ''/'' # path" MAX_PATH_LEN] path by auto
  have "lookup_walk prog toks (Some root) s = Inr (io, s)"
  proof (cases toks)
    case Nil
    then show ?thesis using i(1) by (simp add: token_target_def)
  next
    case (Cons u us)
    then have n: "names s (c_text u) = io" "terminated u" using i(1) ts by (simp_all add: token_target_def)
    have "lookup_walk prog us io s = Inr (io, s)"
    proof (cases io)
      case None
      then show ?thesis by (simp add: lookup_walk_none)
    next
      case (Some j)
      then consider "us = []" | w where "inodes s j = Some w" "i_mode w AND VFS_MODE_DIR = 0"
        using i(2) Cons regular [OF iv, of j] by (cases "us = []") auto
      then show ?thesis
      proof cases
        case 2
        then show ?thesis using Some by (cases us) (simp_all add: deref_def)
      qed simp
    qed
    then show ?thesis using Cons d v(1,3,4) lookup_law [OF iv n(2)] n(1) by (simp add: deref_def ops_of_def)
  qed
  with v r fs show "vfs_lookup prog toks (Some (of_char CHR ''/'' # path)) s = Inr (io, s)"
    by (simp add: vfs_lookup_def deref_def del: lookup_walk.simps)
  show "io = Some i \<Longrightarrow> i \<in> dom (inodes s)"
    using i(1) names_inode [OF iv] d(1) by (cases toks) (auto simp: token_target_def)
qed

text \<open>\<open>vfs_open\<close> of what the tokens lead to takes the lowest free descriptor.\<close>

lemma vfs_open_abs:
  assumes ok: "vfs_ok invar contents s" and fs: "root_fs s = Some fs" and path: "terminated path"
    and ts: "\<forall>t \<in> set toks. terminated t" and i: "token_target root (names s) toks = Some i"
    and reg: "length toks \<le> 1 \<or> contents s i \<noteq> None"
  shows "\<exists>r s'. vfs_open env prog toks (Some (of_char CHR ''/'' # path)) s = Inr (r, s') \<and>
    vfs_ok invar contents s' \<and> root_fs s' = root_fs s \<and> names s' = names s \<and>
    ((\<exists>k < MAX_OPEN_FILES. r = int k \<and> handle s r = None \<and> (\<forall>j < k. handle s (int j) \<noteq> None) \<and>
        abs_fs contents s' = a_open r i (abs_fs contents s)) \<or>
     r = -1 \<and> (\<not> malloc_ok env (n_alloc s) \<or> (\<forall>j < MAX_OPEN_FILES. handle s (int j) \<noteq> None)) \<and>
        abs_fs contents s' = abs_fs contents s)"
proof -
  have iv: "invar s" and hok: "handles_ok s" using ok by (auto simp: vfs_ok_def)
  have l: "vfs_lookup prog toks (Some (of_char CHR ''/'' # path)) s = Inr (Some i, s)" and dom: "i \<in> dom (inodes s)"
    by (rule vfs_lookup_tokens [OF iv fs path ts i], use reg in simp_all)+
  let ?s1 = "s\<lparr>n_alloc := n_alloc s + 1\<rparr>"
  let ?v = "\<lparr>f_inode = Some i, f_offset = 0, f_flags = 0\<rparr>"
  let ?s2 = "?s1\<lparr>files := (files s)(Heap (n_alloc s) \<mapsto> ?v)\<rparr>"
  show ?thesis
  proof (cases "malloc_ok env (n_alloc s)")
    case False
    then have "vfs_open env prog toks (Some (of_char CHR ''/'' # path)) s = Inr (-1, ?s1)"
      using l by (simp add: vfs_open_def malloc_def)
    moreover have "handles_ok ?s1" "handle ?s1 = handle s"
      using same_layer_ok [of s ?s1] same_layer_handle [of s ?s1] hok by (simp_all add: same_layer_def)
    ultimately show ?thesis using False ok inv_alloc [OF iv]
      by (intro exI [of _ "-1"] exI [of _ ?s1]) (simp add: vfs_ok_def abs_fs_def contents_alloc names_alloc)
  next
    case True
    then have run: "vfs_open env prog toks (Some (of_char CHR ''/'' # path)) s = install_loop (Some (Heap (n_alloc s))) 0 ?s2"
      using l by (simp add: vfs_open_def malloc_def vfs_install_fd_def)
    have len: "length (open_files ?s2) = MAX_OPEN_FILES" using hok by (simp add: handles_ok_def)
    have free: "handle s (int k) = None \<longleftrightarrow> open_files s ! k = None" if "k < MAX_OPEN_FILES" for k
      by (rule handle_None_iff [OF hok that])
    have iv2: "invar ?s2" using inv_files [OF inv_alloc [OF iv]] by simp
    have c2: "contents ?s2 = contents s" "names ?s2 = names s"
      by (simp_all add: contents_files contents_alloc names_files names_alloc)
    from install_loop_lowest [OF len le0, of "Some (Heap (n_alloc s))"] show ?thesis
    proof (elim disjE exE conjE)
      fix k
      assume k: "k < MAX_OPEN_FILES" "open_files ?s2 ! k = None" "\<forall>j. 0 \<le> j \<longrightarrow> j < k \<longrightarrow> open_files ?s2 ! j \<noteq> None"
        "install_loop (Some (Heap (n_alloc s))) 0 ?s2 =
           Inr (int k, ?s2\<lparr>open_files := (open_files ?s2)[k := Some (Heap (n_alloc s))]\<rparr>)"
      let ?s3 = "?s2\<lparr>open_files := (open_files ?s2)[k := Some (Heap (n_alloc s))]\<rparr>"
      have s3: "?s3 = with_file k (Heap (n_alloc s)) i ?s1" by (simp add: with_file_def)
      have open_k: "open_files s ! k = None" using k(2) by simp
      have h3: "handles_ok ?s3" "handle ?s3 = (handle s)(int k \<mapsto> (i, 0))"
        unfolding s3 by (rule with_file_ok [OF hok k(1) open_k dom])+
      have c3: "contents ?s3 = contents s" "names ?s3 = names s" "invar ?s3"
        using c2 iv2 by (simp_all only: contents_open_files names_open_files inv_open_files)
      have "vfs_ok invar contents ?s3"
        using ok h3 c3 by (auto simp: vfs_ok_def split: if_splits)
      moreover have "abs_fs contents ?s3 = a_open (int k) i (abs_fs contents s)"
        using h3(2) c3(1) by (simp add: abs_fs_def a_open_def)
      moreover have "\<forall>j < k. handle s (int j) \<noteq> None"
        using k(1,3) free by simp
      ultimately show ?thesis using run k(1,4) c3(2) free [OF k(1)] open_k
        by (intro exI [of _ "int k"] exI [of _ ?s3]) auto
    next
      assume full: "\<forall>j. 0 \<le> j \<longrightarrow> j < MAX_OPEN_FILES \<longrightarrow> open_files ?s2 ! j \<noteq> None"
        "install_loop (Some (Heap (n_alloc s))) 0 ?s2 = Inr (-1, ?s2)"
      have h2: "handles_ok ?s2" "handle ?s2 = handle s" by (rule lost_file_ok [OF hok])+
      have "vfs_ok invar contents ?s2" using ok h2 c2 iv2 by (simp add: vfs_ok_def)
      then show ?thesis using run full free h2(2) c2
        by (intro exI [of _ "-1"] exI [of _ ?s2]) (simp add: abs_fs_def)
    qed
  qed
qed

text \<open>\<open>vfs_create\<close> adds an empty file under a new name.\<close>

lemma vfs_create_abs:
  assumes ok: "vfs_ok invar contents s" and fs: "root_fs s = Some fs" and name: "name_ok name"
  shows "\<exists>r s'. vfs_create prog (Some (c # name)) mode s = Inr (r, s') \<and>
    vfs_ok invar contents s' \<and> root_fs s' = root_fs s \<and> handle s' = handle s \<and>
    (r = 0 \<and> Heap (n_alloc s) \<notin> dom (inodes s) \<and>
     contents s' = (if mode = VFS_MODE_FILE then (contents s)(Heap (n_alloc s) \<mapsto> []) else contents s) \<and>
     names s' = (if names s (c_text name) = None then (names s)(c_text name \<mapsto> Heap (n_alloc s)) else names s) \<or>
     r = -1 \<and> (\<not> malloc_ok env (n_alloc s) \<or> full s) \<and> contents s' = contents s \<and> names s' = names s)"
proof -
  have iv: "invar s" and hok: "handles_ok s" using ok by (auto simp: vfs_ok_def)
  obtain v t where v: "filesystems s fs = Some v" "fs_root v = Some root" "fs_ops v = Some t" "prog t = ops"
    using mounted [OF iv] by blast
  have run: "vfs_create prog (Some (c # name)) mode s = op_create ops (Some root) name mode s"
    using v fs by (simp add: vfs_create_def deref_def ops_of_def)
  obtain r s' where c: "op_create ops (Some root) name mode s = Inr (r, s')" "invar s'" "same_layer s s'"
    and cases: "r = 0 \<and> Heap (n_alloc s) \<notin> dom (inodes s) \<and>
         contents s' = (if mode = VFS_MODE_FILE then (contents s)(Heap (n_alloc s) \<mapsto> []) else contents s) \<and>
         names s' = (if names s (c_text name) = None then (names s)(c_text name \<mapsto> Heap (n_alloc s)) else names s) \<or>
         r = -1 \<and> (\<not> malloc_ok env (n_alloc s) \<or> full s) \<and> contents s' = contents s \<and> names s' = names s"
    using create_law [OF iv name, of mode] by blast
  note h = same_layer_handle [OF c(3)] and hok' = same_layer_ok [OF c(3) hok]
  have "vfs_ok invar contents s'"
    using ok c(2) hok' h cases handle_inode [OF hok] by (fastforce simp: vfs_ok_def split: if_splits)
  then show ?thesis using run c cases h by (intro exI [of _ r] exI [of _ s']) (simp add: same_layer_def)
qed

end

end
