(* ===== verification/Ramfs_Inv.thy ===== *)
theory Ramfs_Inv
  imports Ramfs Vfs_Layer
begin

text \<open>
  The invariant of \<^verbatim>\<open>ramfs.c\<close> (table entries and inodes point at each other, sizes are the
  lengths of the blocks, used entries come first), the contents and names it represents, and the
  proof that its operation table keeps the contract of a mounted file system.
\<close>

section \<open>Representation\<close>

definition ramfs_contents :: "'z ramfs_scheme \<Rightarrow> ref \<Rightarrow> byte list option" where
  "ramfs_contents s r =
     (case inodes s r of
        None \<Rightarrow> None
      | Some v \<Rightarrow> (case internal v of
          None \<Rightarrow> None
        | Some i \<Rightarrow> if rf_mode (file_table s ! i) = VFS_MODE_FILE then Some (block (file_table s ! i)) else None))"

definition has_name :: "byte list \<Rightarrow> ramfs_file \<Rightarrow> bool" where
  "has_name nm f \<longleftrightarrow> rf_inode f \<noteq> None \<and> c_text (rf_name f) = nm"

definition ramfs_names :: "'e ramfs_env_scheme \<Rightarrow> 'z ramfs_scheme \<Rightarrow> byte list \<Rightarrow> ref option" where
  "ramfs_names env s nm =
     (case find (\<lambda>i. has_name nm (file_table s ! i)) [0..<RAMFS_MAX_FILES env] of
        None \<Rightarrow> None
      | Some i \<Rightarrow> rf_inode (file_table s ! i))"

definition entry_ok :: "'z ramfs_scheme \<Rightarrow> nat \<Rightarrow> ramfs_file \<Rightarrow> bool" where
  "entry_ok s k f \<longleftrightarrow>
     length (rf_name f) = MAX_NAME_LEN \<and> unat (rf_size f) = length (block f) \<and>
     (\<forall>r. rf_inode f = Some r \<longrightarrow> terminated (rf_name f) \<and>
        (\<exists>v. inodes s r = Some v \<and> internal v = Some k \<and> i_size v = rf_size f))"

text \<open>The constants that the source leaves open must fit the arrays.\<close>

definition ramfs_config_ok :: "'e ramfs_env_scheme \<Rightarrow> bool" where
  "ramfs_config_ok env \<longleftrightarrow> RAMFS_MAX_FILES env \<le> MAX_OPEN_FILES \<and> RAMFS_NAME_LEN env \<le> MAX_NAME_LEN"

definition ramfs_objects_ok :: "'z ramfs_scheme \<Rightarrow> bool" where
  "ramfs_objects_ok s \<longleftrightarrow>
     (\<exists>v. filesystems s ramfs_fs = Some v \<and> fs_root v = Some root_inode \<and> fs_ops v = Some ramfs_ops_table) \<and>
     (\<exists>v. inodes s root_inode = Some v \<and> i_mode v = VFS_MODE_DIR \<and> i_fs v = Some ramfs_fs \<and> internal v = None)"

definition ramfs_inv :: "'e ramfs_env_scheme \<Rightarrow> 'z ramfs_scheme \<Rightarrow> bool" where
  "ramfs_inv env s \<longleftrightarrow>
     ramfs_config_ok env \<and> ramfs_objects_ok s \<and> length (file_table s) = MAX_OPEN_FILES \<and>
     (\<forall>k < MAX_OPEN_FILES. entry_ok s k (file_table s ! k)) \<and>
     (\<forall>k l. k < l \<longrightarrow> l < MAX_OPEN_FILES \<longrightarrow>
        rf_inode (file_table s ! l) \<noteq> None \<longrightarrow> rf_inode (file_table s ! k) \<noteq> None) \<and>
     (\<forall>r v. inodes s r = Some v \<longrightarrow> r = root_inode \<or> (\<exists>n < n_alloc s. r = Heap n)) \<and>
     (\<forall>r v i. inodes s r = Some v \<longrightarrow> internal v = Some i \<longrightarrow>
        i < MAX_OPEN_FILES \<and> rf_inode (file_table s ! i) = Some r \<and>
        i_mode v = rf_mode (file_table s ! i) \<and> i_fs v = Some ramfs_fs)"

lemma ramfs_inv_layer:
  assumes "ramfs_inv env s" and "inodes s' = inodes s" "filesystems s' = filesystems s"
    "file_table s' = file_table s" "n_alloc s \<le> n_alloc s'"
  shows "ramfs_inv env s'"
proof -
  have e: "entry_ok s' = entry_ok s" "ramfs_objects_ok s' = ramfs_objects_ok s"
    using assms(2,3) by (simp_all add: fun_eq_iff entry_ok_def ramfs_objects_ok_def)
  have "\<exists>n < n_alloc s'. r = Heap n" if "\<exists>n < n_alloc s. r = Heap n" for r
    using that assms(5) by auto
  then show ?thesis using assms(1) unfolding ramfs_inv_def e assms(2,4) by blast
qed

lemma ramfs_names_cong: "file_table s' = file_table s \<Longrightarrow> ramfs_names env s' = ramfs_names env s"
  by (rule ext) (simp add: ramfs_names_def split: option.splits)

lemma ramfs_contents_cong:
  "file_table s' = file_table s \<Longrightarrow> inodes s' = inodes s \<Longrightarrow> ramfs_contents s' = ramfs_contents s"
  by (rule ext) (simp add: ramfs_contents_def split: option.splits)

lemma regular_entry:
  assumes "ramfs_inv env s" and "ramfs_contents s r = Some xs"
  obtains v i where "inodes s r = Some v" "internal v = Some i" "i < MAX_OPEN_FILES"
    "rf_mode (file_table s ! i) = VFS_MODE_FILE" "xs = block (file_table s ! i)"
    "rf_inode (file_table s ! i) = Some r" "i_mode v = VFS_MODE_FILE" "i_fs v = Some ramfs_fs"
    "ramfs_entry r s = Inr (Some i)" "entry_ok s i (file_table s ! i)" "i_size v = rf_size (file_table s ! i)"
proof -
  obtain v i where v: "inodes s r = Some v" "internal v = Some i"
    "rf_mode (file_table s ! i) = VFS_MODE_FILE" "xs = block (file_table s ! i)"
    using assms(2) by (auto simp: ramfs_contents_def split: option.splits if_splits)
  have i: "i < MAX_OPEN_FILES" "rf_inode (file_table s ! i) = Some r"
    "i_mode v = rf_mode (file_table s ! i)" "i_fs v = Some ramfs_fs" "length (file_table s) = MAX_OPEN_FILES"
    using assms(1) v(1,2) unfolding ramfs_inv_def by blast+
  have e: "entry_ok s i (file_table s ! i)" using assms(1) i(1) by (simp add: ramfs_inv_def)
  then have "i_size v = rf_size (file_table s ! i)" using i(2) v(1) by (simp add: entry_ok_def)
  moreover have "ramfs_entry r s = Inr (Some i)"
    using v i by (simp add: ramfs_entry_def deref_def)
  ultimately show ?thesis using that v i e by simp
qed

section \<open>Lookup\<close>

lemma find_loop_find:
  assumes iv: "ramfs_inv env s" and name: "terminated name" and "k \<le> RAMFS_MAX_FILES env"
  shows "find_loop env name k s =
    Inr (find (\<lambda>i. has_name (c_text name) (file_table s ! i)) [k..<RAMFS_MAX_FILES env])"
  using assms(3)
proof (induction "RAMFS_MAX_FILES env - k" arbitrary: k)
  case 0
  then show ?case by (subst find_loop.simps) simp
next
  case (Suc d)
  then have k: "k < RAMFS_MAX_FILES env" by simp
  then have k': "k < MAX_OPEN_FILES" "length (file_table s) = MAX_OPEN_FILES"
    using iv by (auto simp: ramfs_inv_def ramfs_config_ok_def)
  have IH: "find_loop env name (k + 1) s =
      Inr (find (\<lambda>i. has_name (c_text name) (file_table s ! i)) [k + 1..<RAMFS_MAX_FILES env])"
    using Suc.hyps(1) [of "k + 1"] Suc.hyps(2) k by simp
  have upt: "[k..<RAMFS_MAX_FILES env] = k # [k + 1..<RAMFS_MAX_FILES env]"
    using k by (simp add: upt_rec)
  show ?case
  proof (cases "rf_inode (file_table s ! k)")
    case None
    then show ?thesis
      using k k' IH unfolding upt by (subst find_loop.simps) (simp add: has_name_def)
  next
    case (Some r)
    then have "terminated (rf_name (file_table s ! k))"
      using iv k' by (auto simp: ramfs_inv_def entry_ok_def)
    then obtain c where c: "strcmp (rf_name (file_table s ! k)) name = Inr c"
      "c = 0 \<longleftrightarrow> c_text (rf_name (file_table s ! k)) = c_text name"
      using strcmp_terminated name by blast
    show ?thesis
      using k k' IH Some c unfolding upt by (subst find_loop.simps) (simp add: has_name_def)
  qed
qed

lemma ramfs_lookup_names:
  assumes "ramfs_inv env s" and "terminated name"
  shows "ramfs_lookup env dir name s = Inr (ramfs_names env s (c_text name), s)"
  using find_loop_find [OF assms le0]
  by (simp add: ramfs_lookup_def ramfs_find_def ramfs_names_def split: option.splits)

lemma ramfs_names_inode:
  assumes "ramfs_inv env s" and "ramfs_names env s nm = Some r"
  shows "r \<in> dom (inodes s)"
proof -
  obtain i where i: "find (\<lambda>i. has_name nm (file_table s ! i)) [0..<RAMFS_MAX_FILES env] = Some i"
    "rf_inode (file_table s ! i) = Some r"
    using assms(2) by (auto simp: ramfs_names_def split: option.splits)
  then have "i < RAMFS_MAX_FILES env" by (auto simp: find_Some_iff)
  then have "entry_ok s i (file_table s ! i)"
    using assms(1) by (simp add: ramfs_inv_def ramfs_config_ok_def)
  with i(2) show ?thesis by (auto simp: entry_ok_def)
qed

section \<open>Reading and writing\<close>

lemma ramfs_read_law:
  assumes iv: "ramfs_inv env s" and xs: "ramfs_contents s r = Some xs" and off: "unat off \<le> length xs"
    and small: "length xs < 2 ^ 31" "unat off + unat len < 2 ^ 64" and buf: "unat len \<le> length buf"
    and bs: "bs = take (unat len) (drop (unat off) xs)"
  shows "ramfs_read r off buf len s = Inr (int (length bs), bs @ drop (length bs) buf, s)"
proof -
  obtain i where i: "ramfs_entry r s = Inr (Some i)" "xs = block (file_table s ! i)"
    "entry_ok s i (file_table s ! i)"
    using regular_entry [OF iv xs] by metis
  let ?f = "file_table s ! i"
  have size: "unat (rf_size ?f) = length xs" using i by (simp add: entry_ok_def)
  show ?thesis
  proof (cases "rf_size ?f \<le> off")
    case True
    then have "unat off = length xs" using size off by (simp add: word_le_nat_alt)
    then show ?thesis using True i bs by (simp add: ramfs_read_def)
  next
    case False
    then have lt: "off < rf_size ?f" by simp
    define n where "n = (if rf_size ?f < off + len then rf_size ?f - off else len)"
    have sum: "unat (off + len) = unat off + unat len" by (rule unat_add64 [OF small(2)])
    have "unat (rf_size ?f - off) = length xs - unat off"
      using lt size by (simp add: unat_sub64)
    then have n: "unat n = min (unat len) (length xs - unat off)"
      using sum size off by (auto simp: n_def word_less_nat_alt)
    then have len_bs: "length bs = unat n" "bs = take (unat n) (drop (unat off) xs)"
      using bs by (auto simp: min_def)
    have "unat n < 2 ^ 31" using n small(1) by linarith
    then have "c_int n = int (length bs)" using len_bs(1) c_int_small by simp
    moreover have "\<not> (length (block ?f) < unat off + unat n \<or> length buf < unat n)"
      using n i(2) off buf by auto
    ultimately show ?thesis using i False len_bs n_def by (simp add: ramfs_read_def Let_def)
  qed
qed

text \<open>The state after the block of a file has been replaced.\<close>

definition set_block :: "nat \<Rightarrow> ref \<Rightarrow> inode \<Rightarrow> byte list \<Rightarrow> 'z ramfs_scheme \<Rightarrow> 'z ramfs_scheme" where
  "set_block i r v bs s =
     s\<lparr>file_table := (file_table s)[i := (file_table s ! i)\<lparr>rf_size := of_nat (length bs), rf_data := Some bs\<rparr>],
       inodes := (inodes s)(r \<mapsto> v\<lparr>i_size := of_nat (length bs)\<rparr>)\<rparr>"

lemma set_block_ok:
  assumes iv: "ramfs_inv env s" and v: "inodes s r = Some v" "internal v = Some i"
    and bs: "length bs < 2 ^ 64"
  shows "ramfs_inv env (set_block i r v bs s)" and "same_layer s (set_block i r v bs s)"
    and "ramfs_names env (set_block i r v bs s) = ramfs_names env s"
    and "rf_mode (file_table s ! i) = VFS_MODE_FILE \<Longrightarrow>
      ramfs_contents (set_block i r v bs s) = (ramfs_contents s)(r \<mapsto> bs)"
proof -
  let ?s = "set_block i r v bs s"
  have len: "length (file_table s) = MAX_OPEN_FILES" using iv by (simp add: ramfs_inv_def)
  have points: "j < MAX_OPEN_FILES \<and> rf_inode (file_table s ! j) = Some q \<and>
        i_mode w = rf_mode (file_table s ! j) \<and> i_fs w = Some ramfs_fs"
    if "inodes s q = Some w" "internal w = Some j" for q w j
    using iv that unfolding ramfs_inv_def by blast
  have i: "i < MAX_OPEN_FILES" "rf_inode (file_table s ! i) = Some r" using points [OF v] by blast+
  have nth: "file_table ?s ! k = (if k = i then (file_table s ! i)\<lparr>rf_size := of_nat (length bs), rf_data := Some bs\<rparr>
      else file_table s ! k)" for k
    using i(1) len by (simp add: set_block_def nth_list_update)
  have node: "inodes ?s q = (if q = r then Some (v\<lparr>i_size := of_nat (length bs)\<rparr>) else inodes s q)" for q
    by (simp add: set_block_def)
  have same: "rf_inode (file_table ?s ! k) = rf_inode (file_table s ! k)"
    "rf_name (file_table ?s ! k) = rf_name (file_table s ! k)"
    "rf_mode (file_table ?s ! k) = rf_mode (file_table s ! k)" for k
    by (simp_all add: nth)
  have entry: "entry_ok ?s k (file_table ?s ! k)" if k: "k < MAX_OPEN_FILES" for k
  proof (cases "k = i")
    case True
    then show ?thesis
      using iv k i v bs by (simp add: nth ramfs_inv_def entry_ok_def node block_def unat_of_nat64)
  next
    case False
    then have "rf_inode (file_table s ! k) \<noteq> Some r"
      using iv k v unfolding ramfs_inv_def entry_ok_def by fastforce
    moreover have "entry_ok s k (file_table s ! k)" using iv k by (simp add: ramfs_inv_def)
    ultimately show ?thesis using False by (auto simp: nth entry_ok_def node)
  qed
  have objects: "ramfs_objects_ok ?s"
  proof -
    have "r \<noteq> root_inode" using iv v by (auto simp: ramfs_inv_def ramfs_objects_ok_def)
    then show ?thesis using iv by (simp add: ramfs_inv_def ramfs_objects_ok_def set_block_def)
  qed
  have heap: "q = root_inode \<or> (\<exists>n < n_alloc ?s. q = Heap n)" if "inodes ?s q = Some w" for q w
  proof -
    have "\<exists>w. inodes s q = Some w" using that v(1) by (auto simp: node split: if_splits)
    then show ?thesis using iv by (auto simp: ramfs_inv_def set_block_def)
  qed
  have points': "j < MAX_OPEN_FILES \<and> rf_inode (file_table ?s ! j) = Some q \<and>
        i_mode w = rf_mode (file_table ?s ! j) \<and> i_fs w = Some ramfs_fs"
    if "inodes ?s q = Some w" "internal w = Some j" for q w j
    using that points [of q _ j] v by (auto simp: same node split: if_splits)
  show "ramfs_inv env ?s"
    using iv objects entry heap points' len unfolding ramfs_inv_def same by (auto simp: set_block_def)
  show "same_layer s ?s" using v(1) by (auto simp: same_layer_def set_block_def)
  show "ramfs_names env ?s = ramfs_names env s"
    by (simp add: fun_eq_iff ramfs_names_def has_name_def same split: option.splits)
  assume mode: "rf_mode (file_table s ! i) = VFS_MODE_FILE"
  show "ramfs_contents ?s = (ramfs_contents s)(r \<mapsto> bs)"
  proof
    fix q
    show "ramfs_contents ?s q = ((ramfs_contents s)(r \<mapsto> bs)) q"
    proof (cases "q = r")
      case True
      then show ?thesis using v mode by (simp add: ramfs_contents_def node nth block_def)
    next
      case False
      have "j \<noteq> i" if "inodes s q = Some w" "internal w = Some j" for w j
        using points [OF that] i(2) False by auto
      with False show ?thesis by (auto simp: ramfs_contents_def node nth split: option.splits)
    qed
  qed
qed

lemma store_data_block:
  assumes "k + unat len \<le> length (block (file_table s ! i))" and "unat len \<le> length buf" and "unat off = k"
    and "rf_data (file_table s ! i) = Some d" and "i < length (file_table s)"
  shows "store_data i off buf len s =
    Inr (s\<lparr>file_table := (file_table s)[i := (file_table s ! i)\<lparr>rf_data := Some (overwrite d k (take (unat len) buf))\<rparr>]\<rparr>)"
proof -
  have d: "block (file_table s ! i) = d" using assms(4) by (simp add: block_def)
  show ?thesis
  proof (cases "unat len = 0")
    case True
    have "(file_table s ! i)\<lparr>rf_data := Some d\<rparr> = file_table s ! i" using assms(4) by simp
    then show ?thesis
      using True by (simp add: store_data_def overwrite_def Let_def list_update_id)
  next
    case False
    then show ?thesis using assms d by (simp add: store_data_def Let_def overwrite_def min_absorb2)
  qed
qed

text \<open>A write that ends inside the file overwrites the block.\<close>

lemma write_in_place:
  assumes iv: "ramfs_inv env s" and v: "inodes s r = Some v" "internal v = Some i"
    and f: "i < MAX_OPEN_FILES" "rf_mode (file_table s ! i) = VFS_MODE_FILE" "block (file_table s ! i) = xs"
      "ramfs_entry r s = Inr (Some i)" "i_size v = rf_size (file_table s ! i)" "rf_size (file_table s ! i) = of_nat (length xs)"
    and fits: "unat off + unat len \<le> length xs" "\<not> rf_size (file_table s ! i) < off + len"
    and buf: "unat len \<le> length buf" "unat len < 2 ^ 31" "unat len \<noteq> 0"
  shows "ramfs_write env r off buf len s =
    Inr (int (unat len), set_block i r v (overwrite xs (unat off) (take (unat len) buf)) s)"
proof -
  let ?f = "file_table s ! i" and ?new = "overwrite xs (unat off) (take (unat len) buf)"
  have len: "length (file_table s) = MAX_OPEN_FILES" using iv by (simp add: ramfs_inv_def)
  obtain d where d: "rf_data ?f = Some d" "d = xs"
    using fits buf(3) f(3) by (cases "rf_data ?f") (auto simp: block_def)
  have "length ?new = length xs"
    using length_overwrite [of "unat off" xs "take (unat len) buf"] fits(1) buf(1) by simp
  moreover have "?f\<lparr>rf_size := of_nat (length xs), rf_data := Some ?new\<rparr> = ?f\<lparr>rf_data := Some ?new\<rparr>"
    by (rule ramfs_file.equality) (simp_all add: f(6))
  moreover have "(inodes s)(r \<mapsto> v\<lparr>i_size := of_nat (length xs)\<rparr>) = inodes s"
    using v(1) f(5,6) by (simp add: fun_upd_idem)
  ultimately have sb: "set_block i r v ?new s = s\<lparr>file_table := (file_table s)[i := ?f\<lparr>rf_data := Some ?new\<rparr>]\<rparr>"
    unfolding set_block_def by simp
  show ?thesis
    unfolding sb using f(1-4) fits len buf(1) d c_int_small [of len] buf(2)
    by (simp add: ramfs_write_def Let_def store_data_block [where k = "unat off" and d = d])
qed

text \<open>A write past the end first asks for a longer block: with the block, the entry and the inode take the
  new size; without it nothing changes.\<close>

lemma write_grow:
  assumes iv: "ramfs_inv env s" and v: "inodes s r = Some v" "internal v = Some i"
    and f: "i < MAX_OPEN_FILES" "rf_mode (file_table s ! i) = VFS_MODE_FILE" "block (file_table s ! i) = xs"
      "ramfs_entry r s = Inr (Some i)"
    and off: "unat off \<le> length xs" and long: "length xs < unat off + unat len" "rf_size (file_table s ! i) < off + len"
    and small: "unat off + unat len < 2 ^ 31" and buf: "unat len \<le> length buf"
  shows "ramfs_write env r off buf len s = (if malloc_ok env (n_alloc s)
    then Inr (int (unat len), set_block i r v (overwrite xs (unat off) (take (unat len) buf)) (s\<lparr>n_alloc := n_alloc s + 1\<rparr>))
    else Inr (-1, s\<lparr>n_alloc := n_alloc s + 1\<rparr>))"
proof -
  let ?f = "file_table s ! i" and ?w = "take (unat len) buf" and ?s1 = "s\<lparr>n_alloc := n_alloc s + 1\<rparr>"
  let ?new = "overwrite xs (unat off) ?w"
  let ?d = "xs @ map (fresh_bytes env (n_alloc s)) [length xs..<unat off + unat len]"
  let ?s2 = "?s1\<lparr>file_table := (file_table s)[i := ?f\<lparr>rf_data := Some ?d, rf_size := off + len\<rparr>],
                inodes := (inodes s)(r \<mapsto> v\<lparr>i_size := off + len\<rparr>)\<rparr>"
  have len: "length (file_table s) = MAX_OPEN_FILES" using iv by (simp add: ramfs_inv_def)
  have sum: "unat (off + len) = unat off + unat len" by (rule unat_add64) (use small in simp)
  have ret: "c_int len = int (unat len)" by (rule c_int_small) (use small in simp)
  have nw: "overwrite ?d (unat off) ?w = ?new" using off long(1) buf by (simp add: overwrite_def min_absorb2)
  have size: "off + len = of_nat (length ?new)"
    using length_overwrite [OF off, of ?w] buf long(1) sum small by (simp add: word_unat_eq_iff unat_of_nat64)
  have sb: "set_block i r v ?new ?s1 =
      ?s2\<lparr>file_table := (file_table ?s2)[i := (file_table ?s2 ! i)\<lparr>rf_data := Some ?new\<rparr>]\<rparr>"
    using f(1) len unfolding size by (intro ramfs.equality) (simp_all add: set_block_def)
  have "store_data i off buf len ?s2 = Inr (set_block i r v ?new ?s1)"
    unfolding sb
    using f(1) len buf long(1) store_data_block [of "unat off" len ?s2 i buf off ?d] nw by (simp add: block_def)
  then show ?thesis
    using f(2-4) v(1) long ret sum by (simp add: ramfs_write_def Let_def realloc_def deref_def)
qed

lemma ramfs_write_law:
  assumes iv: "ramfs_inv env s" and xs: "ramfs_contents s r = Some xs" and off: "unat off \<le> length xs"
    and small: "unat off + unat len < 2 ^ 31" and buf: "unat len \<le> length buf"
  shows "\<exists>n s'. ramfs_write env r off buf len s = Inr (n, s') \<and> ramfs_inv env s' \<and> same_layer s s' \<and>
    ramfs_names env s' = ramfs_names env s \<and>
    (n = int (unat len) \<and> ramfs_contents s' = (ramfs_contents s)(r \<mapsto> overwrite xs (unat off) (take (unat len) buf)) \<or>
     n = -1 \<and> \<not> malloc_ok env (n_alloc s) \<and> ramfs_contents s' = ramfs_contents s)"
proof -
  obtain v i where v: "inodes s r = Some v" "internal v = Some i" and i: "i < MAX_OPEN_FILES"
    "rf_mode (file_table s ! i) = VFS_MODE_FILE" "xs = block (file_table s ! i)"
    "ramfs_entry r s = Inr (Some i)" "entry_ok s i (file_table s ! i)" "i_size v = rf_size (file_table s ! i)"
    using regular_entry [OF iv xs] by metis
  let ?f = "file_table s ! i" and ?w = "take (unat len) buf" and ?s1 = "s\<lparr>n_alloc := n_alloc s + 1\<rparr>"
  let ?new = "overwrite xs (unat off) ?w"
  have size: "unat (rf_size ?f) = length xs" "rf_size ?f = of_nat (length xs)"
    using i(3,5) by (auto simp: entry_ok_def word_unat_eq_iff unat_of_nat64 unat_lt64 dest: sym)
  have sum: "unat (off + len) = unat off + unat len" by (rule unat_add64) (use small in simp)
  have new64: "length ?new < 2 ^ 64"
    using length_overwrite [OF off, of ?w] buf small size(1) unat_lt64 [of "rf_size ?f"] by simp
  show ?thesis
  proof (cases "rf_size ?f < off + len")
    case False
    then have fits: "unat off + unat len \<le> length xs" using sum size(1) by (simp add: word_less_nat_alt)
    show ?thesis
    proof (cases "unat len = 0")
      case True
      then have "ramfs_write env r off buf len s = Inr (int (unat len), s)"
        using i(4) False c_int_small [of len] by (simp add: ramfs_write_def Let_def store_data_def)
      then show ?thesis using True iv xs
        by (intro exI [of _ "int (unat len)"] exI [of _ s]) (simp add: overwrite_def fun_upd_idem)
    next
      case nz: False
      have "ramfs_write env r off buf len s = Inr (int (unat len), set_block i r v ?new s)"
        by (rule write_in_place [OF iv v i(1,2) i(3) [symmetric] i(4,6) size(2) fits False buf _ nz]) (use small in simp)
      then show ?thesis using set_block_ok [OF iv v new64] i(2) by blast
    qed
  next
    case grow: True
    then have long: "length xs < unat off + unat len" using sum size(1) by (simp add: word_less_nat_alt)
    note run = write_grow [OF iv v i(1,2) i(3) [symmetric] i(4) off long grow small buf]
    have iv1: "ramfs_inv env ?s1" by (rule ramfs_inv_layer [OF iv]) simp_all
    have same: "same_layer s ?s1" "ramfs_names env ?s1 = ramfs_names env s" "ramfs_contents ?s1 = ramfs_contents s"
      by (simp add: same_layer_def, rule ramfs_names_cong, simp, rule ramfs_contents_cong, simp_all)
    have v1: "inodes ?s1 r = Some v" using v(1) by simp
    note sb = set_block_ok [OF iv1 v1 v(2) new64]
    have "same_layer s (set_block i r v ?new ?s1)" using sb(2) by (simp add: same_layer_def)
    then show ?thesis using run iv1 same sb(1,3,4) i(2) by simp
  qed
qed

section \<open>Creating files\<close>

lemma create_loop_first_free:
  assumes iv: "ramfs_inv env s" and "j \<le> RAMFS_MAX_FILES env"
  shows "(\<exists>k. j \<le> k \<and> k < RAMFS_MAX_FILES env \<and> rf_inode (file_table s ! k) = None \<and>
             (\<forall>l. j \<le> l \<longrightarrow> l < k \<longrightarrow> rf_inode (file_table s ! l) \<noteq> None) \<and>
             create_loop env name mode j s = ramfs_fill env k name mode s) \<or>
         (\<forall>l. j \<le> l \<longrightarrow> l < RAMFS_MAX_FILES env \<longrightarrow> rf_inode (file_table s ! l) \<noteq> None) \<and>
         create_loop env name mode j s = Inr (-1, s)"
  using assms(2)
proof (induction "RAMFS_MAX_FILES env - j" arbitrary: j)
  case 0
  then show ?case by (intro disjI2) (subst create_loop.simps, simp)
next
  case (Suc d)
  then have j: "j < RAMFS_MAX_FILES env" by simp
  have len: "j < length (file_table s)"
    using j iv by (auto simp: ramfs_inv_def ramfs_config_ok_def)
  show ?case
  proof (cases "rf_inode (file_table s ! j) = None")
    case True
    then have "create_loop env name mode j s = ramfs_fill env j name mode s"
      using j len by (subst create_loop.simps) simp
    with True j show ?thesis by (intro disjI1 exI [of _ j]) simp
  next
    case False
    then have run: "create_loop env name mode j s = create_loop env name mode (j + 1) s"
      using j len by (subst create_loop.simps) (simp del: not_None_eq)
    have step: "rf_inode (file_table s ! l) \<noteq> None"
      if "j \<le> l" "j + 1 \<le> l \<longrightarrow> rf_inode (file_table s ! l) \<noteq> None" for l
      using that False by (cases "l = j") auto
    from Suc.hyps(1) [of "j + 1"] Suc.hyps(2) j
    show ?thesis unfolding run using step by (metis Suc_eq_plus1 Suc_leD Suc_leI diff_Suc_1 diff_diff_left)
  qed
qed

text \<open>Preparing a free entry changes nothing that is visible.\<close>

lemma prepare_entry_ok:
  assumes iv: "ramfs_inv env s" and k: "k < MAX_OPEN_FILES" "rf_inode (file_table s ! k) = None"
    and f: "rf_inode f = None" "length (rf_name f) = MAX_NAME_LEN" "unat (rf_size f) = length (block f)"
  defines "s' \<equiv> s\<lparr>file_table := (file_table s)[k := f]\<rparr>"
  shows "ramfs_inv env s'" and "ramfs_names env s' = ramfs_names env s" and "ramfs_contents s' = ramfs_contents s"
proof -
  have len: "length (file_table s) = MAX_OPEN_FILES" using iv by (simp add: ramfs_inv_def)
  have nth: "file_table s' ! l = (if l = k then f else file_table s ! l)" for l
    using k(1) len by (simp add: s'_def nth_list_update)
  have used: "rf_inode (file_table s' ! l) = rf_inode (file_table s ! l)" for l
    using k(2) f(1) by (simp add: nth)
  have points: "l \<noteq> k" if "inodes s q = Some w" "internal w = Some l" for q w l
    using iv that k(2) unfolding ramfs_inv_def by (metis option.distinct(1))
  have has: "has_name nm (file_table s' ! l) = has_name nm (file_table s ! l)" for nm l
    using k(2) f(1) by (auto simp: has_name_def nth)
  have other: "inodes s' = inodes s" "filesystems s' = filesystems s" "n_alloc s' = n_alloc s"
    "length (file_table s') = MAX_OPEN_FILES"
    using len by (simp_all add: s'_def)
  have entry: "entry_ok s' l (file_table s' ! l)" if "l < MAX_OPEN_FILES" for l
    using iv that f by (cases "l = k") (simp_all add: nth entry_ok_def ramfs_inv_def other)
  have objects: "ramfs_objects_ok s'" using iv by (simp add: ramfs_inv_def ramfs_objects_ok_def other)
  have node: "l < MAX_OPEN_FILES \<and> rf_inode (file_table s' ! l) = Some q \<and>
      i_mode w = rf_mode (file_table s' ! l) \<and> i_fs w = Some ramfs_fs"
    if "inodes s q = Some w" "internal w = Some l" for q w l
    using iv that points [OF that] unfolding ramfs_inv_def used by (simp add: nth)
  show "ramfs_inv env s'"
    using iv entry objects node unfolding ramfs_inv_def used other by blast
  show "ramfs_names env s' = ramfs_names env s"
    by (simp add: fun_eq_iff ramfs_names_def has used split: option.splits)
  show "ramfs_contents s' = ramfs_contents s"
    using points by (auto simp: fun_eq_iff ramfs_contents_def other nth split: option.splits)
qed

text \<open>Linking a prepared entry to a new inode adds a file under its name, unless an earlier entry has it.\<close>

definition link_entry :: "nat \<Rightarrow> nat \<Rightarrow> inode \<Rightarrow> 'z ramfs_scheme \<Rightarrow> 'z ramfs_scheme" where
  "link_entry k n v s =
     s\<lparr>inodes := (inodes s)(Heap n \<mapsto> v), next_inode_no := next_inode_no s + 1,
       file_table := (file_table s)[k := (file_table s ! k)\<lparr>rf_inode := Some (Heap n)\<rparr>]\<rparr>"

lemma find_append: "find P (xs @ ys) = (case find P xs of None \<Rightarrow> find P ys | Some x \<Rightarrow> Some x)"
  by (induction xs) auto

lemma find_upto:
  assumes "k < m" and "\<And>l. k < l \<Longrightarrow> l < m \<Longrightarrow> \<not> P l"
  shows "find P [0..<m] = (case find P [0..<k] of None \<Rightarrow> if P k then Some k else None | Some i \<Rightarrow> Some i)"
proof -
  have "[0..<m] = [0..<k] @ k # [Suc k..<m]"
    using assms(1) upt_add_eq_append [of 0 k "m - k"] by (simp add: upt_conv_Cons)
  moreover have "find P [Suc k..<m] = None" using assms(2) by (auto simp: find_None_iff)
  ultimately show ?thesis by (simp add: find_append split: option.splits)
qed

lemma link_entry_ok:
  assumes iv: "ramfs_inv env s" and k: "k < RAMFS_MAX_FILES env" "rf_inode (file_table s ! k) = None"
    and first: "\<And>l. l < k \<Longrightarrow> rf_inode (file_table s ! l) \<noteq> None"
    and f: "terminated (rf_name (file_table s ! k))" "rf_size (file_table s ! k) = 0"
    and n: "n < n_alloc s" "Heap n \<notin> dom (inodes s)"
    and v: "internal v = Some k" "i_size v = 0" "i_mode v = rf_mode (file_table s ! k)" "i_fs v = Some ramfs_fs"
  defines "s' \<equiv> link_entry k n v s" and "nm \<equiv> c_text (rf_name (file_table s ! k))"
  shows "ramfs_inv env s'" and "same_layer s s'"
    and "ramfs_names env s' = (if ramfs_names env s nm = None then (ramfs_names env s)(nm \<mapsto> Heap n) else ramfs_names env s)"
    and "ramfs_contents s' = (if i_mode v = VFS_MODE_FILE then (ramfs_contents s)(Heap n \<mapsto> []) else ramfs_contents s)"
proof -
  have len: "length (file_table s) = MAX_OPEN_FILES" and k': "k < MAX_OPEN_FILES"
    using iv k(1) by (auto simp: ramfs_inv_def ramfs_config_ok_def)
  have nth: "file_table s' ! l = (if l = k then (file_table s ! k)\<lparr>rf_inode := Some (Heap n)\<rparr> else file_table s ! l)" for l
    using k' len by (simp add: s'_def link_entry_def nth_list_update)
  have node: "inodes s' q = (if q = Heap n then Some v else inodes s q)" for q
    by (simp add: s'_def link_entry_def)
  have other: "filesystems s' = filesystems s" "n_alloc s' = n_alloc s" "files s' = files s"
    "open_files s' = open_files s" "root_fs s' = root_fs s" "length (file_table s') = MAX_OPEN_FILES"
    using len by (simp_all add: s'_def link_entry_def)
  have entries: "entry_ok s l (file_table s ! l)" if "l < MAX_OPEN_FILES" for l
    using iv that by (simp add: ramfs_inv_def)
  have later: "rf_inode (file_table s ! l) = None" if "k < l" "l < MAX_OPEN_FILES" for l
    using iv that k(2) unfolding ramfs_inv_def by blast
  have points: "l \<noteq> k" if "inodes s q = Some w" "internal w = Some l" for q w l
    using iv that k(2) unfolding ramfs_inv_def by (metis option.distinct(1))
  have back_ok: "l < MAX_OPEN_FILES \<and> rf_inode (file_table s' ! l) = Some q \<and>
      i_mode w = rf_mode (file_table s' ! l) \<and> i_fs w = Some ramfs_fs"
    if q: "inodes s' q = Some w" "internal w = Some l" for q w l
  proof (cases "q = Heap n")
    case True
    then show ?thesis using q v k' by (simp add: node nth)
  next
    case False
    then have q': "inodes s q = Some w" using q by (simp add: node)
    then show ?thesis using iv q(2) points [OF q' q(2)] unfolding ramfs_inv_def by (simp add: nth)
  qed
  have entry: "entry_ok s' l (file_table s' ! l)" if l: "l < MAX_OPEN_FILES" for l
  proof (cases "l = k")
    case True
    then show ?thesis using entries [OF l] f v by (simp add: nth entry_ok_def node block_def)
  next
    case False
    then show ?thesis using entries [OF l] n(2) by (auto simp: nth entry_ok_def node)
  qed
  have objects: "ramfs_objects_ok s'"
    using iv by (simp add: ramfs_inv_def ramfs_objects_ok_def other node root_inode_def)
  have prefix: "rf_inode (file_table s' ! l) \<noteq> None"
    if "l < m" "m < MAX_OPEN_FILES" "rf_inode (file_table s' ! m) \<noteq> None" for l m
    using that first [of l] later [of m] by (cases "m = k"; cases "l = k") (auto simp: nth not_less_iff_gr_or_eq, metis linorder_neqE_nat first order_less_trans)
  have heap: "q = root_inode \<or> (\<exists>j < n_alloc s'. q = Heap j)" if "inodes s' q = Some w" for q w
    using iv that n(1) by (auto simp: ramfs_inv_def node other split: if_splits)
  show "ramfs_inv env s'"
    using iv objects entry prefix heap back_ok other(6) unfolding ramfs_inv_def by blast
  show "same_layer s s'" by (auto simp: same_layer_def other node)
  show "ramfs_contents s' = (if i_mode v = VFS_MODE_FILE then (ramfs_contents s)(Heap n \<mapsto> []) else ramfs_contents s)"
  proof
    fix q
    have "block (file_table s ! k) = []" using entries [OF k'] f(2) by (simp add: entry_ok_def)
    then show "ramfs_contents s' q =
        (if i_mode v = VFS_MODE_FILE then (ramfs_contents s)(Heap n \<mapsto> []) else ramfs_contents s) q"
      using points [of q] v(1,3) n(2)
      by (auto simp: ramfs_contents_def node nth block_def split: option.splits)
  qed
  have max: "RAMFS_MAX_FILES env \<le> MAX_OPEN_FILES" using iv by (simp add: ramfs_inv_def ramfs_config_ok_def)
  have found: "find (\<lambda>i. has_name x (file_table s' ! i)) [0..<RAMFS_MAX_FILES env] =
      (case find (\<lambda>i. has_name x (file_table s ! i)) [0..<RAMFS_MAX_FILES env] of
         None \<Rightarrow> if nm = x then Some k else None | Some i \<Rightarrow> Some i)" for x
  proof -
    have "find (\<lambda>i. has_name x (file_table s' ! i)) [0..<k] = find (\<lambda>i. has_name x (file_table s ! i)) [0..<k]"
      by (rule find_cong) (auto simp: nth)
    moreover have "has_name x (file_table s' ! k) \<longleftrightarrow> nm = x" "\<not> has_name x (file_table s ! k)"
      using k(2) by (auto simp: nth has_name_def nm_def)
    moreover have "\<not> has_name x (file_table s' ! l)" "\<not> has_name x (file_table s ! l)"
      if "k < l" "l < RAMFS_MAX_FILES env" for l
      using later [of l] that max by (auto simp: nth has_name_def)
    ultimately show ?thesis
      using find_upto [OF k(1), of "\<lambda>i. has_name x (file_table s' ! i)"]
        find_upto [OF k(1), of "\<lambda>i. has_name x (file_table s ! i)"] by (simp split: option.splits)
  qed
  show "ramfs_names env s' = (if ramfs_names env s nm = None then (ramfs_names env s)(nm \<mapsto> Heap n) else ramfs_names env s)"
  proof
    fix x
    have same: "rf_inode (file_table s' ! i) = rf_inode (file_table s ! i) \<and> rf_inode (file_table s ! i) \<noteq> None"
      if "find (\<lambda>i. has_name x (file_table s ! i)) [0..<RAMFS_MAX_FILES env] = Some i" for i x
      using that k(2) by (auto simp: find_Some_iff has_name_def nth)
    show "ramfs_names env s' x =
        (if ramfs_names env s nm = None then (ramfs_names env s)(nm \<mapsto> Heap n) else ramfs_names env s) x"
      using same [of x] same [of nm] unfolding ramfs_names_def found by (auto simp: nth split: option.splits)
  qed
qed

text \<open>There is no free entry.\<close>

definition ramfs_full :: "'e ramfs_env_scheme \<Rightarrow> 'z ramfs_scheme \<Rightarrow> bool" where
  "ramfs_full env s \<longleftrightarrow> (\<forall>k < RAMFS_MAX_FILES env. rf_inode (file_table s ! k) \<noteq> None)"

definition ramfs_name_ok :: "'e ramfs_env_scheme \<Rightarrow> byte list \<Rightarrow> bool" where
  "ramfs_name_ok env name \<longleftrightarrow> terminated name \<and> length (c_text name) < RAMFS_NAME_LEN env"

lemma ramfs_create_law:
  assumes iv: "ramfs_inv env s" and name: "ramfs_name_ok env name"
  shows "\<exists>r s'. ramfs_create env dir name mode s = Inr (r, s') \<and> ramfs_inv env s' \<and> same_layer s s' \<and>
    (r = 0 \<and> Heap (n_alloc s) \<notin> dom (inodes s) \<and>
     ramfs_contents s' = (if mode = VFS_MODE_FILE then (ramfs_contents s)(Heap (n_alloc s) \<mapsto> []) else ramfs_contents s) \<and>
     ramfs_names env s' = (if ramfs_names env s (c_text name) = None
        then (ramfs_names env s)(c_text name \<mapsto> Heap (n_alloc s)) else ramfs_names env s) \<or>
     r = -1 \<and> (\<not> malloc_ok env (n_alloc s) \<or> ramfs_full env s) \<and>
       ramfs_contents s' = ramfs_contents s \<and> ramfs_names env s' = ramfs_names env s)"
  using create_loop_first_free [OF iv le0, of name mode]
proof (elim disjE exE conjE)
  assume "\<forall>l. 0 \<le> l \<longrightarrow> l < RAMFS_MAX_FILES env \<longrightarrow> rf_inode (file_table s ! l) \<noteq> None"
    "create_loop env name mode 0 s = Inr (-1, s)"
  then show ?thesis using iv
    by (intro exI [of _ "-1"] exI [of _ s]) (simp add: ramfs_create_def ramfs_full_def)
next
  fix k
  assume k: "k < RAMFS_MAX_FILES env" "rf_inode (file_table s ! k) = None"
    "\<forall>l. 0 \<le> l \<longrightarrow> l < k \<longrightarrow> rf_inode (file_table s ! l) \<noteq> None"
    and run: "create_loop env name mode 0 s = ramfs_fill env k name mode s"
  let ?f = "file_table s ! k" and ?n = "n_alloc s"
  have k': "k < MAX_OPEN_FILES" "length (file_table s) = MAX_OPEN_FILES"
    using iv k(1) by (auto simp: ramfs_inv_def ramfs_config_ok_def)
  have lenf: "length (rf_name ?f) = MAX_NAME_LEN" using iv k' by (simp add: ramfs_inv_def entry_ok_def)
  obtain nm where nm: "strncpy (rf_name ?f) name (RAMFS_NAME_LEN env) = Inr nm" "length nm = MAX_NAME_LEN"
    "terminated nm" "c_text nm = c_text name"
    using strncpy_short [of name "RAMFS_NAME_LEN env" "rf_name ?f"] name iv lenf
    by (auto simp: ramfs_name_ok_def ramfs_inv_def ramfs_config_ok_def)
  let ?f1 = "?f\<lparr>rf_name := nm, rf_mode := mode, rf_data := None, rf_size := 0\<rparr>"
  let ?s1 = "s\<lparr>file_table := (file_table s)[k := ?f1]\<rparr>"
  let ?s2 = "?s1\<lparr>n_alloc := ?n + 1\<rparr>"
  note s1 = prepare_entry_ok [OF iv k'(1) k(2), of ?f1, simplified, OF k(2) nm(2), unfolded block_def, simplified]
  have iv2: "ramfs_inv env ?s2"
    by (rule ramfs_inv_layer [of env ?s1]) (use s1(1) in simp_all)
  have names2: "ramfs_names env ?s2 = ramfs_names env s"
    using ramfs_names_cong [of ?s2 ?s1 env] s1(2) by simp
  have contents2: "ramfs_contents ?s2 = ramfs_contents s"
    using ramfs_contents_cong [of ?s2 ?s1] s1(3) by simp
  have same2: "same_layer s ?s2" by (simp add: same_layer_def)
  show ?thesis
  proof (cases "malloc_ok env ?n")
    case False
    then have "ramfs_create env dir name mode s = Inr (-1, ?s2)"
      using run nm(1) by (simp add: ramfs_create_def ramfs_fill_def malloc_def Let_def)
    then show ?thesis using False iv2 names2 contents2 same2 by blast
  next
    case True
    let ?v = "\<lparr>inode_no = next_inode_no s, i_size = 0, i_mode = mode, i_fs = Some ramfs_fs, internal = Some k\<rparr>"
    have fresh: "Heap ?n \<notin> dom (inodes s)"
      using iv by (auto simp: ramfs_inv_def root_inode_def)
    define s2 where "s2 = ?s2"
    have nth: "file_table s2 ! l = (if l = k then ?f1 else file_table s ! l)" for l
      using k' by (simp add: s2_def nth_list_update)
    have free: "rf_inode (file_table s2 ! k) = None" and name2: "rf_name (file_table s2 ! k) = nm"
      and entry2: "rf_size (file_table s2 ! k) = 0" "rf_mode (file_table s2 ! k) = mode"
      using k(2) by (simp_all add: nth)
    have used: "rf_inode (file_table s2 ! l) \<noteq> None" if "l < k" for l using k(3) that by (simp add: nth)
    have run: "ramfs_create env dir name mode s = Inr (0, link_entry k ?n ?v s2)"
      using run nm(1) True k'
      by (simp add: ramfs_create_def ramfs_fill_def malloc_def Let_def link_entry_def s2_def)
    have "?n < n_alloc s2" "Heap ?n \<notin> dom (inodes s2)" using fresh by (simp_all add: s2_def)
    note link = link_entry_ok [where v = ?v, OF iv2 [folded s2_def] k(1) free used _ entry2(1) this _ _ _ _,
        unfolded name2 entry2, simplified, OF nm(3)]
    show ?thesis
      using run fresh same2 link names2 contents2 unfolding nm(4) s2_def [symmetric]
      by (intro exI [of _ 0] exI [of _ "link_entry k ?n ?v s2"]) (auto simp: same_layer_def)
  qed
qed

section \<open>The contract\<close>

interpretation rfs: file_system "ramfs_prog env" "ramfs_ops env" "ramfs_inv env" ramfs_contents
  "ramfs_names env" ramfs_fs root_inode env "ramfs_name_ok env" "ramfs_full env"
  for env :: "'e ramfs_env_scheme"
proof (unfold_locales, goal_cases)
  case (1 s a) then show ?case by (rule ramfs_inv_layer) simp_all
next
  case (2 s b) then show ?case by (rule ramfs_inv_layer) simp_all
next
  case (3 s c) then show ?case by (rule ramfs_inv_layer) simp_all
next
  case (4 s) then show ?case by (rule ramfs_inv_layer) simp_all
next
  case (13 s) then show ?case
    by (auto simp: ramfs_inv_def ramfs_objects_ok_def ramfs_prog_def)
next
  case (14 s) then show ?case
    by (auto simp: ramfs_inv_def ramfs_objects_ok_def VFS_MODE_DIR_def)
next
  case (15 s i xs) then show ?case
    by (auto elim!: regular_entry simp: VFS_MODE_FILE_def VFS_MODE_DIR_def)
next
  case (16 s name) then show ?case by (simp add: ramfs_ops_def ramfs_lookup_names)
next
  case (17 s nm i) then show ?case by (rule ramfs_names_inode)
next
  case (18 s i xs off len buf bs) then show ?case unfolding ramfs_ops_def filesystem_ops.simps by (rule ramfs_read_law)
next
  case (19 s i xs off len buf) then show ?case unfolding ramfs_ops_def filesystem_ops.simps by (rule ramfs_write_law)
next
  case (20 s name mode) then show ?case unfolding ramfs_ops_def filesystem_ops.simps by (rule ramfs_create_law)
qed (rule ramfs_contents_cong ramfs_names_cong; simp)+

end
