(* ===== verification/Fs_Props.thy ===== *)
theory Fs_Props
  imports Ramfs_Inv
begin

text \<open>
  The file-system properties: \<^verbatim>\<open>vfs.c\<close> over \<^verbatim>\<open>ramfs.c\<close> implements the abstract file system, and
  what is written through one descriptor is read back through another.
\<close>

section \<open>Mounting an empty file system\<close>

definition fs_boot :: "'z ramfs_scheme \<Rightarrow> bool" where
  "fs_boot s \<longleftrightarrow> open_files s = replicate MAX_OPEN_FILES None \<and> inodes s = Map.empty"

lemma ramfs_create_fs_inv:
  assumes "inodes s = Map.empty" and "ramfs_config_ok env"
  shows "ramfs_inv env (snd (ramfs_create_fs s))"
    and "ramfs_names env (snd (ramfs_create_fs s)) = Map.empty"
    and "ramfs_contents (snd (ramfs_create_fs s)) = Map.empty"
proof -
  let ?s = "snd (ramfs_create_fs s)"
  have e: "entry_ok ?s k empty_entry" for k
    by (simp add: entry_ok_def empty_entry_def block_def)
  have none: "rf_inode empty_entry = None" by (simp add: empty_entry_def)
  have nth: "file_table ?s ! k = empty_entry" if "k < MAX_OPEN_FILES" for k
    using that by (simp add: ramfs_create_fs_def)
  have node: "inodes ?s = [root_inode \<mapsto>
      \<lparr>inode_no = 0, i_size = 0, i_mode = VFS_MODE_DIR, i_fs = Some ramfs_fs, internal = None\<rparr>]"
    using assms(1) by (simp add: ramfs_create_fs_def)
  have "ramfs_objects_ok ?s" by (simp add: ramfs_objects_ok_def node) (simp add: ramfs_create_fs_def)
  then show "ramfs_inv env ?s"
    using assms(2) e none nth unfolding ramfs_inv_def node
    by (auto simp: ramfs_create_fs_def split: if_splits)
  show "ramfs_contents ?s = Map.empty"
    by (rule ext) (simp add: ramfs_contents_def node)
  have "find (\<lambda>i. has_name nm (file_table ?s ! i)) [0..<RAMFS_MAX_FILES env] = None" for nm
    using assms(2) nth none by (auto simp: find_None_iff has_name_def ramfs_config_ok_def)
  then show "ramfs_names env ?s = Map.empty" by (simp add: fun_eq_iff ramfs_names_def)
qed

definition fs_mounted :: "'z ramfs_scheme \<Rightarrow> 'z ramfs_scheme" where
  "fs_mounted s = (snd (ramfs_create_fs s))\<lparr>root_fs := Some ramfs_fs\<rparr>"

lemma fs_mounted_ok:
  assumes "fs_boot s" and "ramfs_config_ok env"
  shows "rbind (vfs_mount (fst (ramfs_create_fs s)) (snd (ramfs_create_fs s))) Inr = Inr (0, fs_mounted s)"
    and "vfs_ok (ramfs_inv env) ramfs_contents (fs_mounted s)"
    and "ramfs_names env (fs_mounted s) = Map.empty" and "handle (fs_mounted s) = Map.empty"
    and "root_fs (fs_mounted s) = Some ramfs_fs"
proof -
  let ?s = "snd (ramfs_create_fs s)"
  have i: "inodes s = Map.empty" using assms(1) by (simp add: fs_boot_def)
  note c = ramfs_create_fs_inv [OF i assms(2)]
  show "rbind (vfs_mount (fst (ramfs_create_fs s)) ?s) Inr = Inr (0, fs_mounted s)"
    by (simp add: vfs_mount_def ramfs_create_fs_def deref_def fs_mounted_def)
  have opens: "open_files (fs_mounted s) = replicate MAX_OPEN_FILES None"
    using assms(1) by (simp add: fs_mounted_def ramfs_create_fs_def fs_boot_def)
  show h: "handle (fs_mounted s) = Map.empty"
    by (rule ext) (simp add: handle_def opens nat_less_iff)
  have "handles_ok (fs_mounted s)" by (simp add: handles_ok_def opens)
  then show "vfs_ok (ramfs_inv env) ramfs_contents (fs_mounted s)"
    using rfs.inv_root [OF c(1)] h by (simp add: vfs_ok_def fs_mounted_def)
  show "ramfs_names env (fs_mounted s) = Map.empty"
    using c(2) rfs.names_root [of env _ ?s] by (simp add: fs_mounted_def)
  show "root_fs (fs_mounted s) = Some ramfs_fs" by (simp add: fs_mounted_def)
qed

section \<open>Writing a list of buffers\<close>

text \<open>Write a list of buffers one after the other.\<close>

fun write_all :: "(ref \<Rightarrow> 'z vfs_scheme filesystem_ops) \<Rightarrow> int \<Rightarrow> byte list list \<Rightarrow> 'z vfs_scheme \<Rightarrow> 'z vfs_scheme kres" where
  "write_all prog fd [] s = Inr s"
| "write_all prog fd (w # ws) s =
     rbind (vfs_write prog fd w (of_nat (length w)) s) (\<lambda>(n, s). write_all prog fd ws s)"

lemma write_all_appends:
  assumes "vfs_ok (ramfs_inv env) ramfs_contents s" and "\<And>n. malloc_ok env n"
    and "handle s fd = Some (i, length xs)" and "ramfs_contents s i = Some xs"
    and "length xs + length (concat ws) < 2 ^ 31"
  shows "\<exists>s'. write_all (ramfs_prog env) fd ws s = Inr s' \<and> vfs_ok (ramfs_inv env) ramfs_contents s' \<and>
    root_fs s' = root_fs s \<and> ramfs_names env s' = ramfs_names env s \<and>
    (\<forall>fd'. fd' \<noteq> fd \<longrightarrow> handle s' fd' = handle s fd') \<and> ramfs_contents s' i = Some (xs @ concat ws)"
  using assms
proof (induction ws arbitrary: s xs)
  case Nil
  then show ?case by simp
next
  case (Cons w ws)
  have len: "unat (of_nat (length w) :: ulong) = length w" using Cons.prems(5) by (simp add: unat_of_nat64)
  obtain r s1 where w: "vfs_write (ramfs_prog env) fd w (of_nat (length w)) s = Inr (r, s1)"
      "vfs_ok (ramfs_inv env) ramfs_contents s1" "root_fs s1 = root_fs s" "ramfs_names env s1 = ramfs_names env s"
      "abs_fs ramfs_contents s1 = a_write fd w (abs_fs ramfs_contents s)"
    using rfs.vfs_write_abs [OF Cons.prems(1,3,4), of "of_nat (length w)" w] Cons.prems(2,5) len by auto
  have c: "ramfs_contents s1 = (ramfs_contents s)(i \<mapsto> xs @ w)"
    and h: "handle s1 = (handle s)(fd \<mapsto> (i, length (xs @ w)))"
    using w(5) Cons.prems(3,4) by (simp_all add: abs_fs_def a_write_def overwrite_end)
  obtain s2 where s2: "write_all (ramfs_prog env) fd ws s1 = Inr s2"
      "vfs_ok (ramfs_inv env) ramfs_contents s2" "root_fs s2 = root_fs s1" "ramfs_names env s2 = ramfs_names env s1"
      "\<forall>fd'. fd' \<noteq> fd \<longrightarrow> handle s2 fd' = handle s1 fd'" "ramfs_contents s2 i = Some ((xs @ w) @ concat ws)"
    using Cons.IH [OF w(2) Cons.prems(2), of "xs @ w"] Cons.prems(5) c h by auto
  have "\<forall>fd'. fd' \<noteq> fd \<longrightarrow> handle s1 fd' = handle s fd'" using h by simp
  with w s2 show ?case by (intro exI [of _ s2]) simp
qed

lemma fs_mounted_not_full:
  assumes "ramfs_config_ok env" and "0 < RAMFS_MAX_FILES env"
  shows "\<not> ramfs_full env (fs_mounted s)"
  using assms by (auto simp: ramfs_full_def fs_mounted_def ramfs_create_fs_def empty_entry_def ramfs_config_ok_def)

lemma fs_created:
  assumes boot: "fs_boot s" and env: "ramfs_config_ok env" "0 < RAMFS_MAX_FILES env" "\<And>n. malloc_ok env n"
    and name: "ramfs_name_ok env name"
  obtains s' i where "vfs_create (ramfs_prog env) (Some (c # name)) VFS_MODE_FILE (fs_mounted s) = Inr (0, s')"
    "vfs_ok (ramfs_inv env) ramfs_contents s'" "root_fs s' = Some ramfs_fs" "handle s' = Map.empty"
    "ramfs_contents s' i = Some []" "ramfs_names env s' (c_text name) = Some i"
proof -
  note m = fs_mounted_ok [OF boot env(1)]
  note nf = fs_mounted_not_full [OF env(1,2), of s]
  obtain s' where s': "vfs_create (ramfs_prog env) (Some (c # name)) VFS_MODE_FILE (fs_mounted s) = Inr (0, s')"
    "vfs_ok (ramfs_inv env) ramfs_contents s'" "root_fs s' = root_fs (fs_mounted s)" "handle s' = handle (fs_mounted s)"
    "ramfs_contents s' = (ramfs_contents (fs_mounted s))(Heap (n_alloc (fs_mounted s)) \<mapsto> [])"
    "ramfs_names env s' = (ramfs_names env (fs_mounted s))(c_text name \<mapsto> Heap (n_alloc (fs_mounted s)))"
    using rfs.vfs_create_abs [OF m(2,5) name, of c VFS_MODE_FILE] m(3) env(3) nf by auto
  show ?thesis
    by (rule that [OF s'(1,2)]) (use s' m in auto)
qed

lemma fs_opened:
  assumes ok: "vfs_ok (ramfs_inv env) ramfs_contents s" and root: "root_fs s = Some ramfs_fs"
    and mem: "malloc_ok env (n_alloc s)" and path: "terminated path"
    and ts: "\<forall>t \<in> set toks. terminated t" and i: "token_target root_inode (ramfs_names env s) toks = Some i"
    and reg: "length toks \<le> 1 \<or> ramfs_contents s i \<noteq> None"
    and free: "k < MAX_OPEN_FILES" "handle s (int k) = None" "\<And>j. j < k \<Longrightarrow> handle s (int j) \<noteq> None"
  obtains s' where "vfs_open env (ramfs_prog env) toks (Some (of_char CHR ''/'' # path)) s = Inr (int k, s')"
    "vfs_ok (ramfs_inv env) ramfs_contents s'" "root_fs s' = root_fs s" "ramfs_names env s' = ramfs_names env s"
    "handle s' = (handle s)(int k \<mapsto> (i, 0))" "ramfs_contents s' = ramfs_contents s"
proof -
  obtain r s' where r: "vfs_open env (ramfs_prog env) toks (Some (of_char CHR ''/'' # path)) s = Inr (r, s')"
    "vfs_ok (ramfs_inv env) ramfs_contents s'" "root_fs s' = root_fs s" "ramfs_names env s' = ramfs_names env s"
    and cases: "(\<exists>k < MAX_OPEN_FILES. r = int k \<and> handle s r = None \<and> (\<forall>j < k. handle s (int j) \<noteq> None) \<and>
        abs_fs ramfs_contents s' = a_open r i (abs_fs ramfs_contents s)) \<or>
     r = -1 \<and> (\<not> malloc_ok env (n_alloc s) \<or> (\<forall>j < MAX_OPEN_FILES. handle s (int j) \<noteq> None)) \<and>
        abs_fs ramfs_contents s' = abs_fs ramfs_contents s"
    using rfs.vfs_open_abs [OF ok root path ts i reg] by blast
  then obtain l where l: "r = int l" "handle s (int l) = None" "\<forall>j < l. handle s (int j) \<noteq> None"
    "abs_fs ramfs_contents s' = a_open r i (abs_fs ramfs_contents s)"
    using mem free(1,2) by auto
  have "l = k" using l free(2,3) by (metis linorder_neqE_nat)
  with l r that show ?thesis by (auto simp: abs_fs_def a_open_def)
qed

section \<open>Properties\<close>

text \<open>C30. \<open>vfs_write\<close> on a descriptor of a regular file implements the abstract write: the bytes
  replace those at the position of the descriptor or extend the file, the position moves past
  them, and every other file and descriptor is as before. If the call needs memory and gets none it
  returns \<open>-1\<close> and nothing visible changes.\<close>

theorem vfs_write_refines:
  fixes env :: "'e ramfs_env_scheme" and s :: "'z ramfs_scheme"
  assumes "vfs_ok (ramfs_inv env) ramfs_contents s"
    and "handle s fd = Some (i, k)" and "ramfs_contents s i = Some xs"
    and "k + unat len < 2 ^ 31" and "unat len \<le> length buf"
  shows "\<exists>r s'. vfs_write (ramfs_prog env) fd buf len s = Inr (r, s') \<and>
    vfs_ok (ramfs_inv env) ramfs_contents s' \<and> ramfs_names env s' = ramfs_names env s \<and>
    (r = int (unat len) \<and>
       abs_fs ramfs_contents s' = a_write fd (take (unat len) buf) (abs_fs ramfs_contents s) \<or>
     r = -1 \<and> \<not> malloc_ok env (n_alloc s) \<and> abs_fs ramfs_contents s' = abs_fs ramfs_contents s)"
  using rfs.vfs_write_abs [OF assms] by blast

text \<open>C31. \<open>vfs_read\<close> on a descriptor of a regular file implements the abstract read: it stores the
  bytes from the position on, up to the length asked for or the end of the file, returns their
  number and moves the position past them; the rest of the buffer and all files are untouched.\<close>

theorem vfs_read_refines:
  fixes env :: "'e ramfs_env_scheme" and s :: "'z ramfs_scheme"
  assumes "vfs_ok (ramfs_inv env) ramfs_contents s"
    and "handle s fd = Some (i, k)" and "ramfs_contents s i = Some xs"
    and "length xs < 2 ^ 31" and "k + unat len < 2 ^ 64" and "unat len \<le> length buf"
  shows "\<exists>bs s'. vfs_read (ramfs_prog env) fd buf len s = Inr (int (length bs), bs @ drop (length bs) buf, s') \<and>
    vfs_ok (ramfs_inv env) ramfs_contents s' \<and>
    a_read fd (unat len) (abs_fs ramfs_contents s) = (bs, abs_fs ramfs_contents s')"
  using rfs.vfs_read_abs [OF assms refl] by (metis prod.collapse)


text \<open>C33. \<open>vfs_create\<close> with a name that fits adds one inode, an empty file if the mode says so, keeps all
  other files, and returns 0; it returns \<open>-1\<close>, with nothing visible changed, only without memory or a
  free table entry. A new name then refers to the new inode. A name that exists already is not
  refused: the call returns 0 as well, the name keeps its old meaning, and no name leads to the new
  inode.\<close>

theorem vfs_create_correct:
  fixes env :: "'e ramfs_env_scheme" and s :: "'z ramfs_scheme"
  assumes "vfs_ok (ramfs_inv env) ramfs_contents s" and "root_fs s = Some ramfs_fs" and "ramfs_name_ok env name"
  shows "\<exists>r s'. vfs_create (ramfs_prog env) (Some (c # name)) mode s = Inr (r, s') \<and>
    vfs_ok (ramfs_inv env) ramfs_contents s' \<and> handle s' = handle s \<and>
    (r = 0 \<and> Heap (n_alloc s) \<notin> dom (inodes s) \<and>
     ramfs_contents s' = (if mode = VFS_MODE_FILE then (ramfs_contents s)(Heap (n_alloc s) \<mapsto> []) else ramfs_contents s) \<and>
     ramfs_names env s' = (if ramfs_names env s (c_text name) = None
       then (ramfs_names env s)(c_text name \<mapsto> Heap (n_alloc s)) else ramfs_names env s) \<or>
     r = -1 \<and> (\<not> malloc_ok env (n_alloc s) \<or> ramfs_full env s) \<and>
     ramfs_contents s' = ramfs_contents s \<and> ramfs_names env s' = ramfs_names env s)"
  using rfs.vfs_create_abs [OF assms, of c mode] by blast

text \<open>C34. Two descriptors of one file: after writing any list of buffers at the end of the file through
  the first, a read through the second gives the bytes from its own position on, those that were there
  and then the concatenation of the buffers, as far as the reader's buffer goes; the rest of that
  buffer is untouched.\<close>

theorem vfs_write_read_roundtrip:
  fixes env :: "'e ramfs_env_scheme" and s :: "'z ramfs_scheme"
  assumes ok: "vfs_ok (ramfs_inv env) ramfs_contents s" and mem: "\<And>n. malloc_ok env n"
    and fd: "handle s out = Some (i, length xs)" "handle s inp = Some (i, k)" "out \<noteq> inp" "ramfs_contents s i = Some xs"
    and small: "length xs + length (concat ws) < 2 ^ 31" "length buf < 2 ^ 63"
  defines "bytes \<equiv> take (length buf) (drop k (xs @ concat ws))"
  shows "\<exists>s1 s2. write_all (ramfs_prog env) out ws s = Inr s1 \<and> ramfs_contents s1 i = Some (xs @ concat ws) \<and>
    vfs_read (ramfs_prog env) inp buf (of_nat (length buf)) s1 =
      Inr (int (length bytes), bytes @ drop (length bytes) buf, s2)"
proof -
  obtain s1 where s1: "write_all (ramfs_prog env) out ws s = Inr s1" "vfs_ok (ramfs_inv env) ramfs_contents s1"
      "\<forall>d. d \<noteq> out \<longrightarrow> handle s1 d = handle s d" "ramfs_contents s1 i = Some (xs @ concat ws)"
    using write_all_appends [OF ok mem fd(1,4) small(1)] by blast
  have h: "handle s1 inp = Some (i, k)" using s1(3) fd(2,3) by simp
  have len: "unat (of_nat (length buf) :: ulong) = length buf" using small(2) by (simp add: unat_of_nat64)
  have k: "k \<le> length xs" using ok fd(2,4) by (auto simp: vfs_ok_def)
  have b: "bytes = fst (a_read inp (unat (of_nat (length buf) :: ulong)) (abs_fs ramfs_contents s1))"
    using h s1(4) len by (simp add: bytes_def a_read_def abs_fs_def Let_def)
  have "k + unat (of_nat (length buf) :: ulong) < 2 ^ 64" "unat (of_nat (length buf) :: ulong) \<le> length buf"
      "length (xs @ concat ws) < 2 ^ 31"
    using len k small by simp_all
  from rfs.vfs_read_abs [OF s1(2) h s1(4) this(3,1,2) b] s1(1,4) show ?thesis by blast
qed

section \<open>Instances\<close>

definition fs_sample_env :: ramfs_env where
  "fs_sample_env = \<lparr>malloc_ok = \<lambda>_. True, fresh_bytes = \<lambda>_ _. 0, RAMFS_MAX_FILES = 64, RAMFS_NAME_LEN = 64\<rparr>"

definition fs_sample :: ramfs where
  "fs_sample = \<lparr>root_fs = None, open_files = replicate MAX_OPEN_FILES None, files = Map.empty, inodes = Map.empty,
     filesystems = Map.empty, n_alloc = 0, file_table = [], next_inode_no = 1\<rparr>"

lemma fs_sample_facts:
  "fs_boot fs_sample" "ramfs_config_ok fs_sample_env" "0 < RAMFS_MAX_FILES fs_sample_env"
  "malloc_ok fs_sample_env n" "ramfs_name_ok fs_sample_env (cstr ''a'')" "terminated (cstr ''a'')"
  by (simp_all add: fs_boot_def fs_sample_def ramfs_config_ok_def fs_sample_env_def ramfs_name_ok_def cstr_def
      MAX_OPEN_FILES_def MAX_NAME_LEN_def)

lemma fs_sample_created:
  "\<exists>(s :: ramfs) i. vfs_ok (ramfs_inv fs_sample_env) ramfs_contents s \<and> root_fs s = Some ramfs_fs \<and>
     handle s = Map.empty \<and> ramfs_contents s i = Some [] \<and> ramfs_names fs_sample_env s (c_text (cstr ''a'')) = Some i"
  by (rule fs_created [OF fs_sample_facts(1,2,3,4,5)]) blast

text \<open>One file, opened twice.\<close>

lemma fs_sample_twice:
  "\<exists>(s :: ramfs) i. vfs_ok (ramfs_inv fs_sample_env) ramfs_contents s \<and> handle s 0 = Some (i, 0) \<and>
     handle s 1 = Some (i, 0) \<and> ramfs_contents s i = Some []"
proof -
  obtain s :: ramfs and i where s: "vfs_ok (ramfs_inv fs_sample_env) ramfs_contents s" "root_fs s = Some ramfs_fs"
    "handle s = Map.empty" "ramfs_contents s i = Some []" "ramfs_names fs_sample_env s (c_text (cstr ''a'')) = Some i"
    using fs_sample_created by blast
  have ts: "\<forall>t \<in> set [cstr ''a'']. terminated t" using fs_sample_facts(6) by simp
  have tg: "token_target root_inode (ramfs_names fs_sample_env u) [cstr ''a''] = ramfs_names fs_sample_env u (c_text (cstr ''a''))"
    for u :: ramfs by (simp add: token_target_def)
  obtain t :: ramfs where t: "vfs_ok (ramfs_inv fs_sample_env) ramfs_contents t" "root_fs t = root_fs s"
      "ramfs_names fs_sample_env t = ramfs_names fs_sample_env s" "handle t = (handle s)(int 0 \<mapsto> (i, 0))"
      "ramfs_contents t = ramfs_contents s"
    by (rule fs_opened [OF s(1,2) fs_sample_facts(4,6) ts, of i 0]) (use s tg in \<open>auto simp: MAX_OPEN_FILES_def\<close>)
  obtain u :: ramfs where u: "vfs_ok (ramfs_inv fs_sample_env) ramfs_contents u"
      "handle u = (handle t)(int 1 \<mapsto> (i, 0))" "ramfs_contents u = ramfs_contents t"
    by (rule fs_opened [OF t(1) _ fs_sample_facts(4,6) ts, of i 1]) (use s t tg in \<open>auto simp: MAX_OPEN_FILES_def\<close>)
  then show ?thesis using s t by (intro exI [of _ u] exI [of _ i]) simp
qed

lemma fs_sample_opened:
  "\<exists>(s :: ramfs) i. vfs_ok (ramfs_inv fs_sample_env) ramfs_contents s \<and> handle s 0 = Some (i, 0) \<and> ramfs_contents s i = Some []"
  using fs_sample_twice by blast

theorem vfs_write_witness:
  "\<exists>(s :: ramfs) i s'. handle s 0 = Some (i, 0) \<and> ramfs_contents s i = Some [] \<and>
     vfs_write (ramfs_prog fs_sample_env) 0 [1, 2, 3] 2 s = Inr (2, s') \<and> ramfs_contents s' i = Some [1, 2]"
proof -
  obtain s :: ramfs and i where s: "vfs_ok (ramfs_inv fs_sample_env) ramfs_contents s" "handle s 0 = Some (i, 0)"
    "ramfs_contents s i = Some []"
    using fs_sample_opened by blast
  have "unat (2 :: ulong) = 2" by simp
  then obtain s' where "vfs_write (ramfs_prog fs_sample_env) 0 [1, 2, 3] 2 s = Inr (2, s')"
    "abs_fs ramfs_contents s' = a_write 0 [1, 2] (abs_fs ramfs_contents s)"
    using vfs_write_refines [OF s, of 2 "[1, 2, 3]"] fs_sample_facts(4) by auto
  moreover from this(2) have "ramfs_contents s' i = Some [1, 2]"
    using s by (simp add: abs_fs_def a_write_def overwrite_def)
  ultimately show ?thesis using s by blast
qed

theorem vfs_read_witness:
  "\<exists>(s :: ramfs) i s'. handle s 0 = Some (i, 0) \<and> ramfs_contents s i = Some [] \<and>
     vfs_read (ramfs_prog fs_sample_env) 0 [7] 1 s = Inr (0, [7], s')"
proof -
  obtain s :: ramfs and i where s: "vfs_ok (ramfs_inv fs_sample_env) ramfs_contents s" "handle s 0 = Some (i, 0)"
    "ramfs_contents s i = Some []"
    using fs_sample_opened by blast
  obtain bs s' where r: "vfs_read (ramfs_prog fs_sample_env) 0 [7] 1 s = Inr (int (length bs), bs @ drop (length bs) [7], s')"
    "a_read 0 (unat (1 :: ulong)) (abs_fs ramfs_contents s) = (bs, abs_fs ramfs_contents s')"
    using vfs_read_refines [OF s, of 1 "[7]"] by auto
  from r(2) have "bs = []" using s by (simp add: abs_fs_def a_read_def)
  with r s show ?thesis by auto
qed


theorem vfs_create_witness:
  "\<exists>s'. vfs_create (ramfs_prog fs_sample_env) (Some (cstr ''/a'')) VFS_MODE_FILE (fs_mounted fs_sample) = Inr (0, s') \<and>
     ramfs_names fs_sample_env s' = [c_text (cstr ''a'') \<mapsto> Heap (n_alloc (fs_mounted fs_sample))]"
proof -
  note m = fs_mounted_ok [OF fs_sample_facts(1,2)] and nf = fs_mounted_not_full [OF fs_sample_facts(2,3), of fs_sample]
  have path: "cstr ''/a'' = of_char CHR ''/'' # cstr ''a''" by (simp add: cstr_def)
  show ?thesis
    unfolding path
    using vfs_create_correct [OF m(2,5) fs_sample_facts(5), of "of_char CHR ''/''" VFS_MODE_FILE]
      m(3) nf fs_sample_facts(4) by auto
qed

theorem vfs_write_read_witness:
  "\<exists>(s :: ramfs) s1 s2. write_all (ramfs_prog fs_sample_env) 0 [[1, 2], [], [3]] s = Inr s1 \<and>
     vfs_read (ramfs_prog fs_sample_env) 1 [9, 9, 9, 9] (of_nat 4) s1 = Inr (3, [1, 2, 3, 9], s2)"
proof -
  obtain s :: ramfs and i where s: "vfs_ok (ramfs_inv fs_sample_env) ramfs_contents s" "handle s 0 = Some (i, length ([] :: byte list))"
    "handle s 1 = Some (i, 0)" "ramfs_contents s i = Some []"
    using fs_sample_twice by auto
  obtain s1 s2 where "write_all (ramfs_prog fs_sample_env) 0 [[1, 2], [], [3]] s = Inr s1"
      "vfs_read (ramfs_prog fs_sample_env) 1 [9, 9, 9, 9] (of_nat (length [9, 9, 9, 9 :: byte])) s1 = Inr (3, [1, 2, 3, 9], s2)"
    using vfs_write_read_roundtrip [OF s(1) fs_sample_facts(4) s(2,3) zero_neq_one s(4), of "[[1, 2], [], [3]]" "[9, 9, 9, 9]"] by auto
  then show ?thesis by auto
qed

end
