(* ===== verification/Shell.thy ===== *)
theory Shell
  imports Uart Kstring
begin

text \<open>
  \<^verbatim>\<open>shell.c\<close>, the user program, and the line input it depends on. One turn of the endless loop of
  \<open>user_shell_main\<close> is a function from the state of its buffer and the answer of \<open>read\<close> to the
  system calls it makes and the new buffer; the calls themselves are those of \<^verbatim>\<open>user.h\<close>. The
  second half shows what \<open>uart_gets\<close> delivers and what the shell does with it.
\<close>

section \<open>The shell\<close>

definition INPUT_BUF_SIZE :: nat where "INPUT_BUF_SIZE = 128"

function streq_loop :: "byte list \<Rightarrow> byte list \<Rightarrow> int \<Rightarrow> int \<Rightarrow> int kres" where
  "streq_loop s1 s2 n i =
     (if i < n
      then if int (length s1) \<le> i then Inl Bounds
           else if s1 ! nat i = 0 then Inr 0
           else if int (length s2) \<le> i then Inl Bounds
           else if s2 ! nat i = 0 \<or> s1 ! nat i \<noteq> s2 ! nat i then Inr 0
           else streq_loop s1 s2 n (i + 1)
      else Inr 1)"
  by pat_completeness auto
termination
  by (relation "measure (\<lambda>(s1, s2, n, i). nat (n - i))") auto

declare streq_loop.simps [simp del]

definition streq :: "byte list \<Rightarrow> byte list \<Rightarrow> int \<Rightarrow> int kres" where
  "streq s1 s2 n = streq_loop s1 s2 n 0"

text \<open>The system calls of a turn. A write is the bytes it passes; a read is the offset in the buffer
  and the count.\<close>

datatype shell_call = Write_call "byte list" | Read_call nat ulong | Sleep_call ulong | Yield_call

definition prompt :: "byte list" where "prompt = cstr ''$ ''"
definition cmd_yield :: "byte list" where "cmd_yield = cstr ''yield''"

definition shell_start :: "byte list" where
  "shell_start = prompt @ replicate (INPUT_BUF_SIZE - length prompt) 0"

definition write_bytes :: "byte list \<Rightarrow> int \<Rightarrow> byte list kres" where
  "write_bytes bs cnt = (if 0 \<le> cnt \<and> cnt \<le> int (length bs) then Inr (take (nat cnt) bs) else Inl Bounds)"

text \<open>
  \<open>ret\<close> is what \<open>read\<close> returns and \<open>stored\<close> the bytes the kernel has stored at \<^verbatim>\<open>&buf[2]\<close>.
\<close>

definition shell_turn :: "ulong \<Rightarrow> byte list \<Rightarrow> byte list \<Rightarrow> (shell_call list \<times> byte list) kres" where
  "shell_turn ret stored buf =
     rbind (write_bytes prompt 2) (\<lambda>p.
     let calls = [Write_call p, Read_call 2 (of_nat (INPUT_BUF_SIZE - 1))]
     in if INPUT_BUF_SIZE < 2 + length stored then Inl Bounds
        else let buf = take 2 buf @ stored @ drop (2 + length stored) buf; n = c_int ret
             in if n \<le> 0 then Inr (calls, buf)
                else rbind (streq (drop 2 buf) cmd_yield (int (length cmd_yield) - 1)) (\<lambda>eq.
                     rbind (write_bytes buf (n + 2)) (\<lambda>echo.
                     Inr (calls @ [Sleep_call 1000] @ (if eq \<noteq> 0 then [Yield_call] else []) @ [Write_call echo], buf))))"

section \<open>Comparison\<close>

lemma streq_loop_prefix:
  assumes "0 \<le> i" and "i \<le> n" and "n \<le> int (length s1)" and "n \<le> int (length s2)"
  shows "streq_loop s1 s2 n i =
    Inr (if \<forall>k. nat i \<le> k \<and> k < nat n \<longrightarrow> s1 ! k \<noteq> 0 \<and> s1 ! k = s2 ! k then 1 else 0)"
  using assms(1,2)
proof (induction "nat (n - i)" arbitrary: i)
  case 0
  then show ?case by (subst streq_loop.simps) auto
next
  case (Suc d)
  then have i: "i < n" by simp
  have IH: "streq_loop s1 s2 n (i + 1) =
      Inr (if \<forall>k. nat (i + 1) \<le> k \<and> k < nat n \<longrightarrow> s1 ! k \<noteq> 0 \<and> s1 ! k = s2 ! k then 1 else 0)"
    using Suc.hyps(1) [of "i + 1"] Suc.hyps(2) Suc.prems i by simp
  have split: "(\<forall>k. nat i \<le> k \<and> k < nat n \<longrightarrow> P k) \<longleftrightarrow>
      P (nat i) \<and> (\<forall>k. nat (i + 1) \<le> k \<and> k < nat n \<longrightarrow> P k)" for P
    using i Suc.prems(1) by (auto simp: nat_add_distrib le_Suc_eq Suc_le_eq nat_less_eq_zless dest: le_neq_implies_less)
  show ?case
    unfolding split using i assms(3,4) Suc.prems(1) IH by (subst streq_loop.simps) auto
qed

lemma streq_take:
  assumes "0 \<le> n" and "n \<le> int (length s1)" and "n \<le> int (length s2)"
  shows "streq s1 s2 n = Inr (if take (nat n) s1 = take (nat n) s2 \<and> 0 \<notin> set (take (nat n) s1) then 1 else 0)"
proof -
  have "(\<forall>k. nat 0 \<le> k \<and> k < nat n \<longrightarrow> s1 ! k \<noteq> 0 \<and> s1 ! k = s2 ! k) \<longleftrightarrow>
      take (nat n) s1 = take (nat n) s2 \<and> 0 \<notin> set (take (nat n) s1)"
    using assms by (auto simp: list_eq_iff_nth_eq in_set_conv_nth)
  then show ?thesis using streq_loop_prefix [OF order_refl assms] by (simp add: streq_def)
qed

section \<open>Line input\<close>

text \<open>A line of at most \<open>n\<close> bytes: up to the first carriage return or newline, delivered as a
  newline, and the rest of the input; \<open>None\<close> if the input ends before.\<close>

fun read_line :: "nat \<Rightarrow> byte list \<Rightarrow> (byte list \<times> byte list) option" where
  "read_line 0 cs = Some ([], cs)"
| "read_line (Suc n) [] = None"
| "read_line (Suc n) (c # cs) =
     (if c = 10 \<or> c = 13 then Some ([10], cs)
      else map_option (\<lambda>(l, rest). (c # l, rest)) (read_line n cs))"

lemma read_line_numeral [simp]:
  "read_line (numeral k) (c # cs) =
     (if c = 10 \<or> c = 13 then Some ([10], cs)
      else map_option (\<lambda>(l, rest). (c # l, rest)) (read_line (pred_numeral k) cs))"
  by (simp only: numeral_eq_Suc read_line.simps)

lemma uart_gets_loop_line:
  assumes "0 \<le> i" and "i \<le> maxlen - 1" and "maxlen \<le> int (length buf)"
  shows "uart_gets_loop buf maxlen i s =
    (case read_line (nat (maxlen - 1 - i)) (uart_in s) of
       None \<Rightarrow> Inl Blocked
     | Some (l, rest) \<Rightarrow> Inr (i + int (length l), take (nat i) buf @ l @ drop (nat i + length l) buf,
         s\<lparr>uart_in := rest, uart_out := uart_out s @ l\<rparr>))"
  using assms
proof (induction "nat (maxlen - 1 - i)" arbitrary: i buf s)
  case 0
  then show ?case by (subst uart_gets_loop.simps) auto
next
  case (Suc d)
  then have i: "i < maxlen - 1" by simp
  have d: "nat (maxlen - 1 - (i + 1)) = d" "nat (maxlen - 1 - i) = Suc d" using Suc.hyps(2) i by simp_all
  show ?case
  proof (cases "uart_in s")
    case Nil
    then show ?thesis using i unfolding d(2) by (subst uart_gets_loop.simps) (simp add: uart_getc_def)
  next
    case (Cons c cs)
    let ?c = "if c = 13 then 10 else c"
    let ?s = "uart_putc ?c (s\<lparr>uart_in := cs\<rparr>)"
    have set: "buf_set buf i ?c = Inr (buf[nat i := ?c])" using Suc.prems i by (simp add: buf_set_def)
    have upd: "buf[nat i := x] = take (nat i) buf @ x # drop (nat i + 1) buf" for x
      using Suc.prems i by (simp add: upd_conv_take_nth_drop nat_less_iff)
    have run: "uart_gets_loop buf maxlen i s = (if ?c = 10 then Inr (i + 1, buf[nat i := ?c], ?s)
        else uart_gets_loop (buf[nat i := ?c]) maxlen (i + 1) ?s)"
      using i Cons set by (subst uart_gets_loop.simps) (simp add: uart_getc_def Let_def)
    show ?thesis
    proof (cases "c = 10 \<or> c = 13")
      case True
      then show ?thesis unfolding run d(2) using Cons upd by (auto simp: uart_putc_def)
    next
      case False
      have "uart_gets_loop (buf[nat i := c]) maxlen (i + 1) ?s =
        (case read_line d cs of None \<Rightarrow> Inl Blocked
         | Some (l, rest) \<Rightarrow> Inr (i + 1 + int (length l),
             take (nat (i + 1)) (buf[nat i := c]) @ l @ drop (nat (i + 1) + length l) (buf[nat i := c]),
             ?s\<lparr>uart_in := rest, uart_out := uart_out ?s @ l\<rparr>))"
        using Suc.hyps(1) [of "i + 1" "buf[nat i := c]" ?s] d Suc.prems i by (simp add: uart_putc_def)
      moreover have "take (nat (i + 1)) (buf[nat i := c]) = take (nat i) buf @ [c]"
        "drop (nat (i + 1) + k) (buf[nat i := c]) = drop (nat i + Suc k) buf" for k
        using Suc.prems i by (simp_all add: upd nat_add_distrib add.commute)
      ultimately show ?thesis
        unfolding run d(2) using Cons False by (auto simp: uart_putc_def split: option.splits)
    qed
  qed
qed

lemma read_line_shape:
  assumes "read_line n cs = Some (l, rest)"
  shows "length l \<le> n" and "length l < n \<Longrightarrow> l \<noteq> [] \<and> last l = 10" and "0 < n \<Longrightarrow> l \<noteq> []"
  using assms by (induction n cs arbitrary: l rest rule: read_line.induct) (auto split: if_splits)

lemma uart_gets_line:
  assumes "1 \<le> maxlen" and "maxlen \<le> int (length buf)"
  shows "uart_gets buf maxlen s =
    (case read_line (nat maxlen - 1) (uart_in s) of
       None \<Rightarrow> Inl Blocked
     | Some (l, rest) \<Rightarrow> Inr (int (length l), l @ 0 # drop (length l + 1) buf,
         s\<lparr>uart_in := rest, uart_out := uart_out s @ l\<rparr>))"
proof (cases "read_line (nat maxlen - 1) (uart_in s)")
  case None
  then show ?thesis
    using uart_gets_loop_line [of 0 maxlen buf s] assms by (simp add: uart_gets_def nat_diff_distrib)
next
  case (Some p)
  obtain l rest where p: "p = (l, rest)" by (cases p)
  have len: "length l < length buf"
    using read_line_shape(1) [of "nat maxlen - 1" "uart_in s" l rest] Some p assms by simp
  then have "buf_set (l @ drop (length l) buf) (int (length l)) 0 = Inr (l @ 0 # drop (length l + 1) buf)"
    by (auto simp: buf_set_def list_update_append Cons_nth_drop_Suc [symmetric])
  then show ?thesis
    using uart_gets_loop_line [of 0 maxlen buf s] assms Some p by (simp add: uart_gets_def nat_diff_distrib)
qed

text \<open>Comparing a buffer that holds a line with the command.\<close>

lemma streq_line:
  assumes "read_line 63 cs = Some (l, rest)" and "5 \<le> length (l @ r)"
  shows "streq (l @ r) cmd_yield 5 = Inr (if take 5 l = map of_char ''yield'' then 1 else 0)"
proof -
  define y :: "byte list" where "y = map of_char ''yield''"
  have cmd: "take 5 cmd_yield = y" "length cmd_yield = 6" "0 \<notin> set y" "10 \<notin> set y"
    by (simp_all add: cmd_yield_def cstr_def y_def)
  have eq: "take 5 (l @ r) = y \<longleftrightarrow> take 5 l = y"
  proof (cases "5 \<le> length l")
    case False
    then have "l \<noteq> [] \<and> last l = 10" using read_line_shape(2) [OF assms(1)] by simp
    then have "10 \<in> set l" using last_in_set [of l] by metis
    then have "10 \<in> set (take 5 (l @ r))" "10 \<in> set (take 5 l)" using False by simp_all
    then have "take 5 (l @ r) \<noteq> y" "take 5 l \<noteq> y" using cmd(4) by blast+
    then show ?thesis by simp
  qed simp
  have "streq (l @ r) cmd_yield 5 = Inr (if take 5 (l @ r) = y \<and> 0 \<notin> set (take 5 (l @ r)) then 1 else 0)"
    using streq_take [of 5 "l @ r" cmd_yield] assms(2) cmd(1,2) by simp
  also have "\<dots> = Inr (if take 5 l = y then 1 else 0)"
    using cmd(3) by (cases "take 5 l = y") (simp_all only: eq [THEN iffD2] eq if_True if_False simp_thms not_False_eq_True)
  finally show ?thesis unfolding y_def .
qed

section \<open>Properties\<close>

text \<open>A machine with the given input at the console.\<close>

definition console_with :: "byte list \<Rightarrow> machine" where
  "console_with cs =
     \<lparr>m_hart = \<lparr>cpu_id = 0, lock_depth = 0, cpu_sstatus = 0, csr_sstatus = 0\<rparr>, m_locks = (\<lambda>_. 0),
      m_mem = (\<lambda>_. 0), va_offset = 0, uart_out = [], uart_in = cs\<rparr>"

text \<open>C35. \<open>streq\<close> on arrays of at least \<open>n\<close> bytes is equality of the first \<open>n\<close> bytes without a
  terminator among them.\<close>

theorem streq_correct:
  assumes "0 \<le> n" and "n \<le> int (length s1)" and "n \<le> int (length s2)"
  shows "streq s1 s2 n = Inr (if take (nat n) s1 = take (nat n) s2 \<and> 0 \<notin> set (take (nat n) s1) then 1 else 0)"
  using assms by (rule streq_take)

theorem streq_witness: "streq (cstr ''yielding'') cmd_yield 5 = Inr 1"
  using streq_correct [of 5 "cstr ''yielding''" cmd_yield] by (simp add: cstr_def cmd_yield_def)

text \<open>C36. \<open>uart_gets\<close> delivers exactly the next line of the console, at most \<open>maxlen - 1\<close> bytes, with
  a carriage return delivered as a newline: it returns its length, stores it with a terminator,
  echoes it and consumes it; without a complete line it waits.\<close>

theorem uart_gets_correct:
  assumes "1 \<le> maxlen" and "maxlen \<le> int (length buf)"
  shows "uart_gets buf maxlen s =
    (case read_line (nat maxlen - 1) (uart_in s) of
       None \<Rightarrow> Inl Blocked
     | Some (l, rest) \<Rightarrow> Inr (int (length l), l @ 0 # drop (length l + 1) buf,
         s\<lparr>uart_in := rest, uart_out := uart_out s @ l\<rparr>))"
  using assms by (rule uart_gets_line)

theorem uart_gets_witness:
  "uart_gets (replicate 64 0) 64 (console_with [104, 105, 13, 120]) =
     Inr (3, [104, 105, 10, 0] @ replicate 60 0, (console_with [120])\<lparr>uart_out := [104, 105, 10]\<rparr>)"
  using uart_gets_correct [of 64 "replicate 64 0" "console_with [104, 105, 13, 120]"]
  by (simp add: console_with_def)

text \<open>C37. One turn of the shell on the line that the kernel's \<open>sys_read\<close> takes from the console: it
  prompts, reads, sleeps a second, yields exactly if the line starts with \<open>yield\<close>, and writes the
  prompt and the line back; the buffer keeps its size and its prompt.\<close>

theorem shell_turn_correct:
  assumes "uart_gets (replicate (unat MAXLEN) 0) (int (unat MAXLEN)) s = Inr (n, b, s')"
    and "length buf = INPUT_BUF_SIZE" and "take 2 buf = map of_char ''$ ''"
  shows "\<exists>buf'. shell_turn (word_of_int n) (take (nat n) b) buf =
      Inr ([Write_call (map of_char ''$ ''), Read_call 2 127, Sleep_call 1000]
           @ (if take 5 (take (nat n) b) = map of_char ''yield'' then [Yield_call] else [])
           @ [Write_call (map of_char ''$ '' @ take (nat n) b)], buf') \<and>
    length buf' = INPUT_BUF_SIZE \<and> take 2 buf' = map of_char ''$ ''"
proof -
  have max: "unat MAXLEN = 64" by (simp add: MAXLEN_def)
  obtain l rest where l: "read_line 63 (uart_in s) = Some (l, rest)" "n = int (length l)" "take (nat n) b = l"
    using assms(1) uart_gets_line [of 64 "replicate 64 0" s] unfolding max
    by (auto split: option.splits)
  have len: "length l \<le> 63" "0 < length l" using read_line_shape(1,3) [OF l(1)] by simp_all
  define d :: "byte list" where "d = map of_char ''$ ''"
  define y :: "byte list" where "y = map of_char ''yield''"
  let ?buf = "d @ l @ drop (2 + length l) buf"
  have d: "length d = 2" "write_bytes prompt 2 = Inr d" by (simp_all add: d_def write_bytes_def prompt_def cstr_def)
  have n: "c_int (word_of_int n) = int (length l)"
    using len c_int_small [of "of_nat (length l)"] by (simp add: l(2) unat_of_nat64)
  have echo: "write_bytes ?buf (int (length l) + 2) = Inr (d @ l)"
    using d(1) by (simp add: write_bytes_def nat_add_distrib)
  have "streq (l @ drop (2 + length l) buf) cmd_yield 5 = Inr (if take 5 l = y then 1 else 0)"
    unfolding y_def by (rule streq_line [OF l(1)]) (use assms(2) len in \<open>simp add: INPUT_BUF_SIZE_def\<close>)
  moreover have "drop 2 ?buf = l @ drop (2 + length l) buf" using d(1) by simp
  moreover have "int (length cmd_yield) - 1 = 5" by (simp add: cmd_yield_def cstr_def)
  ultimately have "shell_turn (word_of_int n) l buf =
      Inr ([Write_call d, Read_call 2 127, Sleep_call 1000] @ (if take 5 l = y then [Yield_call] else [])
           @ [Write_call (d @ l)], ?buf)"
    using d n echo len assms(3) [folded d_def]
    by (simp add: shell_turn_def Let_def INPUT_BUF_SIZE_def)
  moreover have "length ?buf = INPUT_BUF_SIZE" "take 2 ?buf = d"
    using d(1) len assms(2) by (simp_all add: INPUT_BUF_SIZE_def)
  ultimately show ?thesis unfolding l(3) d_def y_def by blast
qed

theorem shell_turn_witness:
  "\<exists>buf'. shell_turn 6 [121, 105, 101, 108, 100, 10] shell_start =
     Inr ([Write_call [36, 32], Read_call 2 127, Sleep_call 1000, Yield_call,
           Write_call [36, 32, 121, 105, 101, 108, 100, 10]], buf')"
proof -
  let ?s = "console_with [121, 105, 101, 108, 100, 10]"
  have "read_line 63 (uart_in ?s) = Some ([121, 105, 101, 108, 100, 10], [])"
    by (simp add: console_with_def)
  then obtain b s' where "uart_gets (replicate 64 0) 64 ?s = Inr (6, b, s')" "take 6 b = [121, 105, 101, 108, 100, 10]"
    using uart_gets_line [of 64 "replicate 64 0" ?s] by auto
  then show ?thesis
    using shell_turn_correct [of ?s 6 b s' shell_start]
    by (auto simp: MAXLEN_def shell_start_def prompt_def cstr_def INPUT_BUF_SIZE_def)
qed

end
