(* ===== verification/Spec2Isabelle.thy ===== *)
theory Spec2Isabelle
  imports Base_Props Boot_Props Kernel_Copy Fs_Props Shell
begin

text \<open>
  Verification of SystemN, a small RISC-V kernel in C and assembly (\<^verbatim>\<open>src/kernel\<close>).

  \<^bold>\<open>The program.\<close> Every hart enters in machine mode (\<^verbatim>\<open>entry.S\<close>), runs \<open>start\<close> and continues in
  supervisor mode in \<open>s_mode_main\<close> (\<^verbatim>\<open>start.c\<close>). Hart 0 sets up memory in \<open>mm_init\<close>: the buddy page
  allocator (\<^verbatim>\<open>mm/mem.c\<close>), the kernel page table (\<^verbatim>\<open>mm/pagetable.c\<close>) and the object caches
  (\<^verbatim>\<open>mm/snub.c\<close>). It creates the shell process (\<^verbatim>\<open>proc.c\<close>) from a binary built from \<^verbatim>\<open>shell.c\<close>. A
  process enters the kernel through \<^verbatim>\<open>trap/trap_vec.S\<close> and \<open>trap_handler\<close> (\<^verbatim>\<open>trap/trap.c\<close>), which
  dispatches system calls (\<^verbatim>\<open>syscall.c\<close>) and timer interrupts (\<^verbatim>\<open>timer.h\<close>) and calls the scheduler
  (\<^verbatim>\<open>sched.c\<close>, \<^verbatim>\<open>swtch.S\<close>). All of them share the intrusive lists (\<^verbatim>\<open>list.h\<close>), spinlocks
  (\<^verbatim>\<open>spinlock.c\<close>), the console (\<^verbatim>\<open>uart.c\<close>) and string routines (\<^verbatim>\<open>string.c\<close>). The file systems
  (\<^verbatim>\<open>fs/vfs.c\<close>, \<^verbatim>\<open>fs/ramfs.c\<close>) are in the repository but not in the build.

  \<^bold>\<open>The state.\<close> The state grows with the components, as records that extend one another:
  \<open>machine\<close> (the hart's registers and \<^verbatim>\<open>cpu_t\<close> lock fields, lock words, RAM as a map from physical
  addresses to bytes, \<open>va_offset\<close>, the console), \<open>buddy\<close> (\<^verbatim>\<open>page_array\<close>, \<^verbatim>\<open>free_lists\<close>, the pool
  bounds), \<open>paging\<close> (\<open>kernel_pagetable\<close>, \<open>satp\<close>), \<open>snub\<close> (the caches), \<open>kernel\<close> (list nodes, process
  structures and trap frames as typed heaps, the current hart's \<^verbatim>\<open>cpu_t\<close> and supervisor registers) and
  \<open>boot\<close> (the machine-mode registers). Operations are functions from state to \<open>kres\<close>: a result with
  the new state, or the reason why the call does not return (\<open>kerr\<close>: a halt loop of the source, a fault at an
  address, an array bound, a lock that is never released, an endless loop, missing input).
  A kernel pointer \<open>p\<close> denotes physical address \<open>p - va_offset\<close> and faults outside RAM.

  \<^bold>\<open>Theories.\<close>
  \<^item> \<open>Kernel_Prelude\<close>: C integer types, outcomes, sequencing (\<open>rbind\<close>), word lemmas.
  \<^item> \<open>Machine\<close>: \<^verbatim>\<open>mm/mapping.h\<close>, \<^verbatim>\<open>mm/mem.h\<close>, \<^verbatim>\<open>riscv.h\<close>: the address map, CSR macros, loads and stores.
  \<^item> \<open>Kstring\<close>: \<^verbatim>\<open>string.c\<close>. \<open>Uart\<close>: \<^verbatim>\<open>uart.c\<close>. \<open>Klist\<close>: \<^verbatim>\<open>list.h\<close> over a heap of nodes, with the
    contract of a queue as a locale.
  \<^item> \<open>Spinlock\<close>: \<^verbatim>\<open>spinlock.c\<close> for one hart, and an interleaving step relation for several harts whose
    reachable states have mutual exclusion; the sequential operations are runs of it.
  \<^item> \<open>Buddy\<close>: \<^verbatim>\<open>mm/mem.c\<close>. \<open>Buddy_Blocks\<close>, \<open>Buddy_Inv\<close>, \<open>Buddy_Alloc\<close>, \<open>Buddy_Free\<close>, \<open>Buddy_Init\<close>: blocks
    as pairs of page number and order, the invariant that free and handed-out blocks tile the pool, and
    its preservation by each operation. \<open>Buddy_Props\<close>: the properties, and histories from boot (calls, stores
    to memory, the switch to high addresses).
  \<^item> \<open>Page_Source\<close>: the interface of an allocator of zeroed pages as a locale, interpreted on \<open>alloc_page\<close>
    alone (\<open>buddy_pages\<close>) and together with pages from before the allocator (\<open>own_pages\<close>); \<open>pages_left\<close>
    counts pages so that success can be promised.
  \<^item> \<open>Pagetable\<close>: \<^verbatim>\<open>mm/pagetable.c\<close>. \<open>Pagetable_Inv\<close>: well-formed trees of tables (\<open>pt_wf\<close>) and the
    translation they define (\<open>pt_lookup\<close>). \<open>Pagetable_Ops\<close>, \<open>Paging_Props\<close>: the operations as changes of
    that translation. \<open>Page_Loop\<close>, \<open>Map_Range\<close>, \<open>Fresh_Page\<close>, \<open>Load_Image\<close>: loops over pages, with the
    wrap-around at the end of the address space, and the one that fills a process's memory.
  \<^item> \<open>Snub\<close>, \<open>Snub_Inv\<close>, \<open>Snub_Ops\<close>, \<open>Snub_Props\<close>: \<^verbatim>\<open>mm/snub.c\<close>, its free lists through the objects
    themselves, and \<open>kmalloc\<close>, \<open>kzalloc\<close>, \<open>kfree\<close>.
  \<^item> \<open>Proc\<close>: \<^verbatim>\<open>proc.h\<close>, \<^verbatim>\<open>proc.c\<close>; \<open>Proc_Props\<close>: building the user memory of a process; \<open>Kernel_Copy\<close>: the
    kernel's translations in the table of a process, no others after the image, and its entry into the run queue; \<open>Dump_Props\<close>:
    termination of the table printer.
  \<^item> \<open>Sched\<close>: \<^verbatim>\<open>sched.c\<close>, \<^verbatim>\<open>swtch.S\<close>, \<^verbatim>\<open>timer.h\<close>, \<open>sys_sleep_ms\<close>; \<open>Sched_Inv\<close>, \<open>Sched_Props\<close>: the queues as
    lists, refinement of a round-robin step, fairness, waking by the timer.
  \<^item> \<open>Syscall\<close>, \<open>Syscall_Props\<close>: \<^verbatim>\<open>mm/user_copy.h\<close> and \<^verbatim>\<open>syscall.c\<close>, with user memory read and written
    through the page table in \<^verbatim>\<open>satp\<close>, and the heap calls' accesses to allocator and tables checked
    against it.
  \<^item> \<open>Trap\<close>, \<open>Trap_Props\<close>: \<^verbatim>\<open>trap_vec.S\<close>, \<^verbatim>\<open>trap.c\<close>, \<^verbatim>\<open>user_syscall.h\<close>, \<^verbatim>\<open>user.h\<close>: a trap from the registers of
    the process to the registers it gets back, and a sleep from the call to its return.
  \<^item> \<open>Boot\<close>, \<open>Boot_Props\<close>: \<^verbatim>\<open>start.c\<close>; \<open>mm_init\<close> establishes the invariants of the other components and the
    translation of the kernel page table.
  \<^item> \<open>Vfs\<close>, \<open>Ramfs\<close>: \<^verbatim>\<open>fs/\<close>. \<open>Vfs_Spec\<close>: an abstract file system of contents and positions. \<open>Vfs_Layer\<close>: the
    contract of a mounted file system as a locale, and \<^verbatim>\<open>vfs.c\<close> proved against it. \<open>Ramfs_Inv\<close>: the
    interpretation on \<^verbatim>\<open>ramfs.c\<close>. \<open>Fs_Props\<close>: the refinement, and reading back through a second descriptor.
  \<^item> \<open>Shell\<close>: \<^verbatim>\<open>shell.c\<close>, and the line input of the console it answers to.
  \<^item> \<open>Base_Props\<close>: the properties of spinlocks, strings and number printing.

  \<^bold>\<open>Loops and bounds.\<close> Loops with a bound are functions with a termination proof. \<open>memset\<close> and
  \<open>strlen\<close>, and the loops over pages, may run forever and are partial functions; their lemmas say when they
  return. The recursions of \<open>free_pagetable\<close> and \<open>dump_pagetable_recursive\<close> follow entries in memory, which
  may form a cycle; they carry a depth of \<open>0x8002\<close>, more than the number of pages of RAM, and reaching
  it counts as not returning. On well-formed tables three levels are enough, which is proved for
  both. Counters and sizes keep the width of the source, so that the 32-bit counter of \<open>memset\<close>, the signed
  conversion of lengths and the wrap-around of sums are in the model.

  \<^bold>\<open>Conventions.\<close> The model is the build with \<^verbatim>\<open>NODEBUG=1\<close>: debug output is empty. Linker symbols are a
  parameter (\<open>symbols\<close>), \<open>time_at\<close> gives the successive readings of the clock, and the C
  library's allocation outcomes are a parameter of the file systems (\<open>fs_env\<close>), as are the constants that
  \<^verbatim>\<open>ramfs.c\<close> uses without a definition. Memory that the code clears and then uses as a structure
  enters the typed heap at that point (\<open>new_proc\<close>, \<open>new_frame\<close>). \<open>schedule\<close> is modelled to the end
  of \<open>swtch\<close>, when the other process continues. The tokens of a path are an argument of \<open>vfs_lookup\<close>,
  since \<^verbatim>\<open>vfs.c:52\<close> breaks up a buffer that has not been filled; theorems hold for every list of tokens.
  The typed heaps have no object at other addresses than the ones they name: reading a structure
  there is a fault. In particular \<open>trap_handler\<close> gets the register \<^verbatim>\<open>tp\<close> as an argument. No trap entry loads
  it, so it is the interrupted code's \<^verbatim>\<open>x4\<close>, and the properties of traps are about processes that have not
  changed it (\<open>in_user\<close>); \<open>foreign_tp_faults\<close> is the other case.

  \<^bold>\<open>Not modelled.\<close>
  \<^item> \<^verbatim>\<open>entry.S\<close> (setting the stack pointer per hart), the linker scripts and the build files.
  \<^item> The translation cache and \<^verbatim>\<open>sfence.vma\<close>, large pages, access and dirty bits set by hardware.
  \<^item> The limits of the kernel's own mapping: a kernel pointer (in \<open>alloc_pages\<close>, the caches, the page tables)
    reaches all of RAM, although the kernel page table maps only the first 8 MB, which
    \<open>mm_init_correct\<close> makes precise.
  \<^item> The limits of a process's page table outside the heap calls and user memory: the trap handler, the
    timer and \<open>schedule\<close> reach every process structure. The kernel has them mapped only when they share a
    page with the structure of the running process, as do up to 16, which fill one page of the object cache.
  \<^item> Concurrency of harts outside the spinlocks: the other components are the code of one hart
    between acquiring and releasing a lock.
  \<^item> Text printed before a halt, and the messages of the debug build.
\<close>

end
